(* ===== verification/Go_Prelude.thy ===== *)
theory Go_Prelude
  imports Main "HOL-Library.Char_ord" "HOL-Library.List_Lexorder" "HOL-Library.Sublist"
begin

text \<open>
  The prelude of the development: the parts of the Go language and of its standard library
  that the modelled packages use (byte strings, \<open>range\<close> over a string, \<open>strings.IndexByte\<close>,
  \<open>strings.LastIndexByte\<close>, \<open>strings.Cut\<close>, \<open>strings.HasPrefix\<close>, \<open>unicode.IsControl\<close>), the result
  type of a fallible function, and the list and string lemmas the components share.

  A Go string is a sequence of bytes, so it is Isabelle's \<open>string\<close>, whose characters are
  bytes. Go's comparison of strings is the lexicographic order of their bytes, which is the
  order that the theories \<open>Char_ord\<close> and \<open>List_Lexorder\<close> put on \<open>string\<close>.
\<close>

named_theorems go_str \<open>facts about Go's byte strings and their search functions\<close>
named_theorems go_rune \<open>facts about decoding strings to runes\<close>

section \<open>Results\<close>

text \<open>
  A Go function returning \<open>(T, error)\<close> returns \<open>error + T\<close>: \<open>Inl\<close> is a non-nil error.
\<close>

type_synonym ('e, 'a) result = "'e + 'a"

fun is_ok :: "('e, 'a) result \<Rightarrow> bool" where
  "is_ok (Inl _) = False"
| "is_ok (Inr _) = True"

fun rbind :: "('e, 'a) result \<Rightarrow> ('a \<Rightarrow> ('e, 'b) result) \<Rightarrow> ('e, 'b) result" where
  "rbind (Inl e) f = Inl e"
| "rbind (Inr x) f = f x"

lemma rbind_cong [fundef_cong]:
  assumes "x = y" and "\<And>a. y = Inr a \<Longrightarrow> f a = g a"
  shows "rbind x f = rbind y g"
  using assms by (cases y) auto

lemma rbind_Inr_iff [simp]: "rbind x f = Inr b \<longleftrightarrow> (\<exists>a. x = Inr a \<and> f a = Inr b)"
  by (cases x) auto

lemma rbind_Inl_iff: "rbind x f = Inl e \<longleftrightarrow> x = Inl e \<or> (\<exists>a. x = Inr a \<and> f a = Inl e)"
  by (cases x) auto

lemma is_ok_iff: "is_ok r \<longleftrightarrow> (\<exists>x. r = Inr x)"
  by (cases r) auto

lemma not_is_ok_iff: "\<not> is_ok r \<longleftrightarrow> (\<exists>e. r = Inl e)"
  by (cases r) auto

text \<open>A loop over a slice that returns the first error of its body.\<close>

fun for_each :: "('a \<Rightarrow> ('e, unit) result) \<Rightarrow> 'a list \<Rightarrow> ('e, unit) result" where
  "for_each f [] = Inr ()"
| "for_each f (x # xs) = rbind (f x) (\<lambda>_. for_each f xs)"

lemma for_each_cong [fundef_cong]:
  assumes "xs = ys" and "\<And>x. x \<in> set ys \<Longrightarrow> f x = g x"
  shows "for_each f xs = for_each g ys"
  using assms(2) unfolding assms(1) by (induction ys) auto

lemma for_each_Inr_iff [simp]: "for_each f xs = Inr u \<longleftrightarrow> (\<forall>x \<in> set xs. f x = Inr ())"
  by (induction xs) auto

lemma for_each_Inl: "for_each f xs = Inl e \<Longrightarrow> \<exists>x \<in> set xs. f x = Inl e"
  by (induction xs) (auto simp: rbind_Inl_iff)

section \<open>Searching byte strings\<close>

text \<open>\<open>strings.IndexByte\<close> and \<open>strings.LastIndexByte\<close> return -1 when the byte does not occur.\<close>

fun IndexByte :: "string \<Rightarrow> char \<Rightarrow> int" where
  "IndexByte [] c = -1"
| "IndexByte (x # xs) c =
     (if x = c then 0 else let i = IndexByte xs c in if i = -1 then -1 else i + 1)"

fun LastIndexByte :: "string \<Rightarrow> char \<Rightarrow> int" where
  "LastIndexByte [] c = -1"
| "LastIndexByte (x # xs) c =
     (let i = LastIndexByte xs c in if i \<noteq> -1 then i + 1 else if x = c then 0 else -1)"

text \<open>\<open>strings.Cut\<close> with a separator of one byte: (before, after, found).\<close>

definition Cut :: "string \<Rightarrow> char \<Rightarrow> string \<times> string \<times> bool" where
  "Cut s c = (let i = IndexByte s c
     in if i = -1 then (s, [], False) else (take (nat i) s, drop (nat i + 1) s, True))"

definition HasPrefix :: "string \<Rightarrow> string \<Rightarrow> bool" where
  "HasPrefix s p \<longleftrightarrow> take (length p) s = p"

lemma IndexByte_ge: "-1 \<le> IndexByte s c"
  by (induction s) (auto simp: Let_def)

lemma LastIndexByte_ge: "-1 \<le> LastIndexByte s c"
  by (induction s) (auto simp: Let_def)

lemma IndexByte_not_in [go_str]: "c \<notin> set s \<Longrightarrow> IndexByte s c = -1"
  by (induction s) auto

lemma IndexByte_neg_iff [go_str]: "IndexByte s c = -1 \<longleftrightarrow> c \<notin> set s"
proof (induction s)
  case (Cons x xs)
  then show ?case using IndexByte_ge [of xs c] by (auto simp: Let_def)
qed simp

lemma IndexByte_append [go_str]: "c \<notin> set a \<Longrightarrow> IndexByte (a @ c # b) c = int (length a)"
  by (induction a) auto

lemma LastIndexByte_neg_iff [go_str]: "LastIndexByte s c = -1 \<longleftrightarrow> c \<notin> set s"
proof (induction s)
  case (Cons x xs)
  then show ?case using LastIndexByte_ge [of xs c] by (auto simp: Let_def)
qed simp

lemma LastIndexByte_append [go_str]: "c \<notin> set b \<Longrightarrow> LastIndexByte (a @ c # b) c = int (length a)"
  by (induction a) (auto simp: Let_def LastIndexByte_neg_iff)

text \<open>A string that holds the byte splits at its first and at its last occurrence.\<close>

lemma split_first_byte:
  assumes "c \<in> set s"
  obtains a b where "s = a @ c # b" and "c \<notin> set a"
  using assms by (meson split_list_first)

lemma split_last_byte:
  assumes "c \<in> set s"
  obtains a b where "s = a @ c # b" and "c \<notin> set b"
  using assms by (meson split_list_last)

lemma Cut_not_in [go_str]: "c \<notin> set s \<Longrightarrow> Cut s c = (s, [], False)"
  by (simp add: Cut_def IndexByte_not_in)

lemma Cut_append [go_str]: "c \<notin> set a \<Longrightarrow> Cut (a @ c # b) c = (a, b, True)"
  by (simp add: Cut_def IndexByte_append)

lemma Cut_found: "Cut s c = (a, b, True) \<longleftrightarrow> s = a @ c # b \<and> c \<notin> set a"
proof (cases "c \<in> set s")
  case True
  then obtain a' b' where s: "s = a' @ c # b'" "c \<notin> set a'" by (rule split_first_byte)
  then have cut: "Cut s c = (a', b', True)" by (simp add: Cut_append)
  show ?thesis
  proof
    assume "Cut s c = (a, b, True)"
    with cut s show "s = a @ c # b \<and> c \<notin> set a" by simp
  next
    assume "s = a @ c # b \<and> c \<notin> set a"
    then show "Cut s c = (a, b, True)" by (simp add: Cut_append)
  qed
next
  case False
  then show ?thesis by (auto simp: Cut_not_in)
qed

lemma HasPrefix_iff [go_str]: "HasPrefix s p \<longleftrightarrow> (\<exists>r. s = p @ r)"
  unfolding HasPrefix_def by (metis append_eq_conv_conj append_take_drop_id)

section \<open>Runes\<close>

text \<open>
  \<open>for i, r := range s\<close> decodes UTF-8. \<open>decode_rune\<close> is \<open>utf8.DecodeRuneInString\<close> on a
  non-empty string: the rune and the number of bytes it takes. A malformed or truncated
  sequence is the rune U+FFFD of width 1. The table of second bytes is the one of the
  standard library (no overlong forms, no surrogates, nothing above U+10FFFF).
\<close>

abbreviation byte_val :: "char \<Rightarrow> nat" where
  "byte_val \<equiv> of_char"

definition RuneError :: nat where
  "RuneError = 65533"

definition is_cont :: "char \<Rightarrow> bool" where
  "is_cont c \<longleftrightarrow> 128 \<le> byte_val c \<and> byte_val c \<le> 191"

definition accept2 :: "nat \<Rightarrow> char \<Rightarrow> bool" where
  "accept2 p c \<longleftrightarrow>
     (let b = byte_val c in
      if p = 224 then 160 \<le> b \<and> b \<le> 191
      else if p = 237 then 128 \<le> b \<and> b \<le> 159
      else if p = 240 then 144 \<le> b \<and> b \<le> 191
      else if p = 244 then 128 \<le> b \<and> b \<le> 143
      else 128 \<le> b \<and> b \<le> 191)"

definition decode_rune :: "string \<Rightarrow> nat \<times> nat" where
  "decode_rune s = (case s of [] \<Rightarrow> (RuneError, 0) | c # cs \<Rightarrow>
     (let p = byte_val c in
      if p < 128 then (p, 1)
      else if p < 194 \<or> 244 < p then (RuneError, 1)
      else case cs of [] \<Rightarrow> (RuneError, 1) | c1 # cs1 \<Rightarrow>
        if \<not> accept2 p c1 then (RuneError, 1)
        else if p < 224 then ((p - 192) * 64 + (byte_val c1 - 128), 2)
        else case cs1 of [] \<Rightarrow> (RuneError, 1) | c2 # cs2 \<Rightarrow>
          if \<not> is_cont c2 then (RuneError, 1)
          else if p < 240 then
            ((p - 224) * 4096 + (byte_val c1 - 128) * 64 + (byte_val c2 - 128), 3)
          else case cs2 of [] \<Rightarrow> (RuneError, 1) | c3 # _ \<Rightarrow>
            if \<not> is_cont c3 then (RuneError, 1)
            else ((p - 240) * 262144 + (byte_val c1 - 128) * 4096 +
                  (byte_val c2 - 128) * 64 + (byte_val c3 - 128), 4)))"

lemma decode_rune_width: "s \<noteq> [] \<Longrightarrow> 0 < snd (decode_rune s)"
  by (auto simp: decode_rune_def Let_def split: list.splits)

lemma decode_rune_width_le: "snd (decode_rune s) \<le> length s"
  by (auto simp: decode_rune_def Let_def split: list.splits)

text \<open>The pairs (byte offset, rune) that \<open>range\<close> visits, from offset \<open>i\<close> on.\<close>

function range_from :: "nat \<Rightarrow> string \<Rightarrow> (nat \<times> nat) list" where
  "range_from i s =
     (if s = [] then []
      else (i, fst (decode_rune s)) #
             range_from (i + snd (decode_rune s)) (drop (snd (decode_rune s)) s))"
  by pat_completeness auto
termination
  by (relation "measure (\<lambda>(i, s). length s)") (auto simp: decode_rune_width)

declare range_from.simps [simp del]

definition go_range :: "string \<Rightarrow> (nat \<times> nat) list" where
  "go_range s = range_from 0 s"

definition runes :: "string \<Rightarrow> nat list" where
  "runes s = map snd (go_range s)"

text \<open>\<open>unicode.IsControl\<close>: the C0 and C1 control characters and DEL.\<close>

definition IsControl :: "nat \<Rightarrow> bool" where
  "IsControl r \<longleftrightarrow> r < 32 \<or> (127 \<le> r \<and> r \<le> 159)"

text \<open>\<open>strings.ContainsFunc(s, unicode.IsControl)\<close>, the whole of \<open>utils.ContainsForbiddenChars\<close>.\<close>

definition ContainsForbiddenChars :: "string \<Rightarrow> bool" where
  "ContainsForbiddenChars s \<longleftrightarrow> (\<exists>r \<in> set (runes s). IsControl r)"

lemma range_from_Nil [simp]: "range_from i [] = []"
  by (simp add: range_from.simps)

lemma go_range_Nil [simp]: "go_range [] = []" and runes_Nil [simp]: "runes [] = []"
  by (simp_all add: go_range_def runes_def)

lemma range_from_ascii [simp]:
  "byte_val c < 128 \<Longrightarrow> range_from i (c # s) = (i, byte_val c) # range_from (Suc i) s"
  by (simp add: range_from.simps [of i "c # s"] decode_rune_def)

lemma map_snd_range_from_shift: "map snd (range_from i s) = map snd (range_from j s)"
proof (induction i s arbitrary: j rule: range_from.induct)
  case (1 i s)
  show ?case
  proof (cases "s = []")
    case False
    let ?w = "snd (decode_rune s)"
    have "map snd (range_from (i + ?w) (drop ?w s)) = map snd (range_from (j + ?w) (drop ?w s))"
      by (rule "1.IH" [OF False])
    with False show ?thesis
      by (simp add: range_from.simps [of i s] range_from.simps [of j s])
  qed simp
qed

lemma map_snd_range_from: "map snd (range_from i s) = runes s"
  unfolding runes_def go_range_def by (rule map_snd_range_from_shift)

text \<open>
  An ASCII byte is never part of a longer sequence: decoding a prefix is not changed by an
  ASCII byte after it, so \<open>runes\<close> distributes over ASCII separators.
\<close>

lemma decode_rune_append_ascii [go_rune]:
  assumes "byte_val c < 128" and "a \<noteq> []"
  shows "decode_rune (a @ c # b) = decode_rune a"
proof -
  have nc: "\<not> is_cont c" and na: "\<not> accept2 p c" for p
    using assms(1) by (auto simp: is_cont_def accept2_def Let_def)
  from assms(2) obtain c0 a0 where a: "a = c0 # a0" by (cases a) auto
  show ?thesis
    using nc na
    by (cases a0; cases "tl a0"; cases "tl (tl a0)")
       (auto simp: a decode_rune_def Let_def split: list.splits)
qed

lemma range_from_append_ascii:
  assumes "byte_val c < 128"
  shows "range_from i (a @ c # b) =
    range_from i a @ (i + length a, byte_val c) # range_from (i + length a + 1) b"
proof (induction i a rule: range_from.induct)
  case (1 i a)
  show ?case
  proof (cases "a = []")
    case True
    with assms show ?thesis by simp
  next
    case False
    let ?w = "snd (decode_rune a)"
    have w: "?w \<le> length a" by (rule decode_rune_width_le)
    have IH: "range_from (i + ?w) (drop ?w a @ c # b) =
        range_from (i + ?w) (drop ?w a) @
        (i + ?w + length (drop ?w a), byte_val c) # range_from (i + ?w + length (drop ?w a) + 1) b"
      by (rule "1.IH" [OF False])
    have "range_from i (a @ c # b) =
        (i, fst (decode_rune a)) # range_from (i + ?w) (drop ?w (a @ c # b))"
      by (simp add: range_from.simps [of i "a @ c # b"] decode_rune_append_ascii [OF assms False])
    also have "drop ?w (a @ c # b) = drop ?w a @ c # b" using w by simp
    finally show ?thesis
      using IH False w by (simp add: range_from.simps [of i a])
  qed
qed

lemma runes_append_ascii [go_rune]:
  assumes "byte_val c < 128"
  shows "runes (a @ c # b) = runes a @ byte_val c # runes b"
proof -
  have "runes (a @ c # b) = map snd (range_from 0 (a @ c # b))" by (rule map_snd_range_from [symmetric])
  also have "\<dots> = map snd (range_from 0 a) @ byte_val c # map snd (range_from (length a + 1) b)"
    by (simp only: range_from_append_ascii [OF assms] map_append list.map snd_conv add_0)
  finally show ?thesis by (simp only: map_snd_range_from)
qed

lemma runes_Cons_ascii [go_rune]:
  "byte_val c < 128 \<Longrightarrow> runes (c # s) = byte_val c # runes s"
  using runes_append_ascii [of c "[]" s] by simp

lemma runes_eq_Nil_iff [simp]: "runes s = [] \<longleftrightarrow> s = []"
  by (auto simp: runes_def go_range_def range_from.simps [of 0 s])

lemma decode_rune_ascii:
  assumes "fst (decode_rune (x # xs)) < 128"
  shows "fst (decode_rune (x # xs)) = byte_val x \<and> byte_val x < 128"
  using assms
  by (auto simp: decode_rune_def RuneError_def accept2_def is_cont_def Let_def
      split: list.splits if_splits)

text \<open>An ASCII rune occurs in a string exactly where its byte does.\<close>

lemma ascii_rune_iff [go_rune]:
  assumes "byte_val c < 128"
  shows "byte_val c \<in> set (runes s) \<longleftrightarrow> c \<in> set s"
proof
  assume "c \<in> set s"
  then obtain a b where "s = a @ c # b" by (meson split_list)
  with assms show "byte_val c \<in> set (runes s)" by (simp add: runes_append_ascii)
next
  have "byte_val c \<in> snd ` set (range_from i s) \<Longrightarrow> c \<in> set s" for i
  proof (induction i s rule: range_from.induct)
    case (1 i s)
    from "1.prems" obtain x xs where s: "s = x # xs" by (cases s) auto
    let ?w = "snd (decode_rune s)"
    have split: "range_from i s = (i, fst (decode_rune s)) # range_from (i + ?w) (drop ?w s)"
      using s by (subst range_from.simps) simp
    show ?case
    proof (cases "fst (decode_rune s) = byte_val c")
      case True
      with assms s decode_rune_ascii [of x xs] show ?thesis by simp
    next
      case False
      with "1.prems" split have "byte_val c \<in> snd ` set (range_from (i + ?w) (drop ?w s))" by auto
      then have "c \<in> set (drop ?w s)" using "1.IH" s by simp
      then show ?thesis by (rule in_set_dropD)
    qed
  qed
  moreover assume "byte_val c \<in> set (runes s)"
  ultimately show "c \<in> set s" by (auto simp: runes_def go_range_def)
qed

lemma ContainsForbiddenChars_append_ascii [go_rune]:
  "byte_val c < 128 \<Longrightarrow> ContainsForbiddenChars (a @ c # b) \<longleftrightarrow>
     ContainsForbiddenChars a \<or> IsControl (byte_val c) \<or> ContainsForbiddenChars b"
  by (auto simp: ContainsForbiddenChars_def runes_append_ascii)

lemma ContainsForbiddenChars_Nil [simp]: "\<not> ContainsForbiddenChars []"
  by (simp add: ContainsForbiddenChars_def)

section \<open>Decimal numbers and slices\<close>

text \<open>
  \<open>strconv.Itoa\<close> and \<open>strconv.Atoi\<close> on the 64-bit \<open>int\<close>: an optional sign, then decimal digits;
  a value out of range is an error (\<open>None\<close>). \<open>slice_from\<close> and \<open>slice_to\<close> are \<open>xs[n:]\<close> and \<open>xs[:n]\<close>,
  which panic (\<open>None\<close>) when the bound is outside the slice.
\<close>

definition digit_char :: "nat \<Rightarrow> char" where
  "digit_char d = char_of (48 + d)"

definition is_digit :: "char \<Rightarrow> bool" where
  "is_digit c \<longleftrightarrow> 48 \<le> byte_val c \<and> byte_val c \<le> 57"

fun nat_digits :: "nat \<Rightarrow> string" where
  "nat_digits n =
     (if n < 10 then [digit_char n] else nat_digits (n div 10) @ [digit_char (n mod 10)])"

declare nat_digits.simps [simp del]

definition digits_value :: "string \<Rightarrow> nat" where
  "digits_value ds = foldl (\<lambda>v c. v * 10 + (byte_val c - 48)) 0 ds"

definition Itoa :: "int \<Rightarrow> string" where
  "Itoa n = (if n < 0 then CHR ''-'' # nat_digits (nat (- n)) else nat_digits (nat n))"

definition Atoi :: "string \<Rightarrow> int option" where
  "Atoi s =
     (let (neg, ds) = (case s of [] \<Rightarrow> (False, [])
        | c # cs \<Rightarrow> if c = CHR ''-'' then (True, cs) else if c = CHR ''+'' then (False, cs)
                   else (False, s))
      in if ds = [] \<or> \<not> (\<forall>c \<in> set ds. is_digit c) then None
         else let v = int (digits_value ds)
              in if neg then (if v \<le> 2 ^ 63 then Some (- v) else None)
                 else if v < 2 ^ 63 then Some v else None)"

definition wrap64 :: "int \<Rightarrow> int" where
  "wrap64 n = (n + 2 ^ 63) mod 2 ^ 64 - 2 ^ 63"

definition slice_from :: "'a list \<Rightarrow> int \<Rightarrow> 'a list option" where
  "slice_from xs n = (if 0 \<le> n \<and> n \<le> int (length xs) then Some (drop (nat n) xs) else None)"

definition slice_to :: "'a list \<Rightarrow> int \<Rightarrow> 'a list option" where
  "slice_to xs n = (if 0 \<le> n \<and> n \<le> int (length xs) then Some (take (nat n) xs) else None)"

lemma wrap64_id [simp]: "- (2 ^ 63) \<le> n \<Longrightarrow> n < 2 ^ 63 \<Longrightarrow> wrap64 n = n"
  by (simp add: wrap64_def)

lemma byte_val_digit_char [simp]: "d < 10 \<Longrightarrow> byte_val (digit_char d) = 48 + d"
  by (simp add: digit_char_def)

lemma nat_digits_spec:
  "nat_digits n \<noteq> [] \<and> (\<forall>c \<in> set (nat_digits n). is_digit c) \<and> digits_value (nat_digits n) = n"
proof (induction n rule: nat_digits.induct)
  case (1 n)
  show ?case
  proof (cases "n < 10")
    case True
    then show ?thesis
      by (simp add: nat_digits.simps [of n] digits_value_def is_digit_def)
  next
    case False
    with 1 show ?thesis
      by (auto simp: nat_digits.simps [of n] digits_value_def is_digit_def)
  qed
qed

lemma nat_digits_no_sign:
  obtains c cs where "nat_digits n = c # cs" and "c \<noteq> CHR ''-''" and "c \<noteq> CHR ''+''"
proof -
  obtain c cs where c: "nat_digits n = c # cs" using nat_digits_spec [of n] by (cases "nat_digits n") auto
  with nat_digits_spec [of n] have "is_digit c" by simp
  then have "c \<noteq> CHR ''-''" "c \<noteq> CHR ''+''" by (auto simp: is_digit_def)
  with c that show thesis by blast
qed

lemma Atoi_Itoa [simp]:
  assumes "0 \<le> n" and "n < 2 ^ 63"
  shows "Atoi (Itoa n) = Some n"
proof -
  obtain c cs where c: "nat_digits (nat n) = c # cs" "c \<noteq> CHR ''-''" "c \<noteq> CHR ''+''"
    by (rule nat_digits_no_sign)
  show ?thesis
    using nat_digits_spec [of "nat n"] assms c by (simp add: Atoi_def Itoa_def)
qed

lemma Itoa_not_Nil [simp]: "Itoa n \<noteq> []"
  using nat_digits_spec by (simp add: Itoa_def)

end
