(* ===== verification/Tuple_Key.thy ===== *)
theory Tuple_Key
  imports Go_Prelude
begin

text \<open>
  The package \<open>pkg/tuple\<close> (file \<open>tuple.go\<close>): relationship tuples, their string forms and the
  validity predicates of objects, relations, users and usersets, with the round trips between
  the string and the structured forms. The protobuf messages are records and datatypes; a
  getter on a nil message is the field's zero value.
\<close>

section \<open>Messages\<close>

text \<open>
  \<open>structpb.Value\<close> and \<open>structpb.Struct\<close>. A number is the bit pattern of its \<open>float64\<close>. A nil
  value and a value with no kind behave alike wherever the code looks at one, and are
  \<open>UnsetValue\<close>. A struct is its fields in the order in which one \<open>range\<close> over the Go map
  visits them; a nil struct has no fields.
\<close>

datatype pb_value =
    UnsetValue
  | NullValue
  | NumberValue nat
  | StringValue string
  | BoolValue bool
  | StructValue "(string \<times> pb_value) list"
  | ListValue "pb_value list"

type_synonym pb_struct = "(string \<times> pb_value) list"

record relationship_condition =
  cond_name :: string
  cond_context :: "pb_struct option"

record tuple_key =
  tk_object :: string
  tk_relation :: string
  tk_user :: string
  tk_condition :: "relationship_condition option"

record object_relation =
  or_object :: string
  or_relation :: string

datatype user_proto =
    User_Object string string
  | User_Userset string string string
  | User_Wildcard string
  | User_Unset

datatype user_type = User | UserSet

definition Wildcard :: string where
  "Wildcard = ''*''"

text \<open>\<open>GetCondition().GetName()\<close> and \<open>GetCondition().GetContext()\<close>, nil-safe.\<close>

definition get_cond_name :: "tuple_key \<Rightarrow> string" where
  "get_cond_name tk = (case tk_condition tk of None \<Rightarrow> [] | Some c \<Rightarrow> cond_name c)"

definition get_cond_context :: "tuple_key \<Rightarrow> pb_struct option" where
  "get_cond_context tk = (case tk_condition tk of None \<Rightarrow> None | Some c \<Rightarrow> cond_context c)"

section \<open>Constructors\<close>

definition NewTupleKey :: "string \<Rightarrow> string \<Rightarrow> string \<Rightarrow> tuple_key" where
  "NewTupleKey object relation user =
     \<lparr>tk_object = object, tk_relation = relation, tk_user = user, tk_condition = None\<rparr>"

definition NewRelationshipCondition ::
  "string \<Rightarrow> pb_struct option \<Rightarrow> relationship_condition option" where
  "NewRelationshipCondition name context =
     (if name = [] then None
      else if context = None then Some \<lparr>cond_name = name, cond_context = Some []\<rparr>
      else Some \<lparr>cond_name = name, cond_context = context\<rparr>)"

definition NewTupleKeyWithCondition ::
  "string \<Rightarrow> string \<Rightarrow> string \<Rightarrow> string \<Rightarrow> pb_struct option \<Rightarrow> tuple_key" where
  "NewTupleKeyWithCondition object relation user conditionName context =
     \<lparr>tk_object = object, tk_relation = relation, tk_user = user,
      tk_condition = NewRelationshipCondition conditionName context\<rparr>"

text \<open>
  A \<open>TupleKeyWithoutCondition\<close> is a tuple key whose condition is nil; converting to it drops
  the condition.
\<close>

definition TupleKeyToTupleKeyWithoutCondition :: "tuple_key \<Rightarrow> tuple_key" where
  "TupleKeyToTupleKeyWithoutCondition tk = NewTupleKey (tk_object tk) (tk_relation tk) (tk_user tk)"

definition TupleKeyWithoutConditionToTupleKey :: "tuple_key \<Rightarrow> tuple_key" where
  "TupleKeyWithoutConditionToTupleKey tk = NewTupleKey (tk_object tk) (tk_relation tk) (tk_user tk)"

definition TupleKeysWithoutConditionToTupleKeys :: "tuple_key list \<Rightarrow> tuple_key list" where
  "TupleKeysWithoutConditionToTupleKeys tks = map TupleKeyWithoutConditionToTupleKey tks"

section \<open>Comparing tuple keys\<close>

text \<open>\<open>TupleKeys.Less\<close>, on the two keys it compares.\<close>

definition TupleKeys_Less :: "tuple_key \<Rightarrow> tuple_key \<Rightarrow> bool" where
  "TupleKeys_Less a b =
     (if tk_object a \<noteq> tk_object b then tk_object a < tk_object b
      else if tk_relation a \<noteq> tk_relation b then tk_relation a < tk_relation b
      else if tk_user a \<noteq> tk_user b then tk_user a < tk_user b
      else if (tk_condition a \<noteq> None \<or> tk_condition b \<noteq> None) \<and> get_cond_name a \<noteq> get_cond_name b
        then get_cond_name a < get_cond_name b
      else True)"

section \<open>Splitting and building\<close>

definition SplitObject :: "string \<Rightarrow> string \<times> string" where
  "SplitObject object =
     (let ndx = IndexByte object (CHR '':'')
      in if ndx = -1 then ([], object) else (take (nat ndx) object, drop (nat ndx + 1) object))"

definition BuildObject :: "string \<Rightarrow> string \<Rightarrow> string" where
  "BuildObject objectType objectID = objectType @ '':'' @ objectID"

definition ObjectKey :: "string \<times> string \<Rightarrow> string" where
  "ObjectKey obj = BuildObject (fst obj) (snd obj)"

definition GetObjectRelationAsString :: "object_relation \<Rightarrow> string" where
  "GetObjectRelationAsString r =
     (if or_relation r \<noteq> [] then or_object r @ ''#'' @ or_relation r else or_object r)"

definition SplitObjectRelation :: "string \<Rightarrow> string \<times> string" where
  "SplitObjectRelation objectRelation =
     (let i = LastIndexByte objectRelation (CHR ''#'')
      in if i = -1 then (objectRelation, [])
         else if i = int (length objectRelation) - 1 then (take (nat i) objectRelation, [])
         else (take (nat i) objectRelation, drop (nat i + 1) objectRelation))"

definition GetType :: "string \<Rightarrow> string" where
  "GetType objectID = fst (SplitObject objectID)"

definition GetRelation :: "string \<Rightarrow> string" where
  "GetRelation objectRelation = snd (SplitObjectRelation objectRelation)"

definition ToObjectRelationString :: "string \<Rightarrow> string \<Rightarrow> string" where
  "ToObjectRelationString object relation = object @ ''#'' @ relation"

definition ToUserParts :: "string \<Rightarrow> string \<times> string \<times> string" where
  "ToUserParts user =
     (let (userObject, userRelation) = SplitObjectRelation user;
          (userObjectType, userObjectID) = SplitObject userObject
      in (userObjectType, userObjectID, userRelation))"

definition ToUserPartsFromObjectRelation :: "object_relation \<Rightarrow> string \<times> string \<times> string" where
  "ToUserPartsFromObjectRelation u =
     (let (userObjectType, userObjectID) = SplitObject (or_object u)
      in (userObjectType, userObjectID, or_relation u))"

text \<open>
  \<open>FromUserParts\<close> copies its parts into a buffer of two bytes more than their lengths: a colon
  goes in after a non-empty type (the buffer is always longer than the type), a \<open>#\<close> before a
  non-empty relation.
\<close>

definition FromUserParts :: "string \<Rightarrow> string \<Rightarrow> string \<Rightarrow> string" where
  "FromUserParts userObjectType userObjectID userRelation =
     (let size = length userObjectType + length userObjectID + length userRelation + 2;
          buf = userObjectType;
          buf = (if length buf > 0 \<and> size > length buf then buf @ '':'' else buf);
          buf = buf @ userObjectID
      in if length userRelation > 0 then buf @ ''#'' @ userRelation else buf)"

text \<open>
  \<open>UserProtoToString\<close> panics (\<open>None\<close>) on a user with no case set; \<open>StringToUserProto\<close> is called
  its opposite.
\<close>

fun UserProtoToString :: "user_proto \<Rightarrow> string option" where
  "UserProtoToString (User_Wildcard t) = Some (t @ '':*'')"
| "UserProtoToString (User_Userset t i r) = Some (t @ '':'' @ i @ ''#'' @ r)"
| "UserProtoToString (User_Object t i) = Some (t @ '':'' @ i)"
| "UserProtoToString User_Unset = None"

definition StringToUserProto :: "string \<Rightarrow> user_proto" where
  "StringToUserProto userKey =
     (let (userObj, userRel) = SplitObjectRelation userKey;
          (userObjType, userObjID) = SplitObject userObj
      in if userRel = [] \<and> userObjID = ''*'' then User_Wildcard userObjType
         else if userRel = [] then User_Object userObjType userObjID
         else User_Userset userObjType userObjID userRel)"

section \<open>Validity predicates\<close>

abbreviation rune_of :: "char \<Rightarrow> nat" where
  "rune_of \<equiv> of_char"

text \<open>
  The loops of \<open>IsValidObject\<close>, \<open>IsValidRelation\<close>, \<open>IsValidUserID\<close> and \<open>IsValidUserset\<close>, over the
  pairs (offset, rune) of a \<open>range\<close>, with their counters as arguments.
\<close>

fun IsValidObject_loop :: "(nat \<times> nat) list \<Rightarrow> nat \<Rightarrow> nat \<Rightarrow> bool" where
  "IsValidObject_loop [] state idLen = (idLen > 0)"
| "IsValidObject_loop ((ndx, chr) # rest) state idLen =
     (if IsControl chr then False
      else if chr = rune_of (CHR ''#'') \<or> chr = rune_of (CHR '' '') then False
      else if chr = rune_of (CHR '':'') then
        (if state > 0 \<or> ndx = 0 then False else IsValidObject_loop rest 1 idLen)
      else IsValidObject_loop rest state (idLen + state))"

definition IsValidObject :: "string \<Rightarrow> bool" where
  "IsValidObject s = IsValidObject_loop (go_range s) 0 0"

fun IsValidRelation_loop :: "(nat \<times> nat) list \<Rightarrow> nat \<Rightarrow> bool" where
  "IsValidRelation_loop [] count = (count > 0)"
| "IsValidRelation_loop ((_, chr) # rest) count =
     (if IsControl chr then False
      else if chr = rune_of (CHR ''#'') \<or> chr = rune_of (CHR '':'') \<or>
              chr = rune_of (CHR ''@'') \<or> chr = rune_of (CHR '' '') then False
      else IsValidRelation_loop rest (count + 1))"

definition IsValidRelation :: "string \<Rightarrow> bool" where
  "IsValidRelation s = IsValidRelation_loop (go_range s) 0"

fun IsValidUserID_loop :: "(nat \<times> nat) list \<Rightarrow> nat \<Rightarrow> bool" where
  "IsValidUserID_loop [] count = (count > 0)"
| "IsValidUserID_loop ((_, chr) # rest) count =
     (if IsControl chr then False
      else if chr = rune_of (CHR ''#'') \<or> chr = rune_of (CHR '':'') \<or> chr = rune_of (CHR '' '') then False
      else IsValidUserID_loop rest (count + 1))"

definition IsValidUserID :: "string \<Rightarrow> bool" where
  "IsValidUserID s = IsValidUserID_loop (go_range s) 0"

fun IsValidUserset_loop :: "(nat \<times> nat) list \<Rightarrow> nat \<Rightarrow> nat \<Rightarrow> nat \<Rightarrow> bool" where
  "IsValidUserset_loop [] state idLen relLen = (relLen > 0)"
| "IsValidUserset_loop ((ndx, chr) # rest) state idLen relLen =
     (if IsControl chr then False
      else if chr = rune_of (CHR '':'') then
        (if state > 0 \<or> ndx = 0 then False else IsValidUserset_loop rest 1 idLen relLen)
      else if chr = rune_of (CHR ''#'') then
        (if state > 1 \<or> idLen = 0 then False else IsValidUserset_loop rest 2 idLen relLen)
      else if chr = rune_of (CHR '' '') then False
      else if chr = rune_of (CHR ''*'') then
        (if state > 0 then False else IsValidUserset_loop rest state idLen relLen)
      else if state = 1 then IsValidUserset_loop rest state (idLen + 1) relLen
      else if state = 2 then IsValidUserset_loop rest state idLen (relLen + 1)
      else IsValidUserset_loop rest state idLen relLen)"

definition IsValidUserset :: "string \<Rightarrow> bool" where
  "IsValidUserset s = IsValidUserset_loop (go_range s) 0 0 0"

definition IsObjectRelation :: "string \<Rightarrow> bool" where
  "IsObjectRelation userset = IsValidUserset userset"

definition IsValidUser :: "string \<Rightarrow> bool" where
  "IsValidUser user \<longleftrightarrow>
     user = Wildcard \<or> IsValidUserID user \<or> IsValidObject user \<or> IsValidUserset user"

definition IsTypedWildcard :: "string \<Rightarrow> bool" where
  "IsTypedWildcard s = (let (t, id) = SplitObject s in t \<noteq> [] \<and> id = Wildcard)"

definition IsWildcard :: "string \<Rightarrow> bool" where
  "IsWildcard s \<longleftrightarrow> s = Wildcard \<or> IsTypedWildcard s"

definition TypedPublicWildcard :: "string \<Rightarrow> string" where
  "TypedPublicWildcard objectType = BuildObject objectType Wildcard"

definition GetUserTypeFromUser :: "string \<Rightarrow> user_type" where
  "GetUserTypeFromUser user = (if IsObjectRelation user \<or> IsWildcard user then UserSet else User)"

definition IsSelfDefining :: "tuple_key \<Rightarrow> bool" where
  "IsSelfDefining tuple =
     (let (userObject, userRelation) = SplitObjectRelation (tk_user tuple)
      in tk_relation tuple = userRelation \<and> tk_object tuple = userObject)"

definition UsersetMatchTypeAndRelation :: "string \<Rightarrow> string \<Rightarrow> string \<Rightarrow> bool" where
  "UsersetMatchTypeAndRelation userset relation typee =
     (let (userObjectType, _, userRelation) = ToUserParts userset
      in relation = userRelation \<and> typee = userObjectType)"

section \<open>String forms of tuples\<close>

definition TupleKeyToString :: "tuple_key \<Rightarrow> string" where
  "TupleKeyToString tk = tk_object tk @ ''#'' @ tk_relation tk @ ''@'' @ tk_user tk"

definition TupleKeyWithConditionToString :: "tuple_key \<Rightarrow> string" where
  "TupleKeyWithConditionToString tk =
     tk_object tk @ ''#'' @ tk_relation tk @ ''@'' @ tk_user tk @
     (case tk_condition tk of None \<Rightarrow> [] | Some c \<Rightarrow> '' (condition '' @ cond_name c @ '')'')"

datatype parse_error =
    MissingHash
  | InvalidObjectFormat
  | MissingAt
  | InvalidRelationFormat
  | InvalidUserFormat

definition ParseTupleString :: "string \<Rightarrow> (parse_error, tuple_key) result" where
  "ParseTupleString s =
     (let (object, rhs, found) = Cut s (CHR ''#'') in
      if \<not> found then Inl MissingHash
      else if \<not> IsValidObject object then Inl InvalidObjectFormat
      else
       (let (relation, user, found) = Cut rhs (CHR ''@'') in
        if \<not> found then Inl MissingAt
        else if \<not> IsValidRelation relation then Inl InvalidRelationFormat
        else if \<not> IsValidUser user then Inl InvalidUserFormat
        else Inr (NewTupleKey object relation user)))"

text \<open>\<open>MustParseTupleString\<close> panics where the parse fails: \<open>None\<close>.\<close>

definition MustParseTupleString :: "string \<Rightarrow> tuple_key option" where
  "MustParseTupleString s = (case ParseTupleString s of Inl _ \<Rightarrow> None | Inr t \<Rightarrow> Some t)"

fun MustParseTupleStrings :: "string list \<Rightarrow> tuple_key list option" where
  "MustParseTupleStrings [] = Some []"
| "MustParseTupleStrings (s # ss) =
     (case MustParseTupleString s of None \<Rightarrow> None
      | Some t \<Rightarrow> map_option (\<lambda>ts. t # ts) (MustParseTupleStrings ss))"

text \<open>
  The users whose string form determines them: the type has no colon, the relation is not empty
  and has no \<open>#\<close>, an object is not a wildcard and has no \<open>#\<close>.
\<close>

fun wf_user_proto :: "user_proto \<Rightarrow> bool" where
  "wf_user_proto (User_Object t i) \<longleftrightarrow>
     CHR '':'' \<notin> set t \<and> CHR ''#'' \<notin> set t \<and> CHR ''#'' \<notin> set i \<and> i \<noteq> ''*''"
| "wf_user_proto (User_Userset t i r) \<longleftrightarrow> CHR '':'' \<notin> set t \<and> CHR ''#'' \<notin> set r \<and> r \<noteq> []"
| "wf_user_proto (User_Wildcard t) \<longleftrightarrow> CHR '':'' \<notin> set t \<and> CHR ''#'' \<notin> set t"
| "wf_user_proto User_Unset \<longleftrightarrow> False"

text \<open>
  A string is free of a set of characters when it has none of them and no control rune.
\<close>

definition free_of :: "string \<Rightarrow> string \<Rightarrow> bool" where
  "free_of bad s \<longleftrightarrow> \<not> ContainsForbiddenChars s \<and> (\<forall>c \<in> set bad. c \<notin> set s)"

text \<open>The same on the runes a loop visits.\<close>

definition runes_free_of :: "string \<Rightarrow> (nat \<times> nat) list \<Rightarrow> bool" where
  "runes_free_of bad xs \<longleftrightarrow>
     (\<forall>r \<in> snd ` set xs. \<not> IsControl r \<and> (\<forall>c \<in> set bad. r \<noteq> rune_of c))"

section \<open>Splitting and joining\<close>

lemma SplitObject_BuildObject [simp]:
  "CHR '':'' \<notin> set t \<Longrightarrow> SplitObject (BuildObject t i) = (t, i)"
  by (simp add: SplitObject_def BuildObject_def IndexByte_append)

lemma SplitObject_no_colon: "CHR '':'' \<notin> set s \<Longrightarrow> SplitObject s = ([], s)"
  by (simp add: SplitObject_def IndexByte_not_in)

lemma SplitObject_colon:
  assumes "CHR '':'' \<in> set s"
  shows "SplitObject s = (t, i) \<longleftrightarrow> s = BuildObject t i \<and> CHR '':'' \<notin> set t"
proof -
  from assms obtain t' i' where s: "s = t' @ CHR '':'' # i'" and t': "CHR '':'' \<notin> set t'"
    by (rule split_first_byte)
  then have split: "SplitObject s = (t', i')"
    using SplitObject_BuildObject [of t' i'] by (simp add: BuildObject_def)
  show ?thesis
  proof
    assume "SplitObject s = (t, i)"
    with split s t' show "s = BuildObject t i \<and> CHR '':'' \<notin> set t" by (simp add: BuildObject_def)
  next
    assume "s = BuildObject t i \<and> CHR '':'' \<notin> set t"
    then show "SplitObject s = (t, i)" by simp
  qed
qed

lemma SplitObjectRelation_ToObjectRelationString [simp]:
  "CHR ''#'' \<notin> set r \<Longrightarrow> SplitObjectRelation (ToObjectRelationString o' r) = (o', r)"
  by (cases r) (auto simp: SplitObjectRelation_def ToObjectRelationString_def LastIndexByte_append)

lemma SplitObjectRelation_no_hash: "CHR ''#'' \<notin> set s \<Longrightarrow> SplitObjectRelation s = (s, [])"
  by (simp add: SplitObjectRelation_def LastIndexByte_neg_iff)

lemma SplitObjectRelation_hash:
  assumes "CHR ''#'' \<in> set s"
  shows "SplitObjectRelation s = (o', r) \<longleftrightarrow>
    s = ToObjectRelationString o' r \<and> CHR ''#'' \<notin> set r"
proof -
  from assms obtain a b where s: "s = a @ CHR ''#'' # b" and b: "CHR ''#'' \<notin> set b"
    by (rule split_last_byte)
  then have split: "SplitObjectRelation s = (a, b)"
    using SplitObjectRelation_ToObjectRelationString [of b a]
    by (simp add: ToObjectRelationString_def)
  show ?thesis
  proof
    assume "SplitObjectRelation s = (o', r)"
    with split s b show "s = ToObjectRelationString o' r \<and> CHR ''#'' \<notin> set r"
      by (simp add: ToObjectRelationString_def)
  next
    assume "s = ToObjectRelationString o' r \<and> CHR ''#'' \<notin> set r"
    then show "SplitObjectRelation s = (o', r)" by simp
  qed
qed

lemma GetType_BuildObject [simp]: "CHR '':'' \<notin> set t \<Longrightarrow> GetType (BuildObject t i) = t"
  by (simp add: GetType_def)

lemma GetRelation_ToObjectRelationString [simp]:
  "CHR ''#'' \<notin> set r \<Longrightarrow> GetRelation (ToObjectRelationString o' r) = r"
  by (simp add: GetRelation_def)

section \<open>What the validity predicates accept\<close>

lemma runes_free_of_range:
  assumes "\<forall>c \<in> set bad. byte_val c < 128"
  shows "runes_free_of bad (range_from i s) \<longleftrightarrow> free_of bad s"
proof -
  have "snd ` set (range_from i s) = set (runes s)"
    by (simp flip: map_snd_range_from [of i s])
  then show ?thesis
    using assms by (auto simp: runes_free_of_def free_of_def ContainsForbiddenChars_def
        simp flip: ascii_rune_iff)
qed

lemma range_from_eq_Nil_iff [simp]: "range_from i s = [] \<longleftrightarrow> s = []"
  by (simp add: range_from.simps [of i s])

lemma runes_free_of_simps [simp]:
  "runes_free_of bad []"
  "runes_free_of bad (x # xs) \<longleftrightarrow>
     \<not> IsControl (snd x) \<and> (\<forall>c \<in> set bad. snd x \<noteq> rune_of c) \<and> runes_free_of bad xs"
  "runes_free_of bad (xs @ ys) \<longleftrightarrow> runes_free_of bad xs \<and> runes_free_of bad ys"
  by (auto simp: runes_free_of_def)

lemma IsValidObject_loop_1:
  "IsValidObject_loop xs (Suc 0) n \<longleftrightarrow> runes_free_of ''#: '' xs \<and> 0 < n + length xs"
proof (induction xs arbitrary: n)
  case (Cons x xs)
  then show ?case by (cases x) auto
qed simp

lemma IsValidObject_loop_0:
  assumes "\<forall>x \<in> set xs. snd x \<noteq> rune_of (CHR '':'')"
  shows "IsValidObject_loop (xs @ (k, rune_of (CHR '':'')) # ys) 0 n \<longleftrightarrow>
     runes_free_of ''#: '' xs \<and> k \<noteq> 0 \<and> IsValidObject_loop ys (Suc 0) n"
  using assms
proof (induction xs)
  case Nil
  then show ?case by (simp add: IsControl_def)
next
  case (Cons x xs)
  then show ?case by (cases x) auto
qed

lemma IsValidObject_loop_no_colon:
  assumes "\<forall>x \<in> set xs. snd x \<noteq> rune_of (CHR '':'')"
  shows "\<not> IsValidObject_loop xs 0 0"
  using assms
proof (induction xs)
  case (Cons x xs)
  then show ?case by (cases x) auto
qed simp

lemma no_byte_in_range:
  assumes "byte_val c < 128" and "c \<notin> set s"
  shows "\<forall>x \<in> set (range_from i s). snd x \<noteq> byte_val c"
proof -
  have "byte_val c \<notin> set (map snd (range_from i s))"
    using assms by (simp only: map_snd_range_from) (simp add: ascii_rune_iff)
  then show ?thesis by force
qed

lemma IsValidObject_split:
  assumes "CHR '':'' \<notin> set t"
  shows "IsValidObject (BuildObject t i) \<longleftrightarrow>
    t \<noteq> [] \<and> i \<noteq> [] \<and> free_of ''#: '' t \<and> free_of ''#: '' i"
proof -
  have range: "go_range (BuildObject t i) =
      range_from 0 t @ (length t, rune_of (CHR '':'')) # range_from (length t + 1) i"
    using range_from_append_ascii [of "CHR '':''" 0 t i] by (simp add: go_range_def BuildObject_def)
  show ?thesis
    unfolding IsValidObject_def range
    using no_byte_in_range [of "CHR '':''" t 0] assms
    by (subst IsValidObject_loop_0) (auto simp: IsValidObject_loop_1 runes_free_of_range)
qed

lemma IsValidObject_has_colon: "IsValidObject s \<Longrightarrow> CHR '':'' \<in> set s"
  using IsValidObject_loop_no_colon [of "go_range s"] no_byte_in_range [of "CHR '':''" s 0]
  by (auto simp: IsValidObject_def go_range_def)

lemma IsValidObject_iff:
  "IsValidObject s \<longleftrightarrow> (\<exists>t i. s = BuildObject t i \<and> t \<noteq> [] \<and> i \<noteq> [] \<and>
     free_of ''#: '' t \<and> free_of ''#: '' i)"
proof
  assume valid: "IsValidObject s"
  then have "CHR '':'' \<in> set s" by (rule IsValidObject_has_colon)
  then obtain t i where s: "s = t @ CHR '':'' # i" and t: "CHR '':'' \<notin> set t"
    by (rule split_first_byte)
  from s have "s = BuildObject t i" by (simp add: BuildObject_def)
  with valid t show "\<exists>t i. s = BuildObject t i \<and> t \<noteq> [] \<and> i \<noteq> [] \<and>
      free_of ''#: '' t \<and> free_of ''#: '' i"
    using IsValidObject_split by blast
next
  assume "\<exists>t i. s = BuildObject t i \<and> t \<noteq> [] \<and> i \<noteq> [] \<and>
     free_of ''#: '' t \<and> free_of ''#: '' i"
  then show "IsValidObject s"
    by (auto simp: IsValidObject_split free_of_def)
qed

lemma IsValidRelation_iff: "IsValidRelation s \<longleftrightarrow> s \<noteq> [] \<and> free_of ''#:@ '' s"
proof -
  have "IsValidRelation_loop xs n \<longleftrightarrow> runes_free_of ''#:@ '' xs \<and> 0 < n + length xs" for xs n
  proof (induction xs arbitrary: n)
    case (Cons x xs)
    then show ?case by (cases x) auto
  qed simp
  then show ?thesis by (auto simp: IsValidRelation_def go_range_def runes_free_of_range)
qed

lemma IsValidUserID_iff: "IsValidUserID s \<longleftrightarrow> s \<noteq> [] \<and> free_of ''#: '' s"
proof -
  have "IsValidUserID_loop xs n \<longleftrightarrow> runes_free_of ''#: '' xs \<and> 0 < n + length xs" for xs n
  proof (induction xs arbitrary: n)
    case (Cons x xs)
    then show ?case by (cases x) auto
  qed simp
  then show ?thesis by (auto simp: IsValidUserID_def go_range_def runes_free_of_range)
qed

text \<open>
  The automaton of \<open>IsValidUserset\<close>, state by state from the last to the first: the relation
  (state 2), the id (state 1), the type (state 0).
\<close>

lemma IsValidUserset_loop_2:
  "IsValidUserset_loop xs 2 m n \<longleftrightarrow> runes_free_of ''#: *'' xs \<and> 0 < n + length xs"
proof (induction xs arbitrary: n)
  case (Cons x xs)
  then show ?case by (cases x) auto
qed simp

lemma IsValidUserset_loop_1:
  assumes "\<forall>x \<in> set xs. snd x \<noteq> rune_of (CHR ''#'')"
  shows "IsValidUserset_loop (xs @ (k, rune_of (CHR ''#'')) # ys) (Suc 0) m n \<longleftrightarrow>
     runes_free_of ''#: *'' xs \<and> 0 < m + length xs \<and> IsValidUserset_loop ys 2 (m + length xs) n"
  using assms
proof (induction xs arbitrary: m)
  case Nil
  then show ?case by (simp add: IsControl_def)
next
  case (Cons x xs)
  then show ?case by (cases x) auto
qed

lemma IsValidUserset_loop_1_no_hash:
  assumes "\<forall>x \<in> set xs. snd x \<noteq> rune_of (CHR ''#'')"
  shows "\<not> IsValidUserset_loop xs (Suc 0) m 0"
  using assms
proof (induction xs arbitrary: m)
  case (Cons x xs)
  then show ?case by (cases x) auto
qed simp

lemma IsValidUserset_loop_0:
  assumes "\<forall>x \<in> set xs. snd x \<noteq> rune_of (CHR '':'')"
  shows "IsValidUserset_loop (xs @ (k, rune_of (CHR '':'')) # ys) 0 0 0 \<longleftrightarrow>
     runes_free_of ''#: '' xs \<and> k \<noteq> 0 \<and> IsValidUserset_loop ys (Suc 0) 0 0"
  using assms
proof (induction xs)
  case Nil
  then show ?case by (simp add: IsControl_def)
next
  case (Cons x xs)
  then show ?case by (cases x) auto
qed

lemma IsValidUserset_loop_no_colon:
  assumes "\<forall>x \<in> set xs. snd x \<noteq> rune_of (CHR '':'')"
  shows "\<not> IsValidUserset_loop xs 0 0 0"
  using assms
proof (induction xs)
  case (Cons x xs)
  then show ?case by (cases x) auto
qed simp

lemma IsValidUserset_split:
  assumes "CHR '':'' \<notin> set t"
  shows "IsValidUserset (BuildObject t rest) \<longleftrightarrow>
    t \<noteq> [] \<and> free_of ''#: '' t \<and>
    (\<exists>i r. rest = ToObjectRelationString i r \<and> i \<noteq> [] \<and> r \<noteq> [] \<and>
       free_of ''#: *'' i \<and> free_of ''#: *'' r)"
proof -
  have range: "go_range (BuildObject t rest) =
      range_from 0 t @ (length t, rune_of (CHR '':'')) # range_from (length t + 1) rest"
    using range_from_append_ascii [of "CHR '':''" 0 t rest]
    by (simp add: go_range_def BuildObject_def)
  have "IsValidUserset (BuildObject t rest) \<longleftrightarrow>
      t \<noteq> [] \<and> free_of ''#: '' t \<and> IsValidUserset_loop (range_from (length t + 1) rest) (Suc 0) 0 0"
    unfolding IsValidUserset_def range
    using no_byte_in_range [of "CHR '':''" t 0] assms
    by (subst IsValidUserset_loop_0) (auto simp: runes_free_of_range)
  moreover have "IsValidUserset_loop (range_from k rest) (Suc 0) 0 0 \<longleftrightarrow>
      (\<exists>i r. rest = ToObjectRelationString i r \<and> i \<noteq> [] \<and> r \<noteq> [] \<and>
         free_of ''#: *'' i \<and> free_of ''#: *'' r)" (is "?lhs \<longleftrightarrow> ?rhs") for k
  proof (cases "CHR ''#'' \<in> set rest")
    case True
    then obtain i r where rest: "rest = i @ CHR ''#'' # r" and i: "CHR ''#'' \<notin> set i"
      by (rule split_first_byte)
    have nohash: "\<forall>x \<in> set (range_from k i). snd x \<noteq> rune_of (CHR ''#'')"
      using i by (intro no_byte_in_range) simp_all
    have split: "range_from k rest =
        range_from k i @ (k + length i, rune_of (CHR ''#'')) # range_from (k + length i + 1) r"
      unfolding rest by (rule range_from_append_ascii) simp
    have "?lhs \<longleftrightarrow> i \<noteq> [] \<and> r \<noteq> [] \<and> free_of ''#: *'' i \<and> free_of ''#: *'' r"
      unfolding split IsValidUserset_loop_1 [OF nohash] IsValidUserset_loop_2
      by (auto simp: runes_free_of_range)
    also have "\<dots> \<longleftrightarrow> ?rhs"
    proof
      assume "i \<noteq> [] \<and> r \<noteq> [] \<and> free_of ''#: *'' i \<and> free_of ''#: *'' r"
      then show ?rhs by (auto simp: rest ToObjectRelationString_def)
    next
      assume ?rhs
      then obtain i' r' where eq: "rest = i' @ CHR ''#'' # r'" and ne: "i' \<noteq> []" "r' \<noteq> []"
        and free: "free_of ''#: *'' i'" "free_of ''#: *'' r'"
        by (auto simp: ToObjectRelationString_def)
      from free have "CHR ''#'' \<notin> set i'" by (simp add: free_of_def)
      then have "Cut rest (CHR ''#'') = (i', r', True)" unfolding eq by (rule Cut_append)
      moreover have "Cut rest (CHR ''#'') = (i, r, True)" unfolding rest using i by (rule Cut_append)
      ultimately show "i \<noteq> [] \<and> r \<noteq> [] \<and> free_of ''#: *'' i \<and> free_of ''#: *'' r"
        using ne free by simp
    qed
    finally show ?thesis .
  next
    case False
    then show ?thesis
      using IsValidUserset_loop_1_no_hash [of "range_from k rest" 0]
        no_byte_in_range [of "CHR ''#''" rest k]
      by (auto simp: ToObjectRelationString_def)
  qed
  ultimately show ?thesis by simp
qed

lemma IsValidUserset_has_colon: "IsValidUserset s \<Longrightarrow> CHR '':'' \<in> set s"
  using IsValidUserset_loop_no_colon [of "go_range s"] no_byte_in_range [of "CHR '':''" s 0]
  by (auto simp: IsValidUserset_def go_range_def)

lemma IsValidUserset_iff:
  "IsValidUserset s \<longleftrightarrow> (\<exists>t i r. s = BuildObject t (ToObjectRelationString i r) \<and>
     t \<noteq> [] \<and> i \<noteq> [] \<and> r \<noteq> [] \<and>
     free_of ''#: '' t \<and> free_of ''#: *'' i \<and> free_of ''#: *'' r)"
proof
  assume valid: "IsValidUserset s"
  then have "CHR '':'' \<in> set s" by (rule IsValidUserset_has_colon)
  then obtain t rest where "s = t @ CHR '':'' # rest" and t: "CHR '':'' \<notin> set t"
    by (rule split_first_byte)
  then have "s = BuildObject t rest" by (simp add: BuildObject_def)
  with valid t IsValidUserset_split [OF t, of rest] show
    "\<exists>t i r. s = BuildObject t (ToObjectRelationString i r) \<and> t \<noteq> [] \<and> i \<noteq> [] \<and> r \<noteq> [] \<and>
       free_of ''#: '' t \<and> free_of ''#: *'' i \<and> free_of ''#: *'' r" by blast
next
  assume "\<exists>t i r. s = BuildObject t (ToObjectRelationString i r) \<and> t \<noteq> [] \<and> i \<noteq> [] \<and> r \<noteq> [] \<and>
     free_of ''#: '' t \<and> free_of ''#: *'' i \<and> free_of ''#: *'' r"
  then obtain t i r where s: "s = BuildObject t (ToObjectRelationString i r)"
    and parts: "t \<noteq> []" "i \<noteq> []" "r \<noteq> []" "free_of ''#: '' t"
      "free_of ''#: *'' i" "free_of ''#: *'' r" by blast
  then have "CHR '':'' \<notin> set t" by (simp add: free_of_def)
  from IsValidUserset_split [OF this, of "ToObjectRelationString i r"] parts
  show "IsValidUserset s" unfolding s by blast
qed

text \<open>The parts of a valid userset, as the two split functions of the code return them.\<close>

lemma split_userset [simp]:
  assumes "CHR '':'' \<notin> set t" and "CHR ''#'' \<notin> set r"
  shows "SplitObjectRelation (BuildObject t (ToObjectRelationString i r)) = (BuildObject t i, r)"
proof -
  have "BuildObject t (ToObjectRelationString i r) = ToObjectRelationString (BuildObject t i) r"
    by (simp add: BuildObject_def ToObjectRelationString_def)
  with assms show ?thesis by simp
qed

lemma free_of_no_hash_colon:
  "free_of ''#: '' s \<Longrightarrow> CHR ''#'' \<notin> set s \<and> CHR '':'' \<notin> set s"
  "free_of ''#: *'' s \<Longrightarrow> CHR ''#'' \<notin> set s \<and> CHR '':'' \<notin> set s"
  by (simp_all add: free_of_def)

lemma valid_object_no_hash: "IsValidObject s \<Longrightarrow> CHR ''#'' \<notin> set s"
  by (auto simp: IsValidObject_iff BuildObject_def free_of_def)

lemma valid_userset_has_hash: "IsValidUserset s \<Longrightarrow> CHR ''#'' \<in> set s"
  by (auto simp: IsValidUserset_iff ToObjectRelationString_def BuildObject_def)

lemma valid_user_id_no_hash_colon:
  "IsValidUserID s \<Longrightarrow> CHR ''#'' \<notin> set s \<and> CHR '':'' \<notin> set s"
  by (auto simp: IsValidUserID_iff free_of_def)

lemma IsValidUserID_Wildcard: "IsValidUserID Wildcard"
  by (simp add: IsValidUserID_def Wildcard_def go_range_def IsControl_def)

text \<open>
  The three cases of a valid user: an id with no type, an object, a userset (the untyped
  wildcard is an id).
\<close>

lemma valid_user_cases [consumes 1, case_names UserID Object Userset]:
  assumes "IsValidUser s"
  obtains "IsValidUserID s" "CHR '':'' \<notin> set s" "CHR ''#'' \<notin> set s"
  | t i where "IsValidObject s" "s = BuildObject t i" "t \<noteq> []" "i \<noteq> []"
      "CHR '':'' \<notin> set t" "CHR ''#'' \<notin> set t" "CHR ''#'' \<notin> set i"
  | t i r where "IsValidUserset s" "s = BuildObject t (ToObjectRelationString i r)"
      "t \<noteq> []" "i \<noteq> []" "r \<noteq> []" "CHR '':'' \<notin> set t" "CHR ''#'' \<notin> set r"
      "CHR ''*'' \<notin> set i"
proof -
  from assms consider "IsValidUserID s" | "IsValidObject s" | "IsValidUserset s"
    unfolding IsValidUser_def using IsValidUserID_Wildcard by blast
  then show thesis
  proof cases
    case 1
    with that(1) valid_user_id_no_hash_colon show ?thesis by blast
  next
    case 2
    then obtain t i where "s = BuildObject t i" "t \<noteq> []" "i \<noteq> []"
      "free_of ''#: '' t" "free_of ''#: '' i" by (auto simp: IsValidObject_iff)
    with 2 that(2) free_of_no_hash_colon(1) show ?thesis by blast
  next
    case 3
    then obtain t i r where s: "s = BuildObject t (ToObjectRelationString i r)"
      "t \<noteq> []" "i \<noteq> []" "r \<noteq> []" and free: "free_of ''#: '' t" "free_of ''#: *'' i" "free_of ''#: *'' r"
      by (auto simp: IsValidUserset_iff)
    from free have "CHR '':'' \<notin> set t" "CHR ''#'' \<notin> set r" "CHR ''*'' \<notin> set i"
      by (simp_all add: free_of_def)
    with 3 s that(3) show ?thesis by blast
  qed
qed

section \<open>Properties\<close>

text \<open>
  C29: \<open>IsValidObject\<close> accepts exactly the strings whose \<open>SplitObject\<close> parts are both non-empty
  and free of the characters \<open>#\<close>, \<open>:\<close> and space and of control runes, and then the parts
  build the string again.
\<close>

theorem valid_object_spec:
  "IsValidObject s \<longleftrightarrow>
     (\<exists>t i. SplitObject s = (t, i) \<and> BuildObject t i = s \<and> t \<noteq> [] \<and> i \<noteq> [] \<and>
        free_of ''#: '' t \<and> free_of ''#: '' i)"
proof
  assume "IsValidObject s"
  then obtain t i where "s = BuildObject t i" "t \<noteq> []" "i \<noteq> []"
    "free_of ''#: '' t" "free_of ''#: '' i" by (auto simp: IsValidObject_iff)
  moreover from this have "SplitObject s = (t, i)" using free_of_no_hash_colon(1) by simp
  ultimately show "\<exists>t i. SplitObject s = (t, i) \<and> BuildObject t i = s \<and> t \<noteq> [] \<and> i \<noteq> [] \<and>
        free_of ''#: '' t \<and> free_of ''#: '' i" by blast
next
  assume "\<exists>t i. SplitObject s = (t, i) \<and> BuildObject t i = s \<and> t \<noteq> [] \<and> i \<noteq> [] \<and>
        free_of ''#: '' t \<and> free_of ''#: '' i"
  then show "IsValidObject s" unfolding IsValidObject_iff by metis
qed

text \<open>
  C30: \<open>IsValidUserset\<close> accepts exactly the strings \<open>type:id#relation\<close> whose three parts, as
  \<open>SplitObjectRelation\<close> and \<open>SplitObject\<close> return them, are non-empty, the type free of \<open>#\<close>,
  \<open>:\<close>, space and control runes, the id and the relation free of \<open>*\<close> too.
\<close>

theorem valid_userset_spec:
  "IsValidUserset s \<longleftrightarrow>
     (\<exists>ob r t i. SplitObjectRelation s = (ob, r) \<and> SplitObject ob = (t, i) \<and>
        ToObjectRelationString (BuildObject t i) r = s \<and> t \<noteq> [] \<and> i \<noteq> [] \<and> r \<noteq> [] \<and>
        free_of ''#: '' t \<and> free_of ''#: *'' i \<and> free_of ''#: *'' r)" (is "_ \<longleftrightarrow> ?rhs")
proof
  assume "IsValidUserset s"
  then obtain t i r where s: "s = BuildObject t (ToObjectRelationString i r)"
    "t \<noteq> []" "i \<noteq> []" "r \<noteq> []" and free: "free_of ''#: '' t" "free_of ''#: *'' i" "free_of ''#: *'' r"
    by (auto simp: IsValidUserset_iff)
  from free have "CHR '':'' \<notin> set t" "CHR ''#'' \<notin> set r" by (simp_all add: free_of_def)
  with s have "SplitObjectRelation s = (BuildObject t i, r)" and "SplitObject (BuildObject t i) = (t, i)"
    by simp_all
  moreover have "ToObjectRelationString (BuildObject t i) r = s"
    by (simp add: s ToObjectRelationString_def BuildObject_def)
  ultimately show ?rhs using s(2-4) free by blast
next
  assume ?rhs
  then obtain t i r where "s = ToObjectRelationString (BuildObject t i) r"
    "t \<noteq> []" "i \<noteq> []" "r \<noteq> []" "free_of ''#: '' t" "free_of ''#: *'' i" "free_of ''#: *'' r"
    by blast
  moreover from this have "s = BuildObject t (ToObjectRelationString i r)"
    by (simp add: ToObjectRelationString_def BuildObject_def)
  ultimately show "IsValidUserset s" unfolding IsValidUserset_iff by blast
qed

text \<open>
  The three forms of a valid user exclude each other, and \<open>GetUserTypeFromUser\<close> calls
  \<open>userset\<close> exactly the usersets, the untyped wildcard and the objects whose id is \<open>*\<close>.
\<close>

theorem user_forms:
  "IsValidUser s = (IsValidUserID s \<or> IsValidObject s \<or> IsValidUserset s) \<and>
   \<not> (IsValidUserID s \<and> IsValidObject s) \<and> \<not> (IsValidUserID s \<and> IsValidUserset s) \<and>
   \<not> (IsValidObject s \<and> IsValidUserset s) \<and>
   (IsValidUser s \<and> GetUserTypeFromUser s = UserSet \<longleftrightarrow>
      IsValidUserset s \<or> s = Wildcard \<or> IsValidObject s \<and> snd (SplitObject s) = Wildcard)"
proof -
  have typed: "IsTypedWildcard s \<longleftrightarrow> snd (SplitObject s) = Wildcard" if "IsValidObject s"
    using that unfolding IsValidObject_iff
    by (auto simp: IsTypedWildcard_def free_of_no_hash_colon(1))
  have untyped: "\<not> IsTypedWildcard s" if "IsValidUserID s"
    using valid_user_id_no_hash_colon [OF that] by (simp add: IsTypedWildcard_def SplitObject_no_colon)
  have valid: "IsValidUser s = (IsValidUserID s \<or> IsValidObject s \<or> IsValidUserset s)"
    using IsValidUserID_Wildcard by (auto simp: IsValidUser_def)
  have disj: "\<not> (IsValidUserID s \<and> IsValidObject s)" "\<not> (IsValidUserID s \<and> IsValidUserset s)"
    "\<not> (IsValidObject s \<and> IsValidUserset s)"
    using valid_user_id_no_hash_colon [of s] IsValidObject_has_colon [of s]
      IsValidUserset_has_colon [of s] valid_object_no_hash [of s] valid_userset_has_hash [of s]
    by blast+
  have "IsValidUser s \<and> GetUserTypeFromUser s = UserSet \<longleftrightarrow>
      IsValidUserset s \<or> s = Wildcard \<or> IsValidObject s \<and> snd (SplitObject s) = Wildcard"
    using typed untyped valid disj IsValidUserID_Wildcard
    by (auto simp: GetUserTypeFromUser_def IsObjectRelation_def IsWildcard_def)
  with valid disj show ?thesis by blast
qed

text \<open>
  C28: \<open>ParseTupleString\<close> and \<open>TupleKeyToString\<close> are inverse on well-formed tuples: a string
  parses to a tuple key exactly when the key has no condition, its three parts are valid and
  it prints as the string.
\<close>

theorem parse_tuple_string_iff:
  "ParseTupleString s = Inr tk \<longleftrightarrow>
     s = TupleKeyToString tk \<and> IsValidObject (tk_object tk) \<and>
     IsValidRelation (tk_relation tk) \<and> IsValidUser (tk_user tk) \<and> tk_condition tk = None"
proof
  assume "ParseTupleString s = Inr tk"
  then obtain rhs where "Cut s (CHR ''#'') = (tk_object tk, rhs, True)"
    and "Cut rhs (CHR ''@'') = (tk_relation tk, tk_user tk, True)"
    and "IsValidObject (tk_object tk)" "IsValidRelation (tk_relation tk)" "IsValidUser (tk_user tk)"
      "tk_condition tk = None"
    by (auto simp: ParseTupleString_def NewTupleKey_def split: prod.splits if_splits)
  then show "s = TupleKeyToString tk \<and> IsValidObject (tk_object tk) \<and>
     IsValidRelation (tk_relation tk) \<and> IsValidUser (tk_user tk) \<and> tk_condition tk = None"
    by (simp add: Cut_found TupleKeyToString_def)
next
  assume valid: "s = TupleKeyToString tk \<and> IsValidObject (tk_object tk) \<and>
     IsValidRelation (tk_relation tk) \<and> IsValidUser (tk_user tk) \<and> tk_condition tk = None"
  then have "CHR ''#'' \<notin> set (tk_object tk)" and "CHR ''@'' \<notin> set (tk_relation tk)"
    by (auto simp: valid_object_no_hash IsValidRelation_iff free_of_def)
  with valid show "ParseTupleString s = Inr tk"
    by (simp add: ParseTupleString_def TupleKeyToString_def Cut_append NewTupleKey_def)
qed

text \<open>
  Splitting a valid user into its parts and joining them gives the user back, also for
  users with no type.
\<close>

theorem user_parts_roundtrip:
  assumes "IsValidUser u"
  shows "(case ToUserParts u of (t, i, r) \<Rightarrow> FromUserParts t i r) = u"
  using assms
proof (cases rule: valid_user_cases)
  case UserID
  then show ?thesis
    by (simp add: ToUserParts_def SplitObjectRelation_no_hash SplitObject_no_colon FromUserParts_def)
next
  case (Object t i)
  then have "CHR ''#'' \<notin> set u" by (simp add: BuildObject_def)
  with Object show ?thesis
    by (simp add: ToUserParts_def SplitObjectRelation_no_hash FromUserParts_def BuildObject_def [symmetric])
       (simp add: BuildObject_def)
next
  case (Userset t i r)
  then show ?thesis
    by (simp add: ToUserParts_def FromUserParts_def)
       (simp add: BuildObject_def ToObjectRelationString_def)
qed

theorem user_parts_roundtrip_witness:
  "IsValidUser ''group:fga#member'' \<and>
   (case ToUserParts ''group:fga#member'' of (t, i, r) \<Rightarrow> FromUserParts t i r) = ''group:fga#member''"
proof -
  have h: "IsValidUser ''group:fga#member''" by code_simp
  from h user_parts_roundtrip [OF h] show ?thesis by (rule conjI)
qed

text \<open>
  \<open>StringToUserProto\<close> inverts \<open>UserProtoToString\<close> on every user that its string form can
  determine, and on a valid user string \<open>UserProtoToString\<close> inverts \<open>StringToUserProto\<close> exactly
  when the user has a type: an untyped user comes back with a colon in front.
\<close>

theorem user_proto_roundtrip:
  "(wf_user_proto u \<longrightarrow> map_option StringToUserProto (UserProtoToString u) = Some u) \<and>
   (IsValidUser s \<longrightarrow>
      UserProtoToString (StringToUserProto s) =
        Some (if CHR '':'' \<in> set s then s else '':'' @ s))"
proof (intro conjI impI)
  assume wf: "wf_user_proto u"
  show "map_option StringToUserProto (UserProtoToString u) = Some u"
  proof (cases u)
    case (User_Object t i)
    with wf have "SplitObjectRelation (BuildObject t i) = (BuildObject t i, [])"
      by (simp add: SplitObjectRelation_no_hash BuildObject_def)
    with wf User_Object show ?thesis
      by (simp add: StringToUserProto_def flip: BuildObject_def [of t i, simplified])
  next
    case (User_Userset t i r)
    with wf split_userset [of t r i] SplitObject_BuildObject [of t i] show ?thesis
      by (simp add: StringToUserProto_def BuildObject_def ToObjectRelationString_def)
  next
    case (User_Wildcard t)
    with wf have "SplitObjectRelation (BuildObject t ''*'') = (BuildObject t ''*'', [])"
      by (simp add: SplitObjectRelation_no_hash BuildObject_def)
    with wf User_Wildcard SplitObject_BuildObject [of t "''*''"] show ?thesis
      by (simp add: StringToUserProto_def BuildObject_def)
  qed (use wf in simp)
next
  assume "IsValidUser s"
  then show "UserProtoToString (StringToUserProto s) =
      Some (if CHR '':'' \<in> set s then s else '':'' @ s)"
  proof (cases rule: valid_user_cases)
    case UserID
    then show ?thesis
      by (simp add: StringToUserProto_def SplitObjectRelation_no_hash SplitObject_no_colon)
  next
    case (Object t i)
    then have "CHR ''#'' \<notin> set s" by (simp add: BuildObject_def)
    with Object show ?thesis
      by (simp add: StringToUserProto_def SplitObjectRelation_no_hash) (simp add: BuildObject_def)
  next
    case (Userset t i r)
    then show ?thesis
      by (simp add: StringToUserProto_def) (simp add: BuildObject_def ToObjectRelationString_def)
  qed
qed

theorem user_proto_roundtrip_witness:
  "map_option StringToUserProto (UserProtoToString (User_Userset ''group'' ''fga'' ''member'')) =
     Some (User_Userset ''group'' ''fga'' ''member'') \<and>
   UserProtoToString (StringToUserProto ''anne'') = Some '':anne''"
proof -
  have wf: "wf_user_proto (User_Userset ''group'' ''fga'' ''member'')" by simp
  have valid: "IsValidUser ''anne''" by code_simp
  from wf valid user_proto_roundtrip [of "User_Userset ''group'' ''fga'' ''member''" "''anne''"]
  show ?thesis by simp
qed

text \<open>
  \<open>TupleKeys.Less\<close> is the reflexive lexicographic order on (object, relation, user, condition
  name), not a strict order: it is total and transitive, it holds of equal keys, and both
  directions hold exactly of keys equal up to the context of their conditions.
\<close>

theorem TupleKeys_Less_preorder:
  "TupleKeys_Less a a \<and> (TupleKeys_Less a b \<or> TupleKeys_Less b a) \<and>
   (TupleKeys_Less a b \<and> TupleKeys_Less b c \<longrightarrow> TupleKeys_Less a c) \<and>
   (TupleKeys_Less a b \<and> TupleKeys_Less b a \<longleftrightarrow>
      tk_object a = tk_object b \<and> tk_relation a = tk_relation b \<and> tk_user a = tk_user b \<and>
      get_cond_name a = get_cond_name b)"
proof -
  let ?key = "\<lambda>t. (tk_object t, tk_relation t, tk_user t, get_cond_name t)"
  have none: "get_cond_name t = []" if "tk_condition t = None" for t
    using that by (simp add: get_cond_name_def)
  have less: "TupleKeys_Less x y \<longleftrightarrow>
      tk_object x < tk_object y \<or> tk_object x = tk_object y \<and>
      (tk_relation x < tk_relation y \<or> tk_relation x = tk_relation y \<and>
       (tk_user x < tk_user y \<or> tk_user x = tk_user y \<and> get_cond_name x \<le> get_cond_name y))" for x y
    using none [of x] none [of y] by (auto simp: TupleKeys_Less_def order_le_less)
  show ?thesis unfolding less by (auto intro: less_trans order_trans dest: less_trans)
qed

theorem TupleKeys_Less_preorder_witness:
  "TupleKeys_Less (NewTupleKey ''a:1'' ''r'' ''u:1'') (NewTupleKey ''a:2'' ''r'' ''u:1'') \<and>
   TupleKeys_Less (NewTupleKey ''a:2'' ''r'' ''u:1'') (NewTupleKey ''b:1'' ''r'' ''u:1'') \<and>
   TupleKeys_Less (NewTupleKey ''a:1'' ''r'' ''u:1'') (NewTupleKey ''b:1'' ''r'' ''u:1'')"
proof -
  have ab: "TupleKeys_Less (NewTupleKey ''a:1'' ''r'' ''u:1'') (NewTupleKey ''a:2'' ''r'' ''u:1'')"
    and bc: "TupleKeys_Less (NewTupleKey ''a:2'' ''r'' ''u:1'') (NewTupleKey ''b:1'' ''r'' ''u:1'')"
    by (simp_all add: TupleKeys_Less_def NewTupleKey_def less_char_def)
  with TupleKeys_Less_preorder show ?thesis by blast
qed

end
