(* ===== verification/Tuple_Iterators.thy ===== *)
theory Tuple_Iterators
  imports Tuple_Key
begin

text \<open>
  The iterators of \<open>pkg/storage\<close> (files \<open>tuple_iterators.go\<close> and \<open>tuple_mappers.go\<close>). An iterator
  object is a state; \<open>Next\<close>, \<open>Head\<close> and \<open>Stop\<close> are functions on it. An iterator that wraps
  others takes their operations as arguments, as the Go object holds them behind the
  interface \<open>Iterator\<close>. The mutexes and \<open>sync.Once\<close> values make each call atomic and each stop
  happen once; a call is one step here.

  A call returns \<open>None\<close> where the Go call does not return (its loop never ends, or it panics),
  else the result, \<open>Inl\<close> for an error, and the new state. The context is the value of
  \<open>ctx.Err()\<close>. The interface's contract is the locale \<open>iterator\<close>; every iterator of the two
  files is shown to meet it over any iterators that do.
\<close>

section \<open>The interface\<close>

text \<open>
  Errors: the end of the iteration, the two errors of a context, a fatal error (an
  \<open>errors.FatalError\<close> of \<open>internal/errors\<close>) and any other error.
\<close>

datatype 'e iter_err =
    ErrIteratorDone
  | ErrCanceled
  | ErrDeadlineExceeded
  | ErrFatal 'e
  | ErrOther 'e

type_synonym 'e ctx = "'e iter_err option"

type_synonym ('s, 'e, 'a) iter_call =
  "'e ctx \<Rightarrow> 's \<Rightarrow> (('e iter_err, 'a) result \<times> 's) option"

record pb_tuple =
  tup_key :: tuple_key
  tup_timestamp :: nat

definition IterIsDoneOrCancelled :: "'e iter_err \<Rightarrow> bool" where
  "IterIsDoneOrCancelled err \<longleftrightarrow>
     err = ErrIteratorDone \<or> err = ErrCanceled \<or> err = ErrDeadlineExceeded"

definition is_fatal :: "'e iter_err \<Rightarrow> bool" where
  "is_fatal err \<longleftrightarrow> (case err of ErrFatal _ \<Rightarrow> True | _ \<Rightarrow> False)"

section \<open>StaticIterator\<close>

record 'a static_iter =
  si_items :: "'a list"

definition NewStaticIterator :: "'a list \<Rightarrow> 'a static_iter" where
  "NewStaticIterator items = \<lparr>si_items = items\<rparr>"

definition StaticIterator_Next :: "('a static_iter, 'e, 'a) iter_call" where
  "StaticIterator_Next ctx s =
     (case ctx of Some e \<Rightarrow> Some (Inl e, s)
      | None \<Rightarrow> (case si_items s of [] \<Rightarrow> Some (Inl ErrIteratorDone, s)
          | x # rest \<Rightarrow> Some (Inr x, s\<lparr>si_items := rest\<rparr>)))"

definition StaticIterator_Head :: "('a static_iter, 'e, 'a) iter_call" where
  "StaticIterator_Head ctx s =
     (case ctx of Some e \<Rightarrow> Some (Inl e, s)
      | None \<Rightarrow> (case si_items s of [] \<Rightarrow> Some (Inl ErrIteratorDone, s)
          | x # _ \<Rightarrow> Some (Inr x, s)))"

definition StaticIterator_Stop :: "'a static_iter \<Rightarrow> 'a static_iter" where
  "StaticIterator_Stop s = s\<lparr>si_items := []\<rparr>"

section \<open>Iterators that map their elements\<close>

text \<open>
  \<open>tupleKeyIterator\<close>, \<open>UsersetMapper\<close>, \<open>TTUMapper\<close> and \<open>ObjectIDMapper\<close> call the inner iterator
  and map what it returns, with a function that may fail; an error of the inner iterator is
  passed on. They differ in the function. \<open>wi_once\<close> is the state of their \<open>sync.Once\<close>.
\<close>

record 's wrapped_iter =
  wi_inner :: 's
  wi_once :: bool

definition map_call :: "('s, 'e, 'a) iter_call \<Rightarrow> ('a \<Rightarrow> ('e iter_err, 'b) result) \<Rightarrow>
    ('s wrapped_iter, 'e, 'b) iter_call" where
  "map_call call f ctx t =
     (case call ctx (wi_inner t) of None \<Rightarrow> None
      | Some (Inl err, s') \<Rightarrow> Some (Inl err, t\<lparr>wi_inner := s'\<rparr>)
      | Some (Inr x, s') \<Rightarrow> Some (f x, t\<lparr>wi_inner := s'\<rparr>))"

definition wrapped_Stop :: "('s \<Rightarrow> 's) \<Rightarrow> 's wrapped_iter \<Rightarrow> 's wrapped_iter" where
  "wrapped_Stop stop t = (if wi_once t then t else t\<lparr>wi_inner := stop (wi_inner t), wi_once := True\<rparr>)"

definition wrap_iter :: "'s \<Rightarrow> 's wrapped_iter" where
  "wrap_iter s = \<lparr>wi_inner = s, wi_once = False\<rparr>"

definition tupleKeyIterator_Next ::
  "('s, 'e, pb_tuple) iter_call \<Rightarrow> ('s wrapped_iter, 'e, tuple_key) iter_call" where
  "tupleKeyIterator_Next next = map_call next (\<lambda>t. Inr (tup_key t))"

definition tupleKeyIterator_Head ::
  "('s, 'e, pb_tuple) iter_call \<Rightarrow> ('s wrapped_iter, 'e, tuple_key) iter_call" where
  "tupleKeyIterator_Head head = map_call head (\<lambda>t. Inr (tup_key t))"

definition MapUserset :: "tuple_key \<Rightarrow> (string iter_err, string) result" where
  "MapUserset t =
     (let (usersetName, relation) = SplitObjectRelation (tk_user t)
      in if relation = [] \<and> \<not> IsWildcard usersetName then Inl (ErrOther (tk_user t))
         else Inr usersetName)"

definition MapTTU :: "tuple_key \<Rightarrow> (string iter_err, string) result" where
  "MapTTU t = Inr (tk_user t)"

definition MapObjectID :: "tuple_key \<Rightarrow> (string iter_err, string) result" where
  "MapObjectID t = Inr (tk_object t)"

definition UsersetMapper_Next ::
  "('s, string, tuple_key) iter_call \<Rightarrow> ('s wrapped_iter, string, string) iter_call" where
  "UsersetMapper_Next next = map_call next MapUserset"

definition UsersetMapper_Head ::
  "('s, string, tuple_key) iter_call \<Rightarrow> ('s wrapped_iter, string, string) iter_call" where
  "UsersetMapper_Head head = map_call head MapUserset"

definition TTUMapper_Next ::
  "('s, string, tuple_key) iter_call \<Rightarrow> ('s wrapped_iter, string, string) iter_call" where
  "TTUMapper_Next next = map_call next MapTTU"

definition TTUMapper_Head ::
  "('s, string, tuple_key) iter_call \<Rightarrow> ('s wrapped_iter, string, string) iter_call" where
  "TTUMapper_Head head = map_call head MapTTU"

definition ObjectIDMapper_Next ::
  "('s, string, tuple_key) iter_call \<Rightarrow> ('s wrapped_iter, string, string) iter_call" where
  "ObjectIDMapper_Next next = map_call next MapObjectID"

definition ObjectIDMapper_Head ::
  "('s, string, tuple_key) iter_call \<Rightarrow> ('s wrapped_iter, string, string) iter_call" where
  "ObjectIDMapper_Head head = map_call head MapObjectID"

text \<open>The mappers of whole tuples that order an \<open>OrderedCombinedIterator\<close>.\<close>

definition UserMapper :: "pb_tuple \<Rightarrow> string" where
  "UserMapper t = tk_user (tup_key t)"

definition ObjectMapper :: "pb_tuple \<Rightarrow> string" where
  "ObjectMapper t = tk_object (tup_key t)"

section \<open>filteredTupleKeyIterator\<close>

text \<open>The loops end when the inner iterator does; a loop that never ends is \<open>None\<close>.\<close>

partial_function (option) filtered_Next_loop ::
  "('s, 'e, 'a) iter_call \<Rightarrow> ('a \<Rightarrow> bool) \<Rightarrow> 'e ctx \<Rightarrow> 's \<Rightarrow>
    (('e iter_err, 'a) result \<times> 's) option" where
  "filtered_Next_loop next flt ctx s =
     (case next ctx s of None \<Rightarrow> None
      | Some (r, s') \<Rightarrow> (case r of Inl err \<Rightarrow> Some (Inl err, s')
          | Inr x \<Rightarrow> if flt x then Some (Inr x, s') else filtered_Next_loop next flt ctx s'))"

partial_function (option) filtered_Head_loop ::
  "('s, 'e, 'a) iter_call \<Rightarrow> ('s, 'e, 'a) iter_call \<Rightarrow> ('a \<Rightarrow> bool) \<Rightarrow> 'e ctx \<Rightarrow> 's \<Rightarrow>
    (('e iter_err, 'a) result \<times> 's) option" where
  "filtered_Head_loop next head flt ctx s =
     (case head ctx s of None \<Rightarrow> None
      | Some (r, s') \<Rightarrow> (case r of Inl err \<Rightarrow> Some (Inl err, s')
          | Inr x \<Rightarrow> if flt x then Some (Inr x, s')
              else (case next ctx s' of None \<Rightarrow> None
                    | Some (r', s'') \<Rightarrow> (case r' of Inl err \<Rightarrow> Some (Inl err, s'')
                        | Inr _ \<Rightarrow> filtered_Head_loop next head flt ctx s''))))"

definition lift_inner :: "'s wrapped_iter \<Rightarrow> (('e iter_err, 'a) result \<times> 's) option \<Rightarrow>
    (('e iter_err, 'a) result \<times> 's wrapped_iter) option" where
  "lift_inner f res = map_option (\<lambda>(r, s'). (r, f\<lparr>wi_inner := s'\<rparr>)) res"

definition filteredTupleKeyIterator_Next ::
  "('s, 'e, 'a) iter_call \<Rightarrow> ('a \<Rightarrow> bool) \<Rightarrow> ('s wrapped_iter, 'e, 'a) iter_call" where
  "filteredTupleKeyIterator_Next next flt ctx f =
     lift_inner f (filtered_Next_loop next flt ctx (wi_inner f))"

definition filteredTupleKeyIterator_Head ::
  "('s, 'e, 'a) iter_call \<Rightarrow> ('s, 'e, 'a) iter_call \<Rightarrow> ('a \<Rightarrow> bool) \<Rightarrow>
    ('s wrapped_iter, 'e, 'a) iter_call" where
  "filteredTupleKeyIterator_Head next head flt ctx f =
     lift_inner f (filtered_Head_loop next head flt ctx (wi_inner f))"

section \<open>ConditionsFilteredTupleKeyIterator\<close>

record ('s, 'e) cond_iter =
  ci_iter :: 's
  ci_lastError :: "'e iter_err option"
  ci_onceValid :: bool
  ci_once :: bool

definition NewConditionsFiltered :: "'s \<Rightarrow> ('s, 'e) cond_iter" where
  "NewConditionsFiltered s =
     \<lparr>ci_iter = s, ci_lastError = None, ci_onceValid = False, ci_once = False\<rparr>"

partial_function (option) ConditionsFiltered_Next ::
  "('s, 'e, 'a) iter_call \<Rightarrow> ('a \<Rightarrow> ('e iter_err, bool) result) \<Rightarrow> 'e ctx \<Rightarrow>
    ('s, 'e) cond_iter \<Rightarrow> (('e iter_err, 'a) result \<times> ('s, 'e) cond_iter) option" where
  "ConditionsFiltered_Next next flt ctx f =
     (case next ctx (ci_iter f) of None \<Rightarrow> None
      | Some (r, s') \<Rightarrow> (let f1 = f\<lparr>ci_iter := s'\<rparr> in case r of
          Inl err \<Rightarrow>
            if err = ErrIteratorDone then
              (if ci_onceValid f1 \<or> ci_lastError f1 = None then Some (Inl ErrIteratorDone, f1)
               else Some (Inl (the (ci_lastError f1)), f1\<lparr>ci_lastError := None\<rparr>))
            else Some (Inl err, f1)
        | Inr x \<Rightarrow> (case flt x of
            Inl err \<Rightarrow>
              if is_fatal err then Some (Inl err, f1)
              else ConditionsFiltered_Next next flt ctx (f1\<lparr>ci_lastError := Some err\<rparr>)
          | Inr valid \<Rightarrow>
              if \<not> valid then ConditionsFiltered_Next next flt ctx f1
              else Some (Inr x, f1\<lparr>ci_onceValid := True\<rparr>))))"

partial_function (option) ConditionsFiltered_Head ::
  "('s, 'e, 'a) iter_call \<Rightarrow> ('s, 'e, 'a) iter_call \<Rightarrow> ('a \<Rightarrow> ('e iter_err, bool) result) \<Rightarrow> 'e ctx \<Rightarrow>
    ('s, 'e) cond_iter \<Rightarrow> (('e iter_err, 'a) result \<times> ('s, 'e) cond_iter) option" where
  "ConditionsFiltered_Head next head flt ctx f =
     (case head ctx (ci_iter f) of None \<Rightarrow> None
      | Some (r, s') \<Rightarrow> (let f1 = f\<lparr>ci_iter := s'\<rparr> in case r of
          Inl err \<Rightarrow>
            if err = ErrIteratorDone then
              (if ci_onceValid f1 \<or> ci_lastError f1 = None then Some (Inl ErrIteratorDone, f1)
               else Some (Inl (the (ci_lastError f1)), f1))
            else Some (Inl err, f1)
        | Inr x \<Rightarrow>
            if flt x = Inr True then Some (Inr x, f1\<lparr>ci_onceValid := True\<rparr>)
            else if (case flt x of Inl err \<Rightarrow> is_fatal err | Inr _ \<Rightarrow> False) then
              Some (Inl (case flt x of Inl err \<Rightarrow> err | Inr _ \<Rightarrow> ErrIteratorDone), f1)
            else
             (let f2 = (case flt x of Inl err \<Rightarrow> f1\<lparr>ci_lastError := Some err\<rparr> | Inr _ \<Rightarrow> f1) in
              case next ctx (ci_iter f2) of None \<Rightarrow> None
              | Some (r', s'') \<Rightarrow> (case r' of
                  Inl err \<Rightarrow> Some (Inl err, f2\<lparr>ci_iter := s''\<rparr>)
                | Inr _ \<Rightarrow> ConditionsFiltered_Head next head flt ctx (f2\<lparr>ci_iter := s''\<rparr>)))))"

definition ConditionsFiltered_Stop :: "('s \<Rightarrow> 's) \<Rightarrow> ('s, 'e) cond_iter \<Rightarrow> ('s, 'e) cond_iter" where
  "ConditionsFiltered_Stop stop f =
     (if ci_once f then f else f\<lparr>ci_iter := stop (ci_iter f), ci_once := True\<rparr>)"

section \<open>combinedIterator\<close>

text \<open>
  The pending iterators, in order. A pending iterator that is done is stopped and dropped, and
  the call starts again with the rest.
\<close>

record 's combined_iter =
  cb_pending :: "'s list"
  cb_once :: bool

definition NewCombinedIterator :: "'s option list \<Rightarrow> 's combined_iter" where
  "NewCombinedIterator iters =
     \<lparr>cb_pending = map the (filter (\<lambda>i. i \<noteq> None) iters), cb_once = False\<rparr>"

fun combined_call_loop :: "('s, 'e, 'a) iter_call \<Rightarrow> 'e ctx \<Rightarrow> 's list \<Rightarrow>
    (('e iter_err, 'a) result \<times> 's list) option" where
  "combined_call_loop call ctx [] = Some (Inl ErrIteratorDone, [])"
| "combined_call_loop call ctx (iter # rest) =
     (case call ctx iter of None \<Rightarrow> None
      | Some (Inr x, iter') \<Rightarrow> Some (Inr x, iter' # rest)
      | Some (Inl err, iter') \<Rightarrow>
          if err = ErrIteratorDone then combined_call_loop call ctx rest
          else Some (Inl err, iter' # rest))"

definition combinedIterator_Next ::
  "('s, 'e, 'a) iter_call \<Rightarrow> ('s combined_iter, 'e, 'a) iter_call" where
  "combinedIterator_Next next ctx c =
     map_option (\<lambda>(r, p). (r, c\<lparr>cb_pending := p\<rparr>)) (combined_call_loop next ctx (cb_pending c))"

definition combinedIterator_Head ::
  "('s, 'e, 'a) iter_call \<Rightarrow> ('s combined_iter, 'e, 'a) iter_call" where
  "combinedIterator_Head head ctx c =
     map_option (\<lambda>(r, p). (r, c\<lparr>cb_pending := p\<rparr>)) (combined_call_loop head ctx (cb_pending c))"

definition combinedIterator_Stop :: "('s \<Rightarrow> 's) \<Rightarrow> 's combined_iter \<Rightarrow> 's combined_iter" where
  "combinedIterator_Stop stop c =
     (if cb_once c then c else c\<lparr>cb_pending := map stop (cb_pending c), cb_once := True\<rparr>)"

section \<open>OrderedCombinedIterator\<close>

text \<open>
  The pending iterators with \<open>None\<close> for an entry set to nil; \<open>oc_ordered\<close> is fixed by the
  constructor. \<open>oc_head_loop\<close> is the loop of \<open>head\<close> over the pending slice: it returns the index of
  the least head or the error that ends the loop, and the slice as the loop leaves it.
\<close>

record 's ordered_iter =
  oc_pending :: "'s option list"
  oc_lastHead :: "pb_tuple option"
  oc_lastYielded :: "pb_tuple option"
  oc_ordered :: bool
  oc_once :: bool

definition NewOrderedCombinedIterator :: "('s \<Rightarrow> bool) \<Rightarrow> 's option list \<Rightarrow> 's ordered_iter" where
  "NewOrderedCombinedIterator isOrdered sortedIters =
     (let pending = filter (\<lambda>i. i \<noteq> None) sortedIters
      in \<lparr>oc_pending = pending, oc_lastHead = None, oc_lastYielded = None,
          oc_ordered = (\<forall>i \<in> set pending. isOrdered (the i)), oc_once = False\<rparr>)"

definition clearPendingThatAreNil :: "'s ordered_iter \<Rightarrow> 's ordered_iter" where
  "clearPendingThatAreNil c = c\<lparr>oc_pending := filter (\<lambda>t. t \<noteq> None) (oc_pending c)\<rparr>"

text \<open>Discarding heads whose key is the key last yielded.\<close>

partial_function (option) oc_skip ::
  "('s, 'e, pb_tuple) iter_call \<Rightarrow> ('s, 'e, pb_tuple) iter_call \<Rightarrow> (pb_tuple \<Rightarrow> string) \<Rightarrow> string \<Rightarrow>
    'e ctx \<Rightarrow> pb_tuple \<Rightarrow> 's \<Rightarrow> (('e iter_err, pb_tuple) result \<times> 's) option" where
  "oc_skip next head mapper lastKey ctx h iter =
     (if mapper h \<noteq> lastKey then Some (Inr h, iter)
      else (case next ctx iter of None \<Rightarrow> None
        | Some (r, iter') \<Rightarrow> (case r of Inl err \<Rightarrow> Some (Inl err, iter')
            | Inr _ \<Rightarrow> (case head ctx iter' of None \<Rightarrow> None
                | Some (r', iter'') \<Rightarrow> (case r' of Inl err \<Rightarrow> Some (Inl err, iter'')
                    | Inr h' \<Rightarrow> oc_skip next head mapper lastKey ctx h' iter'')))))"

datatype 'e oc_err = OcIter "'e iter_err" | OcNotAscending nat

text \<open>
  One iteration of the loop, for one pending iterator: its head (\<open>Inr None\<close> when it is done
  and leaves the slice), or an error.
\<close>

definition oc_visit ::
  "('s, 'e, pb_tuple) iter_call \<Rightarrow> ('s, 'e, pb_tuple) iter_call \<Rightarrow> (pb_tuple \<Rightarrow> string) \<Rightarrow>
    pb_tuple option \<Rightarrow> 'e ctx \<Rightarrow> nat \<Rightarrow> 's \<Rightarrow>
    (('e oc_err, pb_tuple option) result \<times> 's option) option" where
  "oc_visit next head mapper lastYielded ctx idx iter =
     (case head ctx iter of None \<Rightarrow> None
      | Some (Inl err, iter') \<Rightarrow>
          if err = ErrIteratorDone then Some (Inr None, None) else Some (Inl (OcIter err), Some iter')
      | Some (Inr h, iter') \<Rightarrow> (case lastYielded of None \<Rightarrow> Some (Inr (Some h), Some iter')
          | Some y \<Rightarrow>
              if mapper h < mapper y then Some (Inl (OcNotAscending idx), Some iter')
              else (case oc_skip next head mapper (mapper y) ctx h iter' of None \<Rightarrow> None
                | Some (Inl err, iter'') \<Rightarrow>
                    if err = ErrIteratorDone then Some (Inr None, None)
                    else Some (Inl (OcIter err), Some iter'')
                | Some (Inr h', iter'') \<Rightarrow> Some (Inr (Some h'), Some iter''))))"

fun oc_head_loop ::
  "('s, 'e, pb_tuple) iter_call \<Rightarrow> ('s, 'e, pb_tuple) iter_call \<Rightarrow> (pb_tuple \<Rightarrow> string) \<Rightarrow>
    pb_tuple option \<Rightarrow> 'e ctx \<Rightarrow> nat \<Rightarrow> 's option list \<Rightarrow> (pb_tuple \<times> nat) option \<Rightarrow>
    (('e oc_err, nat option) result \<times> 's option list) option" where
  "oc_head_loop next head mapper ly ctx idx [] best = Some (Inr (map_option snd best), [])"
| "oc_head_loop next head mapper ly ctx idx (None # rest) best = None"
| "oc_head_loop next head mapper ly ctx idx (Some iter # rest) best =
     (case oc_visit next head mapper ly ctx idx iter of None \<Rightarrow> None
      | Some (Inl err, i') \<Rightarrow> Some (Inl err, i' # rest)
      | Some (Inr None, i') \<Rightarrow>
          map_option (\<lambda>(r, p). (r, i' # p)) (oc_head_loop next head mapper ly ctx (Suc idx) rest best)
      | Some (Inr (Some h), i') \<Rightarrow>
          map_option (\<lambda>(r, p). (r, i' # p))
            (oc_head_loop next head mapper ly ctx (Suc idx) rest
              (case best of None \<Rightarrow> Some (h, idx)
               | Some (m, k) \<Rightarrow> if mapper m > mapper h then Some (h, idx) else best)))"

definition oc_head ::
  "('s, 'e, pb_tuple) iter_call \<Rightarrow> ('s, 'e, pb_tuple) iter_call \<Rightarrow> (pb_tuple \<Rightarrow> string) \<Rightarrow>
    'e ctx \<Rightarrow> 's ordered_iter \<Rightarrow> (('e oc_err, nat) result \<times> 's ordered_iter) option" where
  "oc_head next head mapper ctx c =
     (let c = clearPendingThatAreNil c in
      map_option (\<lambda>(r, p). (case r of Inl err \<Rightarrow> Inl err | Inr None \<Rightarrow> Inl (OcIter ErrIteratorDone)
                             | Inr (Some k) \<Rightarrow> Inr k, c\<lparr>oc_pending := p\<rparr>))
        (oc_head_loop next head mapper (oc_lastYielded c) ctx 0 (oc_pending c) None))"

text \<open>The call at the returned index; an index out of range or a nil entry panics (\<open>None\<close>).\<close>

definition oc_call_at :: "('s, 'e, pb_tuple) iter_call \<Rightarrow> 'e ctx \<Rightarrow> nat \<Rightarrow> 's ordered_iter \<Rightarrow>
    (('e oc_err, pb_tuple) result \<times> 's ordered_iter) option" where
  "oc_call_at call ctx k c =
     (if k < length (oc_pending c) then
        (case oc_pending c ! k of None \<Rightarrow> None
         | Some iter \<Rightarrow> map_option (\<lambda>(r, iter').
             (case r of Inl err \<Rightarrow> Inl (OcIter err) | Inr t \<Rightarrow> Inr t,
              c\<lparr>oc_pending := (oc_pending c)[k := Some iter']\<rparr>)) (call ctx iter))
      else None)"

definition OrderedCombinedIterator_Next ::
  "('s, 'e, pb_tuple) iter_call \<Rightarrow> ('s, 'e, pb_tuple) iter_call \<Rightarrow> (pb_tuple \<Rightarrow> string) \<Rightarrow>
    'e ctx \<Rightarrow> 's ordered_iter \<Rightarrow> (('e oc_err, pb_tuple) result \<times> 's ordered_iter) option" where
  "OrderedCombinedIterator_Next next head mapper ctx c =
     (case oc_head next head mapper ctx c of None \<Rightarrow> None
      | Some (Inl err, c') \<Rightarrow> Some (Inl err, c')
      | Some (Inr idx, c') \<Rightarrow>
          (case oc_call_at next ctx idx (c'\<lparr>oc_lastHead := None\<rparr>) of None \<Rightarrow> None
           | Some (Inl err, c'') \<Rightarrow> Some (Inl err, c'')
           | Some (Inr t, c'') \<Rightarrow> Some (Inr t, c''\<lparr>oc_lastYielded := Some t\<rparr>)))"

definition OrderedCombinedIterator_Head ::
  "('s, 'e, pb_tuple) iter_call \<Rightarrow> ('s, 'e, pb_tuple) iter_call \<Rightarrow> (pb_tuple \<Rightarrow> string) \<Rightarrow>
    'e ctx \<Rightarrow> 's ordered_iter \<Rightarrow> (('e oc_err, pb_tuple) result \<times> 's ordered_iter) option" where
  "OrderedCombinedIterator_Head next head mapper ctx c =
     (case oc_lastHead c of Some t \<Rightarrow> Some (Inr t, c)
      | None \<Rightarrow>
       (case oc_head next head mapper ctx c of None \<Rightarrow> None
        | Some (Inl err, c') \<Rightarrow> Some (Inl err, c')
        | Some (Inr idx, c') \<Rightarrow>
            (case oc_call_at head ctx idx c' of None \<Rightarrow> None
             | Some (Inl err, c'') \<Rightarrow> Some (Inl err, c''\<lparr>oc_lastHead := None\<rparr>)
             | Some (Inr t, c'') \<Rightarrow> Some (Inr t, c''\<lparr>oc_lastHead := Some t\<rparr>))))"

definition OrderedCombinedIterator_Stop :: "('s \<Rightarrow> 's) \<Rightarrow> 's ordered_iter \<Rightarrow> 's ordered_iter" where
  "OrderedCombinedIterator_Stop stop c =
     (if oc_once c then c
      else (let c = clearPendingThatAreNil c
            in c\<lparr>oc_pending := map (map_option stop) (oc_pending c), oc_once := True\<rparr>))"

section \<open>Draining an iterator\<close>

text \<open>
  The consumer loops of the code call \<open>Next\<close> until it returns an error: the elements in order,
  and the error.
\<close>

partial_function (option) drain ::
  "('e ctx \<Rightarrow> 's \<Rightarrow> (('err, 'a) result \<times> 's) option) \<Rightarrow> 'e ctx \<Rightarrow> 's \<Rightarrow> ('a list \<times> 'err) option" where
  "drain next ctx s =
     (case next ctx s of None \<Rightarrow> None
      | Some (r, s') \<Rightarrow> (case r of Inl err \<Rightarrow> Some ([], err)
          | Inr x \<Rightarrow> Option.bind (drain next ctx s') (\<lambda>(xs, err). Some (x # xs, err))))"

text \<open>
  What an iterator over others stands for, from the elements and the final error of the
  inner one: the mapped elements up to the first failure, the elements that pass a condition
  filter up to a fatal error and the error at the end, the elements of several in turn.
\<close>

fun mapped_items :: "('a \<Rightarrow> ('e iter_err, 'b) result) \<Rightarrow> 'a list \<Rightarrow> 'b list" where
  "mapped_items f [] = []"
| "mapped_items f (x # xs) = (case f x of Inl _ \<Rightarrow> [] | Inr y \<Rightarrow> y # mapped_items f xs)"

fun mapped_fin :: "('a \<Rightarrow> ('e iter_err, 'b) result) \<Rightarrow> 'e iter_err \<Rightarrow> 'a list \<Rightarrow> 'e iter_err" where
  "mapped_fin f e [] = e"
| "mapped_fin f e (x # xs) = (case f x of Inl err \<Rightarrow> err | Inr _ \<Rightarrow> mapped_fin f e xs)"

fun cond_items :: "('a \<Rightarrow> ('e iter_err, bool) result) \<Rightarrow> 'a list \<Rightarrow> 'a list" where
  "cond_items flt [] = []"
| "cond_items flt (x # xs) = (case flt x of
     Inl err \<Rightarrow> if is_fatal err then [] else cond_items flt xs
   | Inr valid \<Rightarrow> if valid then x # cond_items flt xs else cond_items flt xs)"

fun cond_fin :: "('a \<Rightarrow> ('e iter_err, bool) result) \<Rightarrow> 'e iter_err \<Rightarrow> bool \<Rightarrow> 'e iter_err option \<Rightarrow>
    'a list \<Rightarrow> 'e iter_err" where
  "cond_fin flt e onceValid lastError [] =
     (if e = ErrIteratorDone then
        (if onceValid \<or> lastError = None then ErrIteratorDone else the lastError)
      else e)"
| "cond_fin flt e onceValid lastError (x # xs) = (case flt x of
     Inl err \<Rightarrow> if is_fatal err then err else cond_fin flt e onceValid (Some err) xs
   | Inr valid \<Rightarrow> cond_fin flt e (onceValid \<or> valid) lastError xs)"

fun comb_items :: "('s \<Rightarrow> 'a list) \<Rightarrow> ('s \<Rightarrow> 'e iter_err) \<Rightarrow> 's list \<Rightarrow> 'a list" where
  "comb_items items fin [] = []"
| "comb_items items fin (i # is) =
     items i @ (if fin i = ErrIteratorDone then comb_items items fin is else [])"

fun comb_fin :: "('s \<Rightarrow> 'e iter_err) \<Rightarrow> 's list \<Rightarrow> 'e iter_err" where
  "comb_fin fin [] = ErrIteratorDone"
| "comb_fin fin (i # is) = (if fin i = ErrIteratorDone then comb_fin fin is else fin i)"

section \<open>The contract of an iterator\<close>

text \<open>
  What the interface promises under a live context: a state stands for the elements still to
  come and the error after the last of them; \<open>Next\<close> takes the first element, \<open>Head\<close> shows it
  and keeps it, and both return the error when there is none. A cancelled context is the
  business of each iterator.
\<close>

locale iterator =
  fixes next_call :: "('s, 'e, 'a) iter_call"
    and head_call :: "('s, 'e, 'a) iter_call"
    and items :: "'s \<Rightarrow> 'a list"
    and fin :: "'s \<Rightarrow> 'e iter_err"
  assumes next_item: "items s = x # xs \<Longrightarrow>
      \<exists>s'. next_call None s = Some (Inr x, s') \<and> items s' = xs \<and> fin s' = fin s"
    and next_end: "items s = [] \<Longrightarrow> \<exists>s'. next_call None s = Some (Inl (fin s), s')"
    and head_item: "items s = x # xs \<Longrightarrow>
      \<exists>s'. head_call None s = Some (Inr x, s') \<and> items s' = x # xs \<and> fin s' = fin s"
    and head_end: "items s = [] \<Longrightarrow>
      \<exists>s'. head_call None s = Some (Inl (fin s), s') \<and> items s' = [] \<and> fin s' = fin s"
begin

lemma next_cases:
  obtains (elem) x xs s' where "items s = x # xs" "next_call None s = Some (Inr x, s')"
      "items s' = xs" "fin s' = fin s"
  | (finished) s' where "items s = []" "next_call None s = Some (Inl (fin s), s')"
  using next_item next_end by (cases "items s") blast+

lemma head_cases:
  obtains (elem) x xs s' where "items s = x # xs" "head_call None s = Some (Inr x, s')"
      "items s' = x # xs" "fin s' = fin s"
  | (finished) s' where "items s = []" "head_call None s = Some (Inl (fin s), s')"
      "items s' = []" "fin s' = fin s"
  using head_item head_end by (cases "items s") blast+

lemma drain_items: "drain next_call None s = Some (items s, fin s)"
proof (induction "items s" arbitrary: s)
  case Nil
  then obtain s' where "next_call None s = Some (Inl (fin s), s')" using next_end [of s] by auto
  with Nil show ?case by (subst drain.simps) simp
next
  case (Cons x xs)
  then obtain s' where s': "next_call None s = Some (Inr x, s')" "items s' = xs" "fin s' = fin s"
    using next_item [of s x xs] by auto
  with Cons.hyps(1) [of s'] have "drain next_call None s' = Some (xs, fin s)" by simp
  with s' Cons.hyps(2) show ?case by (subst drain.simps) simp
qed

text \<open>\<open>Head\<close> shows what \<open>Next\<close> returns, and looking at the head loses nothing.\<close>

lemma head_then_next:
  assumes "head_call None s = Some (r, s')"
  shows "\<exists>s''. next_call None s' = Some (r, s'') \<and> drain next_call None s' = drain next_call None s"
proof (cases s rule: head_cases)
  case (elem x xs t)
  with assms have "r = Inr x" "s' = t" by simp_all
  with elem next_item [of t x xs] show ?thesis by (auto simp: drain_items)
next
  case (finished t)
  with assms have "r = Inl (fin s)" "s' = t" by simp_all
  with finished next_end [of t] show ?thesis by (auto simp: drain_items)
qed

end

section \<open>Iterators over iterators meet the contract\<close>

locale mapped_iterator = iterator next_call head_call items fin
  for next_call :: "('s, 'e, 'a) iter_call" and head_call :: "('s, 'e, 'a) iter_call"
    and items :: "'s \<Rightarrow> 'a list" and fin :: "'s \<Rightarrow> 'e iter_err" +
  fixes f :: "'a \<Rightarrow> ('e iter_err, 'b) result"

sublocale mapped_iterator \<subseteq> mapped: iterator "map_call next_call f" "map_call head_call f"
  "\<lambda>t. mapped_items f (items (wi_inner t))"
  "\<lambda>t. mapped_fin f (fin (wi_inner t)) (items (wi_inner t))"
proof (unfold_locales, goal_cases)
  case (1 t y ys)
  then obtain x xs where "items (wi_inner t) = x # xs" by (cases "items (wi_inner t)") auto
  with 1 next_item [of "wi_inner t"] show ?case
    by (auto simp: map_call_def split: sum.splits)
next
  case (2 t)
  then show ?case
    by (cases "wi_inner t" rule: next_cases) (auto simp: map_call_def split: sum.splits)
next
  case (3 t y ys)
  then obtain x xs where "items (wi_inner t) = x # xs" by (cases "items (wi_inner t)") auto
  with 3 head_item [of "wi_inner t"] show ?case
    by (auto simp: map_call_def split: sum.splits)
next
  case (4 t)
  then show ?case
    by (cases "wi_inner t" rule: head_cases) (auto simp: map_call_def split: sum.splits)
qed

locale filtered_iterator = iterator next_call head_call items fin
  for next_call :: "('s, 'e, 'a) iter_call" and head_call :: "('s, 'e, 'a) iter_call"
    and items :: "'s \<Rightarrow> 'a list" and fin :: "'s \<Rightarrow> 'e iter_err" +
  fixes flt :: "'a \<Rightarrow> bool"
begin

lemma next_loop:
  "\<exists>s'. filtered_Next_loop next_call flt None s =
      Some (case filter flt (items s) of [] \<Rightarrow> Inl (fin s) | x # _ \<Rightarrow> Inr x, s') \<and>
    (filter flt (items s) \<noteq> [] \<longrightarrow> filter flt (items s') = tl (filter flt (items s)) \<and> fin s' = fin s)"
proof (induction "items s" arbitrary: s)
  case Nil
  then show ?case
    using next_end [of s] by (subst filtered_Next_loop.simps) auto
next
  case (Cons x xs)
  then obtain s' where s': "next_call None s = Some (Inr x, s')" "items s' = xs" "fin s' = fin s"
    using next_item [of s x xs] by auto
  show ?case
  proof (cases "flt x")
    case True
    with s' Cons.hyps(2) [symmetric] show ?thesis by (subst filtered_Next_loop.simps) simp
  next
    case False
    with s' Cons.hyps(2) [symmetric] Cons.hyps(1) [of s'] show ?thesis
      by (subst filtered_Next_loop.simps) (simp cong: list.case_cong)
  qed
qed

lemma head_loop:
  "\<exists>s'. filtered_Head_loop next_call head_call flt None s =
      Some (case filter flt (items s) of [] \<Rightarrow> Inl (fin s) | x # _ \<Rightarrow> Inr x, s') \<and>
    filter flt (items s') = filter flt (items s) \<and> fin s' = fin s"
proof (induction "items s" arbitrary: s)
  case Nil
  then show ?case
    using head_end [of s] by (subst filtered_Head_loop.simps) auto
next
  case (Cons x xs)
  then obtain t where t: "head_call None s = Some (Inr x, t)" "items t = x # xs" "fin t = fin s"
    using head_item [of s x xs] by auto
  then obtain s' where s': "next_call None t = Some (Inr x, s')" "items s' = xs" "fin s' = fin s"
    using next_item [of t x xs] by auto
  show ?case
  proof (cases "flt x")
    case True
    with t Cons.hyps(2) [symmetric] show ?thesis by (subst filtered_Head_loop.simps) simp
  next
    case False
    with t s' Cons.hyps(2) [symmetric] Cons.hyps(1) [of s'] show ?thesis
      by (subst filtered_Head_loop.simps) (simp cong: list.case_cong)
  qed
qed

end

sublocale filtered_iterator \<subseteq> filtered: iterator "filteredTupleKeyIterator_Next next_call flt"
  "filteredTupleKeyIterator_Head next_call head_call flt"
  "\<lambda>f. filter flt (items (wi_inner f))" "\<lambda>f. fin (wi_inner f)"
proof (unfold_locales, goal_cases)
  case (1 s x xs)
  then show ?case using next_loop [of "wi_inner s"]
    by (auto simp: filteredTupleKeyIterator_Next_def lift_inner_def)
next
  case (2 s)
  then show ?case using next_loop [of "wi_inner s"]
    by (auto simp: filteredTupleKeyIterator_Next_def lift_inner_def)
next
  case (3 s x xs)
  then show ?case using head_loop [of "wi_inner s"]
    by (auto simp: filteredTupleKeyIterator_Head_def lift_inner_def)
next
  case (4 s)
  then show ?case using head_loop [of "wi_inner s"]
    by (auto simp: filteredTupleKeyIterator_Head_def lift_inner_def)
qed

locale condition_iterator = iterator next_call head_call items fin
  for next_call :: "('s, 'e, 'a) iter_call" and head_call :: "('s, 'e, 'a) iter_call"
    and items :: "'s \<Rightarrow> 'a list" and fin :: "'s \<Rightarrow> 'e iter_err" +
  fixes flt :: "'a \<Rightarrow> ('e iter_err, bool) result"
begin

definition citems :: "('s, 'e) cond_iter \<Rightarrow> 'a list" where
  "citems f = cond_items flt (items (ci_iter f))"

definition cfin :: "('s, 'e) cond_iter \<Rightarrow> 'e iter_err" where
  "cfin f = cond_fin flt (fin (ci_iter f)) (ci_onceValid f) (ci_lastError f) (items (ci_iter f))"

lemma cond_next_loop:
  "\<exists>f'. ConditionsFiltered_Next next_call flt None f =
      Some (case citems f of [] \<Rightarrow> Inl (cfin f) | x # _ \<Rightarrow> Inr x, f') \<and>
    (citems f \<noteq> [] \<longrightarrow> citems f' = tl (citems f) \<and> cfin f' = cfin f)"
proof (induction "items (ci_iter f)" arbitrary: f)
  case Nil
  then obtain s' where "next_call None (ci_iter f) = Some (Inl (fin (ci_iter f)), s')"
    using next_end [of "ci_iter f"] by auto
  with Nil show ?case by (subst ConditionsFiltered_Next.simps) (auto simp: citems_def cfin_def)
next
  case (Cons x xs)
  then obtain s' where s': "next_call None (ci_iter f) = Some (Inr x, s')" "items s' = xs"
      "fin s' = fin (ci_iter f)"
    using next_item [of "ci_iter f" x xs] by auto
  let ?f1 = "f\<lparr>ci_iter := s'\<rparr>"
  show ?case
  proof (cases "flt x")
    case (Inl err)
    with s' Cons.hyps(2) [symmetric] Cons.hyps(1) [of "?f1\<lparr>ci_lastError := Some err\<rparr>"] show ?thesis
      by (subst ConditionsFiltered_Next.simps)
        (auto simp: citems_def cfin_def Let_def split: list.split)
  next
    case (Inr valid)
    with s' Cons.hyps(2) [symmetric] Cons.hyps(1) [of ?f1] show ?thesis
      by (subst ConditionsFiltered_Next.simps)
        (auto simp: citems_def cfin_def Let_def split: list.split)
  qed
qed

lemma cond_head_loop:
  "\<exists>f'. ConditionsFiltered_Head next_call head_call flt None f =
      Some (case citems f of [] \<Rightarrow> Inl (cfin f) | x # _ \<Rightarrow> Inr x, f') \<and>
    citems f' = citems f \<and> cfin f' = cfin f"
proof (induction "items (ci_iter f)" arbitrary: f)
  case Nil
  then obtain s' where "head_call None (ci_iter f) = Some (Inl (fin (ci_iter f)), s')"
    "items s' = []" "fin s' = fin (ci_iter f)"
    using head_end [of "ci_iter f"] by auto
  with Nil show ?case by (subst ConditionsFiltered_Head.simps) (auto simp: citems_def cfin_def)
next
  case (Cons x xs)
  then obtain t where t: "head_call None (ci_iter f) = Some (Inr x, t)" "items t = x # xs"
      "fin t = fin (ci_iter f)"
    using head_item [of "ci_iter f" x xs] by auto
  then obtain s' where s': "next_call None t = Some (Inr x, s')" "items s' = xs"
      "fin s' = fin (ci_iter f)"
    using next_item [of t x xs] by auto
  let ?f1 = "f\<lparr>ci_iter := s'\<rparr>"
  show ?case
  proof (cases "flt x")
    case (Inl err)
    have order: "f\<lparr>ci_lastError := Some err, ci_iter := s'\<rparr> = f\<lparr>ci_iter := s', ci_lastError := Some err\<rparr>"
      by (cases f) simp
    from Inl t s' Cons.hyps(2) [symmetric] Cons.hyps(1) [of "f\<lparr>ci_iter := s', ci_lastError := Some err\<rparr>"]
    show ?thesis
      by (subst ConditionsFiltered_Head.simps)
        (auto simp: citems_def cfin_def Let_def order split: list.split)
  next
    case (Inr valid)
    with t s' Cons.hyps(2) [symmetric] Cons.hyps(1) [of ?f1] show ?thesis
      by (subst ConditionsFiltered_Head.simps) (cases valid; auto simp: citems_def cfin_def Let_def split: list.split)
  qed
qed

end

sublocale condition_iterator \<subseteq> conditions: iterator "ConditionsFiltered_Next next_call flt"
  "ConditionsFiltered_Head next_call head_call flt" citems cfin
proof (unfold_locales, goal_cases)
  case (1 f x xs)
  then show ?case using cond_next_loop [of f] by auto
next
  case (2 f)
  then show ?case using cond_next_loop [of f] by auto
next
  case (3 f x xs)
  then show ?case using cond_head_loop [of f] by auto
next
  case (4 f)
  then show ?case using cond_head_loop [of f] by auto
qed

locale iterator_list = iterator next_call head_call items fin
  for next_call :: "('s, 'e, 'a) iter_call" and head_call :: "('s, 'e, 'a) iter_call"
    and items :: "'s \<Rightarrow> 'a list" and fin :: "'s \<Rightarrow> 'e iter_err"
begin

lemma combined_next_loop:
  "\<exists>p'. combined_call_loop next_call None p =
      Some (case comb_items items fin p of [] \<Rightarrow> Inl (comb_fin fin p) | x # _ \<Rightarrow> Inr x, p') \<and>
    (comb_items items fin p \<noteq> [] \<longrightarrow>
      comb_items items fin p' = tl (comb_items items fin p) \<and> comb_fin fin p' = comb_fin fin p)"
proof (induction p)
  case (Cons i p)
  then show ?case
    by (cases i rule: next_cases) (auto split: list.split)
qed simp

lemma combined_head_loop:
  "\<exists>p'. combined_call_loop head_call None p =
      Some (case comb_items items fin p of [] \<Rightarrow> Inl (comb_fin fin p) | x # _ \<Rightarrow> Inr x, p') \<and>
    comb_items items fin p' = comb_items items fin p \<and> comb_fin fin p' = comb_fin fin p"
proof (induction p)
  case (Cons i p)
  then show ?case
    by (cases i rule: head_cases) (auto split: list.split)
qed simp

end

sublocale iterator_list \<subseteq> combined: iterator "combinedIterator_Next next_call"
  "combinedIterator_Head head_call"
  "\<lambda>c. comb_items items fin (cb_pending c)" "\<lambda>c. comb_fin fin (cb_pending c)"
proof (unfold_locales, goal_cases)
  case (1 c x xs)
  then show ?case using combined_next_loop [of "cb_pending c"]
    by (auto simp: combinedIterator_Next_def)
next
  case (2 c)
  then show ?case using combined_next_loop [of "cb_pending c"]
    by (auto simp: combinedIterator_Next_def)
next
  case (3 c x xs)
  then show ?case using combined_head_loop [of "cb_pending c"]
    by (auto simp: combinedIterator_Head_def)
next
  case (4 c)
  then show ?case using combined_head_loop [of "cb_pending c"]
    by (auto simp: combinedIterator_Head_def)
qed

section \<open>The ordered merge\<close>

locale ordered_iterator = iterator next_call head_call items fin
  for next_call :: "('s, 'e, pb_tuple) iter_call" and head_call :: "('s, 'e, pb_tuple) iter_call"
    and items :: "'s \<Rightarrow> pb_tuple list" and fin :: "'s \<Rightarrow> 'e iter_err" +
  fixes mapper :: "pb_tuple \<Rightarrow> string"
begin

text \<open>A pending iterator that is sorted by key, ends normally and is not behind the last key.\<close>

definition it_ok :: "pb_tuple option \<Rightarrow> 's \<Rightarrow> bool" where
  "it_ok ly it \<longleftrightarrow> fin it = ErrIteratorDone \<and> sorted (map mapper (items it)) \<and>
     (\<forall>y. ly = Some y \<longrightarrow> (\<forall>t \<in> set (items it). mapper y \<le> mapper t))"

definition trim :: "pb_tuple option \<Rightarrow> pb_tuple list \<Rightarrow> pb_tuple list" where
  "trim ly xs = (case ly of None \<Rightarrow> xs | Some y \<Rightarrow> dropWhile (\<lambda>t. mapper t = mapper y) xs)"

lemma trim_left:
  assumes "it_ok ly it"
  shows "set (trim ly (items it)) =
    {t \<in> set (items it). \<forall>y. ly = Some y \<longrightarrow> mapper y < mapper t}"
proof (cases ly)
  case (Some y)
  have "sorted (map mapper xs) \<Longrightarrow> \<forall>t \<in> set xs. mapper y \<le> mapper t \<Longrightarrow>
      set (dropWhile (\<lambda>t. mapper t = mapper y) xs) = {t \<in> set xs. mapper y < mapper t}" for xs
  proof (induction xs)
    case (Cons x xs)
    show ?case
    proof (cases "mapper x = mapper y")
      case False
      with Cons.prems(2) have "mapper y < mapper x" by (auto simp: order.strict_iff_order)
      moreover from this Cons.prems(1) have "\<forall>t \<in> set xs. mapper y < mapper t"
        by (auto intro: order.strict_trans2)
      ultimately show ?thesis using False by auto
    qed (use Cons in auto)
  qed simp
  with Some assms show ?thesis by (simp add: trim_def it_ok_def)
qed (simp add: trim_def)

lemma trim_sorted: "it_ok ly it \<Longrightarrow> sorted (map mapper (trim ly (items it)))"
  by (cases ly) (simp_all add: trim_def it_ok_def sorted_wrt_map sorted_wrt_dropWhile)

lemma skip_spec:
  assumes "items it = h # xs"
  shows "\<exists>it'. oc_skip next_call head_call mapper k None h it =
      Some (case dropWhile (\<lambda>t. mapper t = k) (h # xs) of [] \<Rightarrow> Inl (fin it) | x # _ \<Rightarrow> Inr x, it') \<and>
    (dropWhile (\<lambda>t. mapper t = k) (h # xs) \<noteq> [] \<longrightarrow>
      items it' = dropWhile (\<lambda>t. mapper t = k) (h # xs) \<and> fin it' = fin it)"
  using assms
proof (induction xs arbitrary: h it)
  case Nil
  from next_item [OF Nil] obtain i where i: "next_call None it = Some (Inr h, i)" "items i = []"
    "fin i = fin it" by blast
  with head_end [of i] Nil show ?case by (subst oc_skip.simps) auto
next
  case (Cons x xs)
  from next_item [OF Cons.prems] obtain i where i: "next_call None it = Some (Inr h, i)"
    "items i = x # xs" "fin i = fin it" by blast
  from head_item [OF i(2)] obtain j where j: "head_call None i = Some (Inr x, j)"
    "items j = x # xs" "fin j = fin it" using i(3) by auto
  show ?case
  proof (cases "mapper h = k")
    case True
    with i j Cons.IH [OF j(2)] show ?thesis
      by (subst oc_skip.simps) (auto split: list.split cong: list.case_cong)
  next
    case False
    with Cons.prems show ?thesis by (subst oc_skip.simps) simp
  qed
qed

text \<open>What a visit leaves of a pending iterator.\<close>

definition visited :: "pb_tuple option \<Rightarrow> 's \<Rightarrow> 's option \<Rightarrow> bool" where
  "visited ly it i' \<longleftrightarrow> (case trim ly (items it) of [] \<Rightarrow> i' = None
     | x # xs \<Rightarrow> (\<exists>it'. i' = Some it' \<and> items it' = x # xs \<and> fin it' = ErrIteratorDone))"

lemma visit_spec:
  assumes "it_ok ly it"
  shows "\<exists>i'. oc_visit next_call head_call mapper ly None idx it =
      Some (Inr (case trim ly (items it) of [] \<Rightarrow> None | x # _ \<Rightarrow> Some x), i') \<and> visited ly it i'"
proof (cases it rule: head_cases)
  case (elem x xs it')
  with assms have fin: "fin it' = ErrIteratorDone" by (simp add: it_ok_def)
  show ?thesis
  proof (cases ly)
    case None
    with elem fin show ?thesis by (auto simp: oc_visit_def trim_def visited_def)
  next
    case (Some y)
    with assms elem have "\<not> mapper x < mapper y" by (auto simp: it_ok_def)
    with Some elem fin skip_spec [of it' x xs "mapper y"] show ?thesis
      by (cases "trim ly (items it)") (auto simp: oc_visit_def trim_def visited_def)
  qed
next
  case (finished it')
  with assms show ?thesis
    by (auto simp: oc_visit_def trim_def visited_def it_ok_def split: option.splits)
qed

text \<open>
  The loop visits every pending iterator and returns the index of one with the least head.
\<close>

definition best_head :: "nat \<Rightarrow> 's option list \<Rightarrow> (pb_tuple \<times> nat) option \<Rightarrow> (pb_tuple \<times> nat) option \<Rightarrow> bool"
where
  "best_head idx p best m \<longleftrightarrow>
     (m = best \<or> (\<exists>j it t. j < length p \<and> p ! j = Some it \<and> items it \<noteq> [] \<and> t = items it ! 0 \<and>
        m = Some (t, idx + j))) \<and>
     (\<forall>it. Some it \<in> set p \<longrightarrow> m \<noteq> None \<and> mapper (fst (the m)) \<le> mapper (items it ! 0)) \<and>
     (best \<noteq> None \<longrightarrow> m \<noteq> None \<and> mapper (fst (the m)) \<le> mapper (fst (the best)))"

lemma best_head_None: "best_head (Suc idx) p best m \<Longrightarrow> best_head idx (None # p) best m"
  unfolding best_head_def by (auto 0 3 intro: exI [of _ "Suc _"])

lemma best_head_Some:
  assumes m: "best_head (Suc idx) p best' m" and it: "items it = h # xs"
    and best': "best' = (case best of None \<Rightarrow> Some (h, idx)
      | Some (m, k) \<Rightarrow> if mapper m > mapper h then Some (h, idx) else best)"
  shows "best_head idx (Some it # p) best m"
proof -
  from best' have le: "best' \<noteq> None" "mapper (fst (the best')) \<le> mapper h"
    "best \<noteq> None \<Longrightarrow> mapper (fst (the best')) \<le> mapper (fst (the best))"
    "best' = best \<or> best' = Some (h, idx)"
    by (auto split: option.splits if_splits simp: not_less)
  from m le have some: "m \<noteq> None" "mapper (fst (the m)) \<le> mapper (fst (the best'))"
    unfolding best_head_def by blast+
  have "m = best \<or> (\<exists>j it' t. j < length (Some it # p) \<and> (Some it # p) ! j = Some it' \<and>
      items it' \<noteq> [] \<and> t = items it' ! 0 \<and> m = Some (t, idx + j))"
  proof (cases "m = best'")
    case True
    with le(4) it show ?thesis by (auto intro!: exI [of _ "0 :: nat"])
  next
    case False
    with m obtain j it' where "j < length p" "p ! j = Some it'" "items it' \<noteq> []"
      "m = Some (items it' ! 0, Suc idx + j)" unfolding best_head_def by blast
    then show ?thesis by (intro disjI2 exI [of _ "Suc j"]) auto
  qed
  moreover have "mapper (fst (the m)) \<le> mapper (items it' ! 0)" if "Some it' \<in> set (Some it # p)" for it'
    using that m it order.trans [OF some(2) le(2)] unfolding best_head_def by auto
  moreover have "mapper (fst (the m)) \<le> mapper (fst (the best))" if "best \<noteq> None"
    using le(3) [OF that] some(2) by (rule order.trans [rotated])
  ultimately show ?thesis using some(1) unfolding best_head_def by blast
qed

lemma loop_spec:
  assumes "\<forall>it. Some it \<in> set p \<longrightarrow> it_ok ly it" and "None \<notin> set p"
  shows "\<exists>p' m. oc_head_loop next_call head_call mapper ly None idx p best =
      Some (Inr (map_option snd m), p') \<and>
    list_all2 (\<lambda>i i'. visited ly (the i) i') p p' \<and> best_head idx p' best m"
  using assms
proof (induction p arbitrary: idx best)
  case Nil
  then show ?case by (auto simp: best_head_def)
next
  case (Cons i p)
  then obtain it where it: "i = Some it" "it_ok ly it" by (cases i) auto
  from visit_spec [OF it(2)] obtain i' where visit: "oc_visit next_call head_call mapper ly None idx it =
      Some (Inr (case trim ly (items it) of [] \<Rightarrow> None | x # _ \<Rightarrow> Some x), i')" "visited ly it i'"
    by blast
  show ?case
  proof (cases "trim ly (items it)")
    case Nil
    with visit(2) have "i' = None" by (simp add: visited_def)
    with Nil it visit Cons.IH [of "Suc idx" best] Cons.prems show ?thesis
      by (fastforce dest: best_head_None)
  next
    case (Cons h xs)
    with visit(2) obtain it' where i': "i' = Some it'" "items it' = h # xs" by (auto simp: visited_def)
    let ?best = "case best of None \<Rightarrow> Some (h, idx)
      | Some (m, k) \<Rightarrow> if mapper m > mapper h then Some (h, idx) else best"
    from Cons.IH [of "Suc idx" ?best] Cons.prems obtain p' m where
      "oc_head_loop next_call head_call mapper ly None (Suc idx) p ?best = Some (Inr (map_option snd m), p')"
      "list_all2 (\<lambda>i i'. visited ly (the i) i') p p'" "best_head (Suc idx) p' ?best m" by auto
    with Cons it visit i' best_head_Some [OF _ i'(2) refl, of idx p' best m] show ?thesis by auto
  qed
qed

text \<open>The tuples of a slice of pending iterators, and those still to come.\<close>

definition tuples_of :: "'s option list \<Rightarrow> pb_tuple set" where
  "tuples_of p = (\<Union>it \<in> {it. Some it \<in> set p}. set (items it))"

definition left_tuples :: "'s ordered_iter \<Rightarrow> pb_tuple set" where
  "left_tuples c = {t \<in> tuples_of (oc_pending c).
     \<forall>y. oc_lastYielded c = Some y \<longrightarrow> mapper y < mapper t}"

definition oc_ok :: "'s ordered_iter \<Rightarrow> bool" where
  "oc_ok c \<longleftrightarrow> (\<forall>it. Some it \<in> set (oc_pending c) \<longrightarrow> it_ok (oc_lastYielded c) it)"

definition trimmed :: "'s option list \<Rightarrow> bool" where
  "trimmed p \<longleftrightarrow> (\<forall>it. Some it \<in> set p \<longrightarrow>
     fin it = ErrIteratorDone \<and> sorted (map mapper (items it)) \<and> items it \<noteq> [])"

lemma finite_tuples_of: "finite (tuples_of p)"
proof -
  have "{it. Some it \<in> set p} = the ` (set p - {None})" 
    by (auto intro!: rev_image_eqI [of "Some _"])
  then have "finite {it. Some it \<in> set p}" by simp
  then show ?thesis by (simp add: tuples_of_def)
qed

lemma visited_tuples:
  assumes v: "list_all2 (\<lambda>i i'. visited ly (the i) i') p p'" and N: "None \<notin> set p"
    and ok: "\<forall>it. Some it \<in> set p \<longrightarrow> it_ok ly it"
  shows "trimmed p'"
    and "tuples_of p' = {t \<in> tuples_of p. \<forall>y. ly = Some y \<longrightarrow> mapper y < mapper t}"
proof -
  have "trimmed p' \<and> tuples_of p' = {t \<in> tuples_of p. \<forall>y. ly = Some y \<longrightarrow> mapper y < mapper t}"
    using v N ok
  proof (induction rule: list_all2_induct)
    case Nil
    then show ?case by (simp add: trimmed_def tuples_of_def)
  next
    case (Cons i p i' p')
    then obtain it where i: "i = Some it" and ok: "it_ok ly it" by (cases i) auto
    have split: "tuples_of (Some a # q) = set (items a) \<union> tuples_of q"
      "tuples_of (None # q) = tuples_of q" for a q by (auto simp: tuples_of_def)
    from Cons i have IH: "trimmed p'"
      "tuples_of p' = {t \<in> tuples_of p. \<forall>y. ly = Some y \<longrightarrow> mapper y < mapper t}" by auto
    from Cons(1) i have vis: "visited ly it i'" by simp
    show ?case
    proof (cases "trim ly (items it)")
      case Nil
      with vis have "i' = None" by (simp add: visited_def)
      with Nil trim_left [OF ok] IH i show ?thesis by (auto simp: split trimmed_def)
    next
      case (Cons x xs)
      with vis obtain it' where "i' = Some it'" "items it' = trim ly (items it)"
        "fin it' = ErrIteratorDone" by (auto simp: visited_def)
      with Cons trim_left [OF ok] trim_sorted [OF ok] IH i show ?thesis
        by (auto simp: split trimmed_def)
    qed
  qed
  then show "trimmed p'"
    and "tuples_of p' = {t \<in> tuples_of p. \<forall>y. ly = Some y \<longrightarrow> mapper y < mapper t}" by auto
qed

lemma trimmed_head_le:
  assumes "trimmed p" and "\<forall>it. Some it \<in> set p \<longrightarrow> k \<le> mapper (items it ! 0)" and "t \<in> tuples_of p"
  shows "k \<le> mapper t"
proof -
  from assms(3) obtain it where it: "Some it \<in> set p" "t \<in> set (items it)" by (auto simp: tuples_of_def)
  with assms(1) obtain x xs where x: "items it = x # xs" "sorted (map mapper (x # xs))"
    unfolding trimmed_def by (cases "items it") fastforce+
  with it(2) have "mapper x \<le> mapper t" by auto
  moreover from assms(2) it(1) x(1) have "k \<le> mapper x" by fastforce
  ultimately show ?thesis by (rule order.trans [rotated])
qed

lemma oc_head_spec:
  assumes "oc_ok c"
  obtains p' where "oc_head next_call head_call mapper None c =
      Some (Inl (OcIter ErrIteratorDone), c\<lparr>oc_pending := p'\<rparr>)" "left_tuples c = {}"
  | p' k it t xs where "oc_head next_call head_call mapper None c = Some (Inr k, c\<lparr>oc_pending := p'\<rparr>)"
      "k < length p'" "p' ! k = Some it" "items it = t # xs" "trimmed p'"
      "tuples_of p' = left_tuples c" "\<forall>u \<in> left_tuples c. mapper t \<le> mapper u"
proof -
  let ?p = "filter (\<lambda>t. t \<noteq> None) (oc_pending c)" and ?ly = "oc_lastYielded c"
  have N: "None \<notin> set ?p" by simp
  have ok: "\<forall>it. Some it \<in> set ?p \<longrightarrow> it_ok ?ly it" using assms by (simp add: oc_ok_def)
  have tup: "tuples_of ?p = tuples_of (oc_pending c)" by (simp add: tuples_of_def)
  obtain p' m where loop: "oc_head_loop next_call head_call mapper ?ly None 0 ?p None =
      Some (Inr (map_option snd m), p')" "list_all2 (\<lambda>i i'. visited ?ly (the i) i') ?p p'"
      "best_head 0 p' None m"
    using loop_spec [OF ok N, of 0 None] by auto
  from visited_tuples [OF loop(2) N ok]
  have p': "trimmed p'" "tuples_of p' = left_tuples c" by (simp_all only: left_tuples_def tup)
  show ?thesis
  proof (cases m)
    case None
    with loop(3) have "tuples_of p' = {}" by (auto simp: best_head_def tuples_of_def)
    with None loop(1) p' show ?thesis
      by (intro that(1) [of p']) (simp_all add: oc_head_def clearPendingThatAreNil_def Let_def)
  next
    case (Some b)
    with loop(3) obtain j it where j: "j < length p'" "p' ! j = Some it" "items it \<noteq> []"
      "m = Some (items it ! 0, j)" unfolding best_head_def by auto
    then obtain t xs where it: "items it = t # xs" by (cases "items it") auto
    from j(4) it loop(3) have "\<forall>i. Some i \<in> set p' \<longrightarrow> mapper t \<le> mapper (items i ! 0)"
      by (simp add: best_head_def)
    with p' have "\<forall>u \<in> left_tuples c. mapper t \<le> mapper u" using trimmed_head_le by blast
    with j it p' loop(1) show ?thesis
      by (intro that(2) [of j p' it t xs])
        (simp_all add: oc_head_def clearPendingThatAreNil_def Let_def)
  qed
qed

lemma ordered_next_spec:
  assumes "oc_ok c"
  obtains c' where "OrderedCombinedIterator_Next next_call head_call mapper None c =
      Some (Inl (OcIter ErrIteratorDone), c')" "left_tuples c = {}"
  | t c' where "OrderedCombinedIterator_Next next_call head_call mapper None c = Some (Inr t, c')"
      "t \<in> left_tuples c" "\<forall>u \<in> left_tuples c. mapper t \<le> mapper u" "oc_ok c'"
      "left_tuples c' = {u \<in> left_tuples c. mapper t < mapper u}"
proof (cases rule: oc_head_spec [OF assms])
  case (1 p')
  then show ?thesis by (intro that(1)) (simp_all add: OrderedCombinedIterator_Next_def)
next
  case (2 p' k it t xs)
  from next_item [OF 2(4)] obtain it' where it': "next_call None it = Some (Inr t, it')"
    "items it' = xs" "fin it' = fin it" by blast
  let ?q = "p'[k := Some it']"
  let ?c = "c\<lparr>oc_pending := ?q, oc_lastHead := None, oc_lastYielded := Some t\<rparr>"
  have in_p: "Some it \<in> set p'" using 2(2,3) by (metis nth_mem)
  have sub: "i = it' \<or> Some i \<in> set p'" if "Some i \<in> set ?q" for i
    using set_update_subset_insert [of p' k "Some it'"] that by auto
  have t_in: "t \<in> left_tuples c" using 2(4,6) in_p by (force simp: tuples_of_def)
  have ok: "it_ok (Some t) i" if "Some i \<in> set ?q" for i
  proof (cases "i = it'")
    case True
    with 2(4,5) in_p it' show ?thesis by (force simp: it_ok_def trimmed_def)
  next
    case False
    with sub [OF that] have i: "Some i \<in> set p'" by simp
    then have "set (items i) \<subseteq> left_tuples c" using 2(6) by (auto simp: tuples_of_def)
    with i 2(5,7) show ?thesis by (auto simp: it_ok_def trimmed_def)
  qed
  have left: "left_tuples ?c = {u \<in> left_tuples c. mapper t < mapper u}"
  proof (intro equalityI subsetI)
    fix u assume "u \<in> left_tuples ?c"
    then obtain i where i: "Some i \<in> set ?q" "u \<in> set (items i)" "mapper t < mapper u"
      by (auto simp: left_tuples_def tuples_of_def)
    from sub [OF i(1)] i(2) it'(2) 2(4) in_p have "u \<in> tuples_of p'"
      by (force simp: tuples_of_def)
    with i(3) 2(6) show "u \<in> {u \<in> left_tuples c. mapper t < mapper u}" by simp
  next
    fix u assume "u \<in> {u \<in> left_tuples c. mapper t < mapper u}"
    then have u: "u \<in> tuples_of p'" "mapper t < mapper u" using 2(6) by auto
    then obtain j i where j: "j < length p'" "p' ! j = Some i" "u \<in> set (items i)"
      by (auto simp: tuples_of_def in_set_conv_nth)
    have "\<exists>i. Some i \<in> set ?q \<and> u \<in> set (items i)"
    proof (cases "j = k")
      case True
      with j 2(2-4) u(2) it'(2) have "u \<in> set (items it')" by auto
      moreover have "Some it' \<in> set ?q" using 2(2) by (simp add: set_update_memI)
      ultimately show ?thesis by blast
    next
      case False
      with j have "?q ! j = Some i" "j < length ?q" by simp_all
      then have "Some i \<in> set ?q" by (metis nth_mem)
      with j(3) show ?thesis by blast
    qed
    with u(2) show "u \<in> left_tuples ?c" by (auto simp: left_tuples_def tuples_of_def)
  qed
  from 2(1-3) it' have "OrderedCombinedIterator_Next next_call head_call mapper None c = Some (Inr t, ?c)"
    by (simp add: OrderedCombinedIterator_Next_def oc_call_at_def)
  from that(2) [OF this t_in 2(7) _ left] ok show ?thesis by (simp add: oc_ok_def)
qed

lemma ordered_head_spec:
  assumes "oc_ok c" and "oc_lastHead c = None"
  obtains c' where "OrderedCombinedIterator_Head next_call head_call mapper None c =
      Some (Inl (OcIter ErrIteratorDone), c')" "left_tuples c = {}"
  | t c' where "OrderedCombinedIterator_Head next_call head_call mapper None c = Some (Inr t, c')"
      "t \<in> left_tuples c" "\<forall>u \<in> left_tuples c. mapper t \<le> mapper u"
proof (cases rule: oc_head_spec [OF assms(1)])
  case (1 p')
  with assms show ?thesis by (intro that(1)) (simp_all add: OrderedCombinedIterator_Head_def)
next
  case (2 p' k it t xs)
  from head_item [OF 2(4)] obtain it' where it': "head_call None it = Some (Inr t, it')" by blast
  have "Some it \<in> set p'" using 2(2,3) by (metis nth_mem)
  with 2(4,6) have "t \<in> left_tuples c" by (force simp: tuples_of_def)
  with 2 it' assms show ?thesis
    by (intro that(2)) (simp_all add: OrderedCombinedIterator_Head_def oc_call_at_def)
qed

text \<open>Draining the merge yields every key once, in ascending order.\<close>

lemma ordered_drain:
  assumes "oc_ok c"
  shows "\<exists>ts. drain (OrderedCombinedIterator_Next next_call head_call mapper) None c =
      Some (ts, OcIter ErrIteratorDone) \<and> set ts \<subseteq> left_tuples c \<and>
      map mapper ts = sorted_list_of_set (mapper ` left_tuples c)"
  using assms
proof (induction "card (mapper ` left_tuples c)" arbitrary: c rule: less_induct)
  case less
  have fin: "finite (left_tuples c)" by (simp add: left_tuples_def finite_tuples_of)
  show ?case
  proof (cases rule: ordered_next_spec [OF less.prems])
    case (1 c')
    then show ?thesis by (subst drain.simps) auto
  next
    case (2 t c')
    have keys: "mapper ` left_tuples c = insert (mapper t) (mapper ` left_tuples c')"
    proof (intro equalityI subsetI)
      fix k assume "k \<in> mapper ` left_tuples c"
      then obtain u where u: "u \<in> left_tuples c" "k = mapper u" by blast
      then show "k \<in> insert (mapper t) (mapper ` left_tuples c')"
        using 2(3) unfolding 2(5) by (cases "mapper t = mapper u") (auto simp: order.strict_iff_order)
    qed (use 2(2) in \<open>auto simp: 2(5)\<close>)
    have new: "mapper t \<notin> mapper ` left_tuples c'" unfolding 2(5) by auto
    have fin': "finite (mapper ` left_tuples c')" unfolding 2(5) using fin by (intro finite_imageI) simp
    have "card (mapper ` left_tuples c') < card (mapper ` left_tuples c)"
      unfolding keys card_insert_disjoint [OF fin' new] by simp
    from less.hyps [OF this 2(4)] obtain ts where ts:
      "drain (OrderedCombinedIterator_Next next_call head_call mapper) None c' =
        Some (ts, OcIter ErrIteratorDone)" "set ts \<subseteq> left_tuples c'"
      "map mapper ts = sorted_list_of_set (mapper ` left_tuples c')" by blast
    have "sorted_list_of_set (mapper ` left_tuples c) = mapper t # map mapper ts"
    proof -
      have less: "\<forall>k \<in> mapper ` left_tuples c'. mapper t < k" unfolding 2(5) by auto
      have "set (map mapper ts) = mapper ` left_tuples c'"
        using fin' unfolding ts(3) by simp
      with less have "insort (mapper t) (map mapper ts) = mapper t # map mapper ts"
        by (intro insort_is_Cons) (simp add: less_imp_le)
      with fin' new show ?thesis unfolding keys by (simp add: ts(3))
    qed
    moreover have "set (t # ts) \<subseteq> left_tuples c" using 2(2) ts(2) unfolding 2(5) by auto
    ultimately show ?thesis
      by (subst drain.simps) (simp add: 2(1) ts(1))
  qed
qed

end

section \<open>The iterators of the code\<close>

interpretation static: iterator StaticIterator_Next StaticIterator_Head si_items
    "\<lambda>_. ErrIteratorDone"
  by unfold_locales (auto simp: StaticIterator_Next_def StaticIterator_Head_def)

text \<open>The mappers over a static iterator; \<open>f\<close> is the function each of them maps with.\<close>

interpretation mapped_static: mapped_iterator StaticIterator_Next StaticIterator_Head si_items
    "\<lambda>_. ErrIteratorDone" f
  for f :: "'a \<Rightarrow> ('e iter_err, 'b) result"
  by unfold_locales

lemma mapped_items_Inr [simp]: "mapped_items (\<lambda>x. Inr (f x)) xs = map f xs"
  by (induction xs) auto

lemma mapped_fin_Inr [simp]: "mapped_fin (\<lambda>x. Inr (f x)) e xs = e"
  by (induction xs) auto

interpretation filtered_keys: filtered_iterator "tupleKeyIterator_Next StaticIterator_Next"
    "tupleKeyIterator_Head StaticIterator_Head" "\<lambda>t. map tup_key (si_items (wi_inner t))"
    "\<lambda>_. ErrIteratorDone" flt
  for flt
  using mapped_static.mapped.iterator_axioms [of "\<lambda>t. Inr (tup_key t)"]
  by (simp add: filtered_iterator_def tupleKeyIterator_Next_def tupleKeyIterator_Head_def)

interpretation checked_keys: condition_iterator
    "filteredTupleKeyIterator_Next (tupleKeyIterator_Next StaticIterator_Next) flt"
    "filteredTupleKeyIterator_Head (tupleKeyIterator_Next StaticIterator_Next)
       (tupleKeyIterator_Head StaticIterator_Head) flt"
    "\<lambda>f. filter flt (map tup_key (si_items (wi_inner (wi_inner f))))" "\<lambda>_. ErrIteratorDone" cond
  for flt cond
  unfolding condition_iterator_def by (rule filtered_keys.filtered.iterator_axioms)

interpretation combined_static: iterator_list StaticIterator_Next StaticIterator_Head si_items
    "\<lambda>_. ErrIteratorDone"
  by unfold_locales

interpretation merged_static: ordered_iterator StaticIterator_Next StaticIterator_Head si_items
    "\<lambda>_. ErrIteratorDone" mapper
  for mapper
  by unfold_locales

lemma cond_items_filter:
  assumes "\<forall>x \<in> set xs. \<forall>e. flt x = Inl e \<longrightarrow> \<not> is_fatal e"
  shows "cond_items flt xs = filter (\<lambda>x. flt x = Inr True) xs"
  using assms by (induction xs) (auto split: sum.splits)

fun cond_errors :: "('a \<Rightarrow> ('e iter_err, bool) result) \<Rightarrow> 'a list \<Rightarrow> 'e iter_err list" where
  "cond_errors flt [] = []"
| "cond_errors flt (x # xs) = (case flt x of Inl e \<Rightarrow> e # cond_errors flt xs | Inr _ \<Rightarrow> cond_errors flt xs)"

lemma cond_fin_errors:
  assumes "\<forall>x \<in> set xs. \<forall>e. flt x = Inl e \<longrightarrow> \<not> is_fatal e"
  shows "cond_fin flt ErrIteratorDone v le xs =
    (if v \<or> (\<exists>x \<in> set xs. flt x = Inr True) \<or> (le = None \<and> cond_errors flt xs = []) then ErrIteratorDone
     else if cond_errors flt xs = [] then the le else List.last (cond_errors flt xs))"
  using assms
  by (induction xs arbitrary: v le) (auto split: sum.splits)



text \<open>
  Looking at the head of the checker's stack of iterators returns what the next call returns,
  and loses no tuple: draining after the look yields the same tuples and error.
\<close>

theorem checked_keys_head:
  assumes "ConditionsFiltered_Head
      (filteredTupleKeyIterator_Next (tupleKeyIterator_Next StaticIterator_Next) valid)
      (filteredTupleKeyIterator_Head (tupleKeyIterator_Next StaticIterator_Next)
        (tupleKeyIterator_Head StaticIterator_Head) valid) cond None it = Some (r, it')"
  shows "(\<exists>it''. ConditionsFiltered_Next
        (filteredTupleKeyIterator_Next (tupleKeyIterator_Next StaticIterator_Next) valid) cond None it' =
      Some (r, it'')) \<and>
    drain (ConditionsFiltered_Next
        (filteredTupleKeyIterator_Next (tupleKeyIterator_Next StaticIterator_Next) valid) cond) None it' =
    drain (ConditionsFiltered_Next
        (filteredTupleKeyIterator_Next (tupleKeyIterator_Next StaticIterator_Next) valid) cond) None it"
  using checked_keys.conditions.head_then_next [OF assms] by blast

lemma checked_keys_head_witness:
  "\<exists>r it'. ConditionsFiltered_Head
      (filteredTupleKeyIterator_Next (tupleKeyIterator_Next StaticIterator_Next) (\<lambda>_. True))
      (filteredTupleKeyIterator_Head (tupleKeyIterator_Next StaticIterator_Next)
        (tupleKeyIterator_Head StaticIterator_Head) (\<lambda>_. True)) (\<lambda>_. Inr True) (None :: unit ctx)
      (NewConditionsFiltered (wrap_iter (wrap_iter (NewStaticIterator
        [\<lparr>tup_key = NewTupleKey ''doc:1'' ''viewer'' ''user:a'', tup_timestamp = 0\<rparr>])))) = Some (r, it') \<and>
    (\<exists>it''. ConditionsFiltered_Next
      (filteredTupleKeyIterator_Next (tupleKeyIterator_Next StaticIterator_Next) (\<lambda>_. True))
      (\<lambda>_. Inr True) (None :: unit ctx) it' = Some (r, it''))"
proof -
  let ?s = "NewConditionsFiltered (wrap_iter (wrap_iter (NewStaticIterator
        [\<lparr>tup_key = NewTupleKey ''doc:1'' ''viewer'' ''user:a'', tup_timestamp = 0\<rparr>])))"
  obtain r it' where h: "ConditionsFiltered_Head
      (filteredTupleKeyIterator_Next (tupleKeyIterator_Next StaticIterator_Next) (\<lambda>_. True))
      (filteredTupleKeyIterator_Head (tupleKeyIterator_Next StaticIterator_Next)
        (tupleKeyIterator_Head StaticIterator_Head) (\<lambda>_. True)) (\<lambda>_. Inr True) (None :: unit ctx) ?s = Some (r, it')"
    using checked_keys.cond_head_loop by blast
  from checked_keys_head [OF h] h show ?thesis by blast
qed

text \<open>
  A combined iterator yields all elements of its iterators in turn, an absent iterator
  counting for none, and ends with \<open>ErrIteratorDone\<close>.
\<close>

theorem combined_drain:
  "drain (combinedIterator_Next StaticIterator_Next) None
      (NewCombinedIterator (map (map_option NewStaticIterator) iters)) =
    Some (concat (map (\<lambda>i. case i of None \<Rightarrow> [] | Some xs \<Rightarrow> xs) iters), ErrIteratorDone :: 'e iter_err)"
proof -
  have "comb_fin (\<lambda>_. ErrIteratorDone) p = (ErrIteratorDone :: 'e iter_err)" for p :: "'a static_iter list"
    by (induction p) simp_all
  moreover have "comb_items si_items (\<lambda>_. ErrIteratorDone :: 'e iter_err)
      (map the (filter (\<lambda>i. i \<noteq> None) (map (map_option NewStaticIterator) iters))) =
    concat (map (\<lambda>i. case i of None \<Rightarrow> [] | Some xs \<Rightarrow> xs) iters)"
    by (induction iters) (auto simp: NewStaticIterator_def)
  ultimately show ?thesis
    by (subst combined_static.combined.drain_items) (simp add: NewCombinedIterator_def del: not_None_eq)
qed

text \<open>
  C20: Merging tuple lists that are each sorted by the mapper's key, an
  \<open>OrderedCombinedIterator\<close> yields tuples of the lists whose keys are in strictly ascending order
  and are exactly the keys of the lists: every key once, none lost.
\<close>

theorem ordered_merge_drain:
  assumes "\<forall>ts \<in> set tss. sorted (map mapper ts)"
  shows "\<exists>ts. drain (OrderedCombinedIterator_Next StaticIterator_Next StaticIterator_Head mapper) None
      (NewOrderedCombinedIterator isOrdered (map (\<lambda>ts. Some (NewStaticIterator ts)) tss)) =
      Some (ts, OcIter ErrIteratorDone) \<and>
    set ts \<subseteq> \<Union> (set ` set tss) \<and> map mapper ts = sorted_list_of_set (mapper ` \<Union> (set ` set tss))"
proof -
  let ?c = "NewOrderedCombinedIterator isOrdered (map (\<lambda>ts. Some (NewStaticIterator ts)) tss)"
  have "merged_static.left_tuples mapper ?c = \<Union> (set ` set tss)"
    by (force simp: merged_static.left_tuples_def merged_static.tuples_of_def Let_def
        NewOrderedCombinedIterator_def NewStaticIterator_def)
  moreover have "\<exists>ts. drain (OrderedCombinedIterator_Next StaticIterator_Next StaticIterator_Head mapper)
      None ?c = Some (ts, OcIter ErrIteratorDone) \<and> set ts \<subseteq> merged_static.left_tuples mapper ?c \<and>
      map mapper ts = sorted_list_of_set (mapper ` merged_static.left_tuples mapper ?c)"
    using assms by (intro merged_static.ordered_drain) (auto simp: merged_static.oc_ok_def
        merged_static.it_ok_def Let_def NewOrderedCombinedIterator_def NewStaticIterator_def)
  ultimately show ?thesis by simp
qed

lemma ordered_merge_drain_witness:
  "\<exists>ts. drain (OrderedCombinedIterator_Next StaticIterator_Next StaticIterator_Head UserMapper) (None :: unit ctx)
      (NewOrderedCombinedIterator (\<lambda>_. True) (map (\<lambda>ts. Some (NewStaticIterator ts))
        [[\<lparr>tup_key = NewTupleKey ''d:1'' ''r'' ''u:a'', tup_timestamp = 0\<rparr>,
          \<lparr>tup_key = NewTupleKey ''d:1'' ''r'' ''u:b'', tup_timestamp = 0\<rparr>],
         [\<lparr>tup_key = NewTupleKey ''d:2'' ''r'' ''u:b'', tup_timestamp = 0\<rparr>]])) =
      Some (ts, OcIter ErrIteratorDone) \<and> map UserMapper ts = [''u:a'', ''u:b'']"
proof -
  let ?tss = "[[\<lparr>tup_key = NewTupleKey ''d:1'' ''r'' ''u:a'', tup_timestamp = 0\<rparr>,
      \<lparr>tup_key = NewTupleKey ''d:1'' ''r'' ''u:b'', tup_timestamp = 0\<rparr>],
     [\<lparr>tup_key = NewTupleKey ''d:2'' ''r'' ''u:b'', tup_timestamp = 0\<rparr>]]"
  have "\<forall>ts \<in> set ?tss. sorted (map UserMapper ts)"
    by (simp add: UserMapper_def NewTupleKey_def less_eq_char_def list_le_def)
  then have "\<exists>ts. drain (OrderedCombinedIterator_Next StaticIterator_Next StaticIterator_Head UserMapper)
      (None :: unit ctx)
      (NewOrderedCombinedIterator (\<lambda>_. True) (map (\<lambda>ts. Some (NewStaticIterator ts)) ?tss)) =
        Some (ts, OcIter ErrIteratorDone) \<and> set ts \<subseteq> \<Union> (set ` set ?tss) \<and>
      map UserMapper ts = sorted_list_of_set (UserMapper ` \<Union> (set ` set ?tss))"
    by (rule ordered_merge_drain)
  moreover have "UserMapper ` \<Union> (set ` set ?tss) = {''u:a'', ''u:b''}"
    by (auto simp: UserMapper_def NewTupleKey_def)
  moreover have "sorted_list_of_set {''u:a'', ''u:b''} = [''u:a'', ''u:b'']"
    by (simp add: less_eq_char_def list_le_def)
  ultimately show ?thesis by metis
qed

end
