(* ===== verification/Type_System.thy ===== *)
theory Type_System
  imports Tuple_Key "HOL-Library.AList"
begin

text \<open>
  The type system of an authorization model: the data of \<open>pkg/typesystem/typesystem.go\<close> and its
  queries. A Go map is an association list with distinct keys, in the order in which a \<open>range\<close>
  over it visits the keys; looking a key up is \<open>map_of\<close>. The two graphs of a model are built by the
  module \<open>github.com/openfga/language\<close>; their type is the variable \<open>'g\<close>, and building them and
  asking them for a path are parameters.
\<close>

section \<open>The model\<close>

text \<open>
  A userset rewrite. \<open>Userset_Unset\<close> is a nil rewrite or one whose oneof is not set. A nil
  message inside a union or intersection has no children and inside a difference no base, and
  a nil tuple-to-userset message is \<open>None\<close>.
\<close>

record tuple_to_userset =
  ttu_tupleset :: string
  ttu_computed :: string

datatype userset =
    Userset_Unset
  | Userset_This
  | Userset_ComputedUserset string
  | Userset_TupleToUserset "tuple_to_userset option"
  | Userset_Union "userset list"
  | Userset_Intersection "userset list"
  | Userset_Difference userset userset

definition ttu_GetTupleset :: "tuple_to_userset option \<Rightarrow> string" where
  "ttu_GetTupleset x = (case x of None \<Rightarrow> [] | Some t \<Rightarrow> ttu_tupleset t)"

definition ttu_GetComputed :: "tuple_to_userset option \<Rightarrow> string" where
  "ttu_GetComputed x = (case x of None \<Rightarrow> [] | Some t \<Rightarrow> ttu_computed t)"

text \<open>The oneof of a relation reference; \<open>RR_Wildcard False\<close> holds a nil wildcard message.\<close>

datatype relation_or_wildcard = RR_Relation string | RR_Wildcard bool

record relation_reference =
  rr_type :: string
  rr_relationOrWildcard :: "relation_or_wildcard option"
  rr_condition :: string

definition rr_GetRelation :: "relation_reference \<Rightarrow> string" where
  "rr_GetRelation r = (case rr_relationOrWildcard r of Some (RR_Relation x) \<Rightarrow> x | _ \<Rightarrow> [])"

definition rr_HasWildcard :: "relation_reference \<Rightarrow> bool" where
  "rr_HasWildcard r \<longleftrightarrow> rr_relationOrWildcard r = Some (RR_Wildcard True)"

text \<open>A relation of the type system; the type info is \<open>None\<close> for a nil message.\<close>

record relation =
  rel_name :: string
  rel_rewrite :: userset
  rel_typeInfo :: "relation_reference list option"

definition rel_DirectlyRelatedUserTypes :: "relation \<Rightarrow> relation_reference list" where
  "rel_DirectlyRelatedUserTypes r = (case rel_typeInfo r of None \<Rightarrow> [] | Some ts \<Rightarrow> ts)"

record type_definition =
  td_type :: string
  td_relations :: "(string \<times> userset) list"
  td_metadata :: "(string \<times> relation_reference list) list"

text \<open>
  A condition: its name, the names and types of its parameters (in the order of one \<open>range\<close>
  over the map), and its expression.
\<close>

datatype param_type_name =
    TYPE_NAME_UNSPECIFIED | TYPE_NAME_ANY | TYPE_NAME_BOOL | TYPE_NAME_STRING | TYPE_NAME_INT
  | TYPE_NAME_UINT | TYPE_NAME_DOUBLE | TYPE_NAME_DURATION | TYPE_NAME_TIMESTAMP | TYPE_NAME_MAP
  | TYPE_NAME_LIST | TYPE_NAME_IPADDRESS

datatype param_type_ref = TypeRef (ref_TypeName: param_type_name) (ref_GenericTypes: "param_type_ref list")

record condition =
  c_name :: string
  c_params :: "(string \<times> param_type_ref) list"
  c_expression :: string

record authorization_model =
  am_id :: string
  am_schemaVersion :: string
  am_typeDefinitions :: "type_definition list"
  am_conditions :: "(string \<times> condition) list"

text \<open>Constructors of \<open>typesystem.go\<close>; \<open>This\<close> and its siblings are the datatype's own.\<close>

definition This :: userset where
  "This = Userset_This"

definition ComputedUserset :: "string \<Rightarrow> userset" where
  "ComputedUserset relation = Userset_ComputedUserset relation"

definition TupleToUserset :: "string \<Rightarrow> string \<Rightarrow> userset" where
  "TupleToUserset tupleset computedUserset =
     Userset_TupleToUserset (Some \<lparr>ttu_tupleset = tupleset, ttu_computed = computedUserset\<rparr>)"

definition Union :: "userset list \<Rightarrow> userset" where
  "Union children = Userset_Union children"

definition Intersection :: "userset list \<Rightarrow> userset" where
  "Intersection children = Userset_Intersection children"

definition Difference :: "userset \<Rightarrow> userset \<Rightarrow> userset" where
  "Difference base sub = Userset_Difference base sub"

definition DirectRelationReference :: "string \<Rightarrow> string \<Rightarrow> relation_reference" where
  "DirectRelationReference objectType relation =
     \<lparr>rr_type = objectType,
      rr_relationOrWildcard = (if relation \<noteq> [] then Some (RR_Relation relation) else None),
      rr_condition = []\<rparr>"

definition WildcardRelationReference :: "string \<Rightarrow> relation_reference" where
  "WildcardRelationReference objectType =
     \<lparr>rr_type = objectType, rr_relationOrWildcard = Some (RR_Wildcard True), rr_condition = []\<rparr>"

definition ConditionedRelationReference :: "relation_reference \<Rightarrow> string \<Rightarrow> relation_reference" where
  "ConditionedRelationReference rel cond = rel\<lparr>rr_condition := cond\<rparr>"

definition SchemaVersion1_1 :: string where "SchemaVersion1_1 = ''1.1''"

definition SchemaVersion1_2 :: string where "SchemaVersion1_2 = ''1.2''"

definition IsSchemaVersionSupported :: "string \<Rightarrow> bool" where
  "IsSchemaVersionSupported version \<longleftrightarrow> version = SchemaVersion1_1 \<or> version = SchemaVersion1_2"

section \<open>Errors\<close>

text \<open>
  The last two are not error values: the code panics, or a bound of the model is used up.
\<close>

datatype ts_cause =
    ErrReservedKeywords | ErrInvalidUsersetRewrite | ErrNoEntrypoints | ErrNoEntryPointsLoop
  | ErrCycle

datatype ts_error =
    ErrInvalidSchemaVersion
  | ErrDuplicateTypes
  | ObjectTypeUndefinedError string
  | RelationUndefinedError string string
  | InvalidTypeError string ts_cause
  | InvalidRelationError string string ts_cause
  | RelationConditionError string string
  | AssignableRelationError string string
  | NonAssignableRelationError string string
  | InvalidRelationTypeError string string string string
  | EmptyRelationReferenceError string string string
  | EmptyTypeName
  | EmptyRelationName string
  | TuplesetNotDirect string string
  | ComputedNotInTuplesetTypes string
  | UndefinedTypeDefinition string string
  | TooFewChildren string string
  | UnknownRewrite string string
  | InvalidTuplesetRestriction string string string string
  | UnsupportedRewrite
  | UnexpectedRewriteType
  | ConditionKeyMismatch string string
  | ConditionCompileError string
  | GraphError string
  | RuntimePanic
  | OutOfFuel

section \<open>The type system\<close>

record type_system =
  ts_typeDefinitions :: "(string \<times> type_definition) list"
  ts_relations :: "(string \<times> (string \<times> relation) list) list"
  ts_conditions :: "(string \<times> condition) list"
  ts_ttuRelations :: "(string \<times> (string \<times> tuple_to_userset list) list) list"
  ts_computedRelations :: "(string \<times> string) list"
  ts_modelID :: string
  ts_schemaVersion :: string

fun flattenUserset :: "userset \<Rightarrow> tuple_to_userset list" where
  "flattenUserset (Userset_TupleToUserset x) = (case x of Some t \<Rightarrow> [t] | None \<Rightarrow> [])"
| "flattenUserset (Userset_Union cs) = concat (map flattenUserset cs)"
| "flattenUserset (Userset_Intersection cs) = concat (map flattenUserset cs)"
| "flattenUserset (Userset_Difference b s) = flattenUserset b @ flattenUserset s"
| "flattenUserset _ = []"

definition newRelation :: "type_definition \<Rightarrow> string \<Rightarrow> userset \<Rightarrow> relation" where
  "newRelation td relation rewrite =
     \<lparr>rel_name = relation, rel_rewrite = rewrite,
      rel_typeInfo = Some (case map_of (td_metadata td) relation of None \<Rightarrow> [] | Some refs \<Rightarrow> refs)\<rparr>"

definition newWithoutGraphs :: "authorization_model \<Rightarrow> type_system" where
  "newWithoutGraphs model =
     (let tds = am_typeDefinitions model in
      \<lparr>ts_typeDefinitions = fold (\<lambda>td. AList.update (td_type td) td) tds [],
       ts_relations = fold (\<lambda>td. AList.update (td_type td)
         (map (\<lambda>(relation, rewrite). (relation, newRelation td relation rewrite)) (td_relations td))) tds [],
       ts_conditions = am_conditions model,
       ts_ttuRelations = fold (\<lambda>td. AList.update (td_type td)
         (map (\<lambda>(relation, rewrite). (relation, flattenUserset rewrite)) (td_relations td))) tds [],
       ts_computedRelations = [],
       ts_modelID = am_id model,
       ts_schemaVersion = am_schemaVersion model\<rparr>)"

text \<open>
  The graph builders of the language module are the parameter \<open>build\<close>; an error of the
  authorization model graph is its \<open>Inl\<close>, and the weighted graph's is dropped inside it. A type
  system with its graphs is the pair of the two.
\<close>

definition attachGraphs :: "(authorization_model \<Rightarrow> (ts_error, 'g) result) \<Rightarrow> authorization_model \<Rightarrow>
    type_system \<Rightarrow> (ts_error, type_system \<times> 'g) result" where
  "attachGraphs build model t = (case build model of Inl e \<Rightarrow> Inl e | Inr g \<Rightarrow> Inr (t, g))"

definition TypeSystem_New :: "(authorization_model \<Rightarrow> (ts_error, 'g) result) \<Rightarrow> authorization_model \<Rightarrow>
    (ts_error, type_system \<times> 'g) result" where
  "TypeSystem_New build model = attachGraphs build model (newWithoutGraphs model)"

section \<open>Looking types and relations up\<close>

definition GetTypeDefinition :: "type_system \<Rightarrow> string \<Rightarrow> type_definition option" where
  "GetTypeDefinition t objectType = map_of (ts_typeDefinitions t) objectType"

definition TypeSystem_GetRelations :: "type_system \<Rightarrow> string \<Rightarrow>
    (ts_error, (string \<times> relation) list) result" where
  "TypeSystem_GetRelations t objectType =
     (case GetTypeDefinition t objectType of None \<Rightarrow> Inl (ObjectTypeUndefinedError objectType)
      | Some _ \<Rightarrow> Inr (case map_of (ts_relations t) objectType of None \<Rightarrow> [] | Some rs \<Rightarrow> rs))"

definition TypeSystem_GetRelation :: "type_system \<Rightarrow> string \<Rightarrow> string \<Rightarrow> (ts_error, relation) result" where
  "TypeSystem_GetRelation t objectType relation =
     (case TypeSystem_GetRelations t objectType of Inl e \<Rightarrow> Inl e
      | Inr relations \<Rightarrow> (case map_of relations relation of
          None \<Rightarrow> Inl (RelationUndefinedError objectType relation) | Some r \<Rightarrow> Inr r))"

definition GetCondition :: "type_system \<Rightarrow> string \<Rightarrow> condition option" where
  "GetCondition t name = map_of (ts_conditions t) name"

text \<open>A relation reference as text; \<open>None\<close> as the outer value where the code panics.\<close>

definition GetRelationReferenceAsString :: "relation_reference option \<Rightarrow> string option" where
  "GetRelationReferenceAsString rr = (case rr of None \<Rightarrow> Some []
     | Some r \<Rightarrow> (case rr_relationOrWildcard r of
          Some (RR_Relation rel) \<Rightarrow> Some (rr_type r @ ''#'' @ rel)
        | Some (RR_Wildcard _) \<Rightarrow> Some (TypedPublicWildcard (rr_type r))
        | None \<Rightarrow> None))"

definition GetDirectlyRelatedUserTypes :: "type_system \<Rightarrow> string \<Rightarrow> string \<Rightarrow>
    (ts_error, relation_reference list) result" where
  "GetDirectlyRelatedUserTypes t objectType relation =
     (case TypeSystem_GetRelation t objectType relation of Inl e \<Rightarrow> Inl e
      | Inr r \<Rightarrow> Inr (rel_DirectlyRelatedUserTypes r))"

definition DirectlyRelatedUsersets :: "type_system \<Rightarrow> string \<Rightarrow> string \<Rightarrow>
    (ts_error, relation_reference list) result" where
  "DirectlyRelatedUsersets t objectType relation =
     (case GetDirectlyRelatedUserTypes t objectType relation of Inl e \<Rightarrow> Inl e
      | Inr refs \<Rightarrow> Inr (filter (\<lambda>ref. rr_GetRelation ref \<noteq> []) refs))"

definition RelationEquals :: "relation_reference \<Rightarrow> relation_reference \<Rightarrow> bool" where
  "RelationEquals a b =
     (if rr_type a \<noteq> rr_type b then False
      else if rr_relationOrWildcard a = None \<and> rr_relationOrWildcard b = None then True
      else if rr_HasWildcard a \<and> rr_HasWildcard b then True
      else rr_GetRelation a \<noteq> [] \<and> rr_GetRelation b \<noteq> [] \<and> rr_GetRelation a = rr_GetRelation b)"

definition IsDirectlyRelated :: "type_system \<Rightarrow> relation_reference \<Rightarrow> relation_reference \<Rightarrow>
    (ts_error, bool) result" where
  "IsDirectlyRelated t target source =
     (case TypeSystem_GetRelation t (rr_type target) (rr_GetRelation target) of Inl e \<Rightarrow> Inl e
      | Inr relation \<Rightarrow> Inr (\<exists>r \<in> set (rel_DirectlyRelatedUserTypes relation). RelationEquals source r))"

definition PubliclyAssignableReferences :: "type_system \<Rightarrow> relation_reference \<Rightarrow> string \<Rightarrow>
    (ts_error, relation_reference option) result" where
  "PubliclyAssignableReferences t target objectType =
     (case TypeSystem_GetRelation t (rr_type target) (rr_GetRelation target) of Inl e \<Rightarrow> Inl e
      | Inr relation \<Rightarrow> Inr (List.find (\<lambda>r. rr_type r = objectType \<and> rr_HasWildcard r)
          (rel_DirectlyRelatedUserTypes relation)))"

definition IsPubliclyAssignable :: "type_system \<Rightarrow> relation_reference \<Rightarrow> string \<Rightarrow>
    (ts_error, bool) result" where
  "IsPubliclyAssignable t target objectType =
     (case PubliclyAssignableReferences t target objectType of Inl e \<Rightarrow> Inl e
      | Inr ref \<Rightarrow> Inr (ref \<noteq> None))"

definition HasTypeInfo :: "type_system \<Rightarrow> string \<Rightarrow> string \<Rightarrow> (ts_error, bool) result" where
  "HasTypeInfo t objectType relation =
     (case TypeSystem_GetRelation t objectType relation of Inl e \<Rightarrow> Inl e
      | Inr r \<Rightarrow> Inr (IsSchemaVersionSupported (ts_schemaVersion t) \<and> rel_typeInfo r \<noteq> None))"

definition IsTuplesetRelation :: "type_system \<Rightarrow> string \<Rightarrow> string \<Rightarrow> (ts_error, bool) result" where
  "IsTuplesetRelation t objectType relation =
     (case TypeSystem_GetRelation t objectType relation of Inl e \<Rightarrow> Inl e
      | Inr _ \<Rightarrow> Inr (\<exists>(_, ttuDefinitions) \<in> set (case map_of (ts_ttuRelations t) objectType of
            None \<Rightarrow> [] | Some m \<Rightarrow> m).
          \<exists>ttuDef \<in> set ttuDefinitions. ttu_tupleset ttuDef = relation))"

text \<open>
  Whether the user's type reaches a relation in the authorization model graph: first as it is,
  then as a typed wildcard, whose absence from the graph is no error. \<open>paths\<close> is the graph's own
  \<open>PathExists\<close>.
\<close>

definition PathExists :: "('g \<Rightarrow> string \<Rightarrow> string \<Rightarrow> (ts_error, bool) result) \<Rightarrow> 'g \<Rightarrow> string \<Rightarrow> string \<Rightarrow>
    string \<Rightarrow> (ts_error, bool) result" where
  "PathExists paths g user relation objectType =
     (let (userType, _, userRelation) = ToUserParts user;
          isUserset = userRelation \<noteq> [];
          fromLabel = (if isUserset then ToObjectRelationString userType userRelation else userType);
          toLabel = ToObjectRelationString objectType relation
      in case paths g fromLabel toLabel of Inl e \<Rightarrow> Inl e
         | Inr True \<Rightarrow> Inr True
         | Inr False \<Rightarrow>
             if isUserset then Inr False
             else (case paths g (TypedPublicWildcard userType) toLabel of
                 Inl _ \<Rightarrow> Inr False | Inr b \<Rightarrow> Inr b))"

section \<open>Resolving a computed relation\<close>

text \<open>
  The state is the memo table of the type system; a chain of computed relations that never ends
  is \<open>None\<close>.
\<close>

definition memoizeKey :: "string \<Rightarrow> string \<Rightarrow> string" where
  "memoizeKey objectType relation = objectType @ ''-'' @ relation"

partial_function (option) ResolveComputedRelation :: "type_system \<Rightarrow> string \<Rightarrow> string \<Rightarrow>
    ((ts_error, string) result \<times> type_system) option" where
  "ResolveComputedRelation t objectType relation =
     (case map_of (ts_computedRelations t) (memoizeKey objectType relation) of
        Some val \<Rightarrow> Some (Inr val, t)
      | None \<Rightarrow> (case TypeSystem_GetRelation t objectType relation of
          Inl e \<Rightarrow> Some (Inl e, t)
        | Inr rel \<Rightarrow> (case rel_rewrite rel of
            Userset_ComputedUserset c \<Rightarrow> ResolveComputedRelation t objectType c
          | Userset_This \<Rightarrow> Some (Inr relation, t\<lparr>ts_computedRelations :=
              AList.update (memoizeKey objectType relation) relation (ts_computedRelations t)\<rparr>)
          | _ \<Rightarrow> Some (Inl UnsupportedRewrite, t))))"

section \<open>Walking a rewrite\<close>

text \<open>
  The handler may keep state. A node without children is handed to it twice when the first
  answer is nil, as in the code; a nil rewrite is an error after the handler has seen it.
\<close>

definition walk_leaf :: "(userset \<Rightarrow> 's \<Rightarrow> 'r option \<times> 's) \<Rightarrow> userset \<Rightarrow> 's \<Rightarrow>
    (ts_error, 'r option) result \<times> 's" where
  "walk_leaf h rw s = (case h rw s of (Some r, s1) \<Rightarrow> (Inr (Some r), s1)
     | (None, s1) \<Rightarrow> (case h rw s1 of (r, s2) \<Rightarrow> (Inr r, s2)))"

fun WalkUsersetRewrite :: "(userset \<Rightarrow> 's \<Rightarrow> 'r option \<times> 's) \<Rightarrow> userset \<Rightarrow> 's \<Rightarrow>
    (ts_error, 'r option) result \<times> 's"
and walk_children :: "(userset \<Rightarrow> 's \<Rightarrow> 'r option \<times> 's) \<Rightarrow> userset list \<Rightarrow> 's \<Rightarrow>
    (ts_error, 'r option) result \<times> 's" where
  "WalkUsersetRewrite h Userset_Unset s =
     (case h Userset_Unset s of (Some r, s1) \<Rightarrow> (Inr (Some r), s1)
      | (None, s1) \<Rightarrow> (Inl UnexpectedRewriteType, s1))"
| "WalkUsersetRewrite h Userset_This s = walk_leaf h Userset_This s"
| "WalkUsersetRewrite h (Userset_ComputedUserset c) s = walk_leaf h (Userset_ComputedUserset c) s"
| "WalkUsersetRewrite h (Userset_TupleToUserset x) s = walk_leaf h (Userset_TupleToUserset x) s"
| "WalkUsersetRewrite h (Userset_Union cs) s =
     (case h (Userset_Union cs) s of (Some r, s1) \<Rightarrow> (Inr (Some r), s1)
      | (None, s1) \<Rightarrow> walk_children h cs s1)"
| "WalkUsersetRewrite h (Userset_Intersection cs) s =
     (case h (Userset_Intersection cs) s of (Some r, s1) \<Rightarrow> (Inr (Some r), s1)
      | (None, s1) \<Rightarrow> walk_children h cs s1)"
| "WalkUsersetRewrite h (Userset_Difference b x) s =
     (case h (Userset_Difference b x) s of (Some r, s1) \<Rightarrow> (Inr (Some r), s1)
      | (None, s1) \<Rightarrow> (case WalkUsersetRewrite h b s1 of
          (Inl e, s2) \<Rightarrow> (Inl e, s2)
        | (Inr (Some r), s2) \<Rightarrow> (Inr (Some r), s2)
        | (Inr None, s2) \<Rightarrow> WalkUsersetRewrite h x s2))"
| "walk_children h [] s = (Inr None, s)"
| "walk_children h (c # cs) s =
     (case WalkUsersetRewrite h c s of
        (Inl e, s1) \<Rightarrow> (Inl e, s1)
      | (Inr (Some r), s1) \<Rightarrow> (Inr (Some r), s1)
      | (Inr None, s1) \<Rightarrow> walk_children h cs s1)"

text \<open>Whether a rewrite has a direct part; \<open>None\<close> where the code panics.\<close>

definition contains_self_handler :: "userset \<Rightarrow> unit \<Rightarrow> bool option \<times> unit" where
  "contains_self_handler r s = (if r = Userset_This then Some True else None, s)"

definition RewriteContainsSelf :: "userset \<Rightarrow> bool option" where
  "RewriteContainsSelf rewrite =
     (case fst (WalkUsersetRewrite contains_self_handler rewrite ()) of
        Inl _ \<Rightarrow> None | Inr result \<Rightarrow> Some (result = Some True))"

definition IsDirectlyAssignable :: "relation \<Rightarrow> bool option" where
  "IsDirectlyAssignable relation = RewriteContainsSelf (rel_rewrite relation)"

section \<open>Whether a relation involves an operator\<close>

text \<open>
  The recursion of \<open>relationInvolves\<close> is bounded by fuel, one unit for each nested call; a call
  marks a relation as visited first, so one more than the number of relations is enough. The
  result of the handler is a bool or an error, and a type assertion to bool on an error panics.
\<close>

datatype set_operator = intersectionSetOperator | exclusionSetOperator

datatype involves_error = Involves_Err ts_error | Involves_Panic | Involves_OutOfFuel

datatype handler_result = HR_Bool bool | HR_Err involves_error

fun involves_ttu_loop :: "(string \<Rightarrow> string \<Rightarrow> string set \<Rightarrow> (involves_error, bool) result \<times> string set) \<Rightarrow>
    type_system \<Rightarrow> string \<Rightarrow> string \<Rightarrow> string \<Rightarrow> relation_reference list \<Rightarrow> string set \<Rightarrow>
    handler_result option \<times> string set" where
  "involves_ttu_loop involves t objectType tupleset rewrittenRelation [] visited = (None, visited)"
| "involves_ttu_loop involves t objectType tupleset rewrittenRelation (relatedType # rest) visited =
     (if rr_GetRelation relatedType \<noteq> [] then
        (Some (HR_Err (Involves_Err (InvalidTuplesetRestriction (rr_type relatedType)
           (rr_GetRelation relatedType) objectType tupleset))), visited)
      else (case TypeSystem_GetRelation t (rr_type relatedType) rewrittenRelation of
          Inl _ \<Rightarrow> involves_ttu_loop involves t objectType tupleset rewrittenRelation rest visited
        | Inr rel \<Rightarrow> (case involves (rr_type relatedType) (rel_name rel) visited of
            (Inl err, v) \<Rightarrow> (Some (HR_Err err), v)
          | (Inr True, v) \<Rightarrow> (Some (HR_Bool True), v)
          | (Inr False, v) \<Rightarrow>
              involves_ttu_loop involves t objectType tupleset rewrittenRelation rest v)))"

definition involves_handler :: "(string \<Rightarrow> string \<Rightarrow> string set \<Rightarrow> (involves_error, bool) result \<times> string set) \<Rightarrow>
    type_system \<Rightarrow> string \<Rightarrow> set_operator \<Rightarrow> userset \<Rightarrow> string set \<Rightarrow> handler_result option \<times> string set" where
  "involves_handler involves t objectType target r visited =
     (case r of
        Userset_ComputedUserset rewrittenRelation \<Rightarrow>
          (case TypeSystem_GetRelation t objectType rewrittenRelation of
             Inl err \<Rightarrow> (Some (HR_Err (Involves_Err err)), visited)
           | Inr rewritten \<Rightarrow> (case involves objectType (rel_name rewritten) visited of
               (Inl err, v) \<Rightarrow> (Some (HR_Err err), v)
             | (Inr True, v) \<Rightarrow> (Some (HR_Bool True), v)
             | (Inr False, v) \<Rightarrow> (None, v)))
      | Userset_TupleToUserset x \<Rightarrow>
          (case TypeSystem_GetRelation t objectType (ttu_GetTupleset x) of
             Inl err \<Rightarrow> (Some (HR_Err (Involves_Err err)), visited)
           | Inr tuplesetRel \<Rightarrow> involves_ttu_loop involves t objectType (ttu_GetTupleset x)
               (ttu_GetComputed x) (rel_DirectlyRelatedUserTypes tuplesetRel) visited)
      | Userset_Intersection _ \<Rightarrow> (Some (HR_Bool (target = intersectionSetOperator)), visited)
      | Userset_Difference _ _ \<Rightarrow> (Some (HR_Bool (target = exclusionSetOperator)), visited)
      | _ \<Rightarrow> (None, visited))"

fun involves_restrictions :: "(string \<Rightarrow> string \<Rightarrow> string set \<Rightarrow> (involves_error, bool) result \<times> string set) \<Rightarrow>
    relation_reference list \<Rightarrow> string set \<Rightarrow> (involves_error, bool) result \<times> string set" where
  "involves_restrictions involves [] visited = (Inr False, visited)"
| "involves_restrictions involves (r # rest) visited =
     (if rr_GetRelation r \<noteq> [] \<and> ToObjectRelationString (rr_type r) (rr_GetRelation r) \<notin> visited then
        (case involves (rr_type r) (rr_GetRelation r) visited of
           (Inl err, v) \<Rightarrow> (Inl err, v)
         | (Inr True, v) \<Rightarrow> (Inr True, v)
         | (Inr False, v) \<Rightarrow> involves_restrictions involves rest v)
      else involves_restrictions involves rest visited)"

fun relationInvolves :: "nat \<Rightarrow> type_system \<Rightarrow> set_operator \<Rightarrow> string \<Rightarrow> string \<Rightarrow> string set \<Rightarrow>
    (involves_error, bool) result \<times> string set" where
  "relationInvolves 0 t target objectType relation visited = (Inl Involves_OutOfFuel, visited)"
| "relationInvolves (Suc fuel) t target objectType relation visited =
     (let key = ToObjectRelationString objectType relation in
      if key \<in> visited then (Inr False, visited)
      else (let v0 = insert key visited; involves = relationInvolves fuel t target in
        case TypeSystem_GetRelation t objectType relation of
          Inl err \<Rightarrow> (Inl (Involves_Err err), v0)
        | Inr rel \<Rightarrow>
            (case WalkUsersetRewrite (involves_handler involves t objectType target) (rel_rewrite rel) v0 of
               (Inl err, v1) \<Rightarrow> (Inl (Involves_Err err), v1)
             | (Inr (Some (HR_Bool True)), v1) \<Rightarrow> (Inr True, v1)
             | (Inr (Some (HR_Err e)), v1) \<Rightarrow>
                 (Inl (if e = Involves_OutOfFuel then Involves_OutOfFuel else Involves_Panic), v1)
             | (Inr _, v1) \<Rightarrow> involves_restrictions involves (rel_DirectlyRelatedUserTypes rel) v1)))"

definition relation_count :: "type_system \<Rightarrow> nat" where
  "relation_count t = sum_list (map (\<lambda>(_, rs). length rs) (ts_relations t))"

definition RelationInvolvesIntersection :: "type_system \<Rightarrow> string \<Rightarrow> string \<Rightarrow> (involves_error, bool) result" where
  "RelationInvolvesIntersection t objectType relation =
     fst (relationInvolves (Suc (relation_count t)) t intersectionSetOperator objectType relation {})"

definition RelationInvolvesExclusion :: "type_system \<Rightarrow> string \<Rightarrow> string \<Rightarrow> (involves_error, bool) result" where
  "RelationInvolvesExclusion t objectType relation =
     fst (relationInvolves (Suc (relation_count t)) t exclusionSetOperator objectType relation {})"

section \<open>Lemmas\<close>

subsection \<open>The walk visits nodes in preorder\<close>

fun rewrite_nodes :: "userset \<Rightarrow> userset list" where
  "rewrite_nodes (Userset_Union cs) = Userset_Union cs # concat (map rewrite_nodes cs)"
| "rewrite_nodes (Userset_Intersection cs) = Userset_Intersection cs # concat (map rewrite_nodes cs)"
| "rewrite_nodes (Userset_Difference b s) = Userset_Difference b s # rewrite_nodes b @ rewrite_nodes s"
| "rewrite_nodes x = [x]"

text \<open>A handler without state: the first answer in preorder, or an error at the first nil node.\<close>

fun first_answer :: "(userset \<Rightarrow> 'r option) \<Rightarrow> userset list \<Rightarrow> (ts_error, 'r option) result" where
  "first_answer h [] = Inr None"
| "first_answer h (n # ns) = (case h n of Some r \<Rightarrow> Inr (Some r)
     | None \<Rightarrow> if n = Userset_Unset then Inl UnexpectedRewriteType else first_answer h ns)"

lemma first_answer_append:
  "first_answer h (xs @ ys) = (case first_answer h xs of Inr None \<Rightarrow> first_answer h ys | r \<Rightarrow> r)"
  by (induction xs) (auto split: option.splits)

lemma walk_children_pure:
  assumes "\<forall>c \<in> set cs. \<forall>s :: 's.
      WalkUsersetRewrite (\<lambda>r s. (h r, s)) c s = (first_answer h (rewrite_nodes c), s)"
  shows "walk_children (\<lambda>r s. (h r, s)) cs (s :: 's) =
    (first_answer h (concat (map rewrite_nodes cs)), s)"
  using assms
  by (induction cs) (auto simp: first_answer_append split: option.split sum.split)

lemma walk_pure:
  "WalkUsersetRewrite (\<lambda>r s. (h r, s)) rw s = (first_answer h (rewrite_nodes rw), s)"
  by (induction rw arbitrary: s)
    (auto simp: walk_leaf_def first_answer_append walk_children_pure split: option.split sum.split)

lemma first_answer_no_nil:
  assumes "Userset_Unset \<notin> set ns"
  shows "first_answer h ns = Inr (Option.bind (List.find (\<lambda>n. h n \<noteq> None) ns) h)"
  using assms by (induction ns) (auto split: option.splits)

lemma RewriteContainsSelf_nodes:
  assumes "Userset_Unset \<notin> set (rewrite_nodes rw)"
  shows "RewriteContainsSelf rw = Some (Userset_This \<in> set (rewrite_nodes rw))"
proof -
  let ?h = "\<lambda>r. if r = Userset_This then Some True else None"
  have "contains_self_handler = (\<lambda>r s. (?h r, s))"
    by (simp add: contains_self_handler_def fun_eq_iff)
  then have "WalkUsersetRewrite contains_self_handler rw () = (first_answer ?h (rewrite_nodes rw), ())"
    using walk_pure [of ?h rw "()"] by simp
  moreover have "List.find (\<lambda>n. ?h n \<noteq> None) ns = (if Userset_This \<in> set ns then Some Userset_This else None)"
    for ns by (induction ns) auto
  ultimately show ?thesis
    using assms by (simp add: RewriteContainsSelf_def first_answer_no_nil)
qed

text \<open>With a handler that has state: what every call keeps, the walk keeps.\<close>

lemma walk_children_keeps:
  assumes "\<forall>c \<in> set cs. \<forall>s. R s \<longrightarrow> R (snd (WalkUsersetRewrite h c s)) \<and>
      (\<forall>r. fst (WalkUsersetRewrite h c s) = Inr (Some r) \<longrightarrow> Q r)" and "R s"
  shows "R (snd (walk_children h cs s)) \<and> (\<forall>r. fst (walk_children h cs s) = Inr (Some r) \<longrightarrow> Q r)"
  using assms
proof (induction cs arbitrary: s)
  case (Cons c cs)
  have "R (snd (WalkUsersetRewrite h c s)) \<and> (\<forall>r. fst (WalkUsersetRewrite h c s) = Inr (Some r) \<longrightarrow> Q r)"
    using Cons.prems by simp
  with Cons.IH [of "snd (WalkUsersetRewrite h c s)"] Cons.prems(1) show ?case
    by (auto split: prod.split sum.split option.split)
qed simp

lemma walk_keeps:
  assumes "\<And>n s. n \<in> set (rewrite_nodes rw) \<Longrightarrow> R s \<Longrightarrow>
      R (snd (h n s)) \<and> (\<forall>r. fst (h n s) = Some r \<longrightarrow> Q r)" and "R s"
  shows "R (snd (WalkUsersetRewrite h rw s)) \<and> (\<forall>r. fst (WalkUsersetRewrite h rw s) = Inr (Some r) \<longrightarrow> Q r)"
proof -
  define ok where "ok n \<longleftrightarrow> (\<forall>s. R s \<longrightarrow> R (snd (h n s)) \<and> (\<forall>r. fst (h n s) = Some r \<longrightarrow> Q r))" for n
  have leaf: "R (snd (walk_leaf h n s)) \<and> (\<forall>r. fst (walk_leaf h n s) = Inr (Some r) \<longrightarrow> Q r)"
    if "R s" "ok n" for n s
  proof -
    from that have 1: "R (snd (h n s))" "\<forall>r. fst (h n s) = Some r \<longrightarrow> Q r" by (auto simp: ok_def)
    from 1(1) that(2) have "R (snd (h n (snd (h n s))))" "\<forall>r. fst (h n (snd (h n s))) = Some r \<longrightarrow> Q r"
      by (auto simp: ok_def)
    with 1 show ?thesis by (auto simp: walk_leaf_def split: prod.split option.split)
  qed
  have "\<forall>n \<in> set (rewrite_nodes rw). ok n" using assms(1) by (simp add: ok_def)
  with assms(2) show ?thesis
  proof (induction rw arbitrary: s)
    case Userset_Unset
    then show ?case by (auto simp: ok_def split: prod.split option.split)
  next
    case (Userset_Union cs)
    have "R (snd (walk_children h cs s)) \<and> (\<forall>r. fst (walk_children h cs s) = Inr (Some r) \<longrightarrow> Q r)"
      if "R s" for s
      using Userset_Union that by (intro walk_children_keeps) auto
    with Userset_Union.prems show ?case
      by (auto simp: ok_def split: prod.split option.split)
  next
    case (Userset_Intersection cs)
    have "R (snd (walk_children h cs s)) \<and> (\<forall>r. fst (walk_children h cs s) = Inr (Some r) \<longrightarrow> Q r)"
      if "R s" for s
      using Userset_Intersection that by (intro walk_children_keeps) auto
    with Userset_Intersection.prems show ?case
      by (auto simp: ok_def split: prod.split option.split)
  next
    case (Userset_Difference b x)
    let ?s1 = "snd (h (Userset_Difference b x) s)"
    have 1: "R ?s1" "\<forall>r. fst (h (Userset_Difference b x) s) = Some r \<longrightarrow> Q r"
      using Userset_Difference.prems by (auto simp: ok_def)
    note b = Userset_Difference.IH(1) [OF 1(1)]
    have 2: "R (snd (WalkUsersetRewrite h b ?s1))" using b Userset_Difference.prems by simp
    from 1 b Userset_Difference.IH(2) [OF 2] Userset_Difference.prems show ?case
      by (auto split: prod.split sum.split option.split)
  qed (simp_all add: leaf)
qed

subsection \<open>Building the type system\<close>

lemma map_of_fold_update:
  "map_of (fold (\<lambda>x. AList.update (k x) (f x)) xs al) = map_of al ++ map_of (rev (map (\<lambda>x. (k x, f x)) xs))"
  by (induction xs arbitrary: al) (auto simp: update_conv' map_add_def fun_eq_iff split: option.split)

lemma map_of_map_pair: "map_of (map (\<lambda>(k, v). (k, f k v)) xs) k = map_option (f k) (map_of xs k)"
  by (induction xs) auto

text \<open>The definition of a type that counts is the last one of that name.\<close>

definition model_type :: "authorization_model \<Rightarrow> string \<Rightarrow> type_definition option" where
  "model_type model objectType =
     map_of (rev (map (\<lambda>td. (td_type td, td)) (am_typeDefinitions model))) objectType"

definition model_rewrite :: "authorization_model \<Rightarrow> string \<Rightarrow> string \<Rightarrow> userset option" where
  "model_rewrite model objectType relation =
     Option.bind (model_type model objectType) (\<lambda>td. map_of (td_relations td) relation)"

lemma model_type_map:
  "map_of (rev (map (\<lambda>td. (td_type td, f td)) (am_typeDefinitions model))) objectType =
    map_option f (model_type model objectType)"
proof -
  have "map_of (map (\<lambda>x. (k x, f x)) xs) y = map_option f (map_of (map (\<lambda>x. (k x, x)) xs) y)" for k xs y
    by (induction xs) auto
  from this [of td_type "rev (am_typeDefinitions model)"] show ?thesis
    by (simp add: model_type_def rev_map)
qed

lemma GetTypeDefinition_new: "GetTypeDefinition (newWithoutGraphs model) objectType = model_type model objectType"
  by (simp add: GetTypeDefinition_def newWithoutGraphs_def Let_def map_of_fold_update model_type_def)

lemma relations_new: "map_of (ts_relations (newWithoutGraphs model)) objectType =
    map_option (\<lambda>td. map (\<lambda>(r, rw). (r, newRelation td r rw)) (td_relations td)) (model_type model objectType)"
  by (simp add: newWithoutGraphs_def Let_def map_of_fold_update model_type_map)

lemma ttuRelations_new: "map_of (ts_ttuRelations (newWithoutGraphs model)) objectType =
    map_option (\<lambda>td. map (\<lambda>(r, rw). (r, flattenUserset rw)) (td_relations td)) (model_type model objectType)"
  by (simp add: newWithoutGraphs_def Let_def map_of_fold_update model_type_map)

lemma GetRelation_new:
  "TypeSystem_GetRelation (newWithoutGraphs model) objectType relation =
    (case model_type model objectType of None \<Rightarrow> Inl (ObjectTypeUndefinedError objectType)
     | Some td \<Rightarrow> (case map_of (td_relations td) relation of
         None \<Rightarrow> Inl (RelationUndefinedError objectType relation)
       | Some rw \<Rightarrow> Inr (newRelation td relation rw)))"
  by (simp add: TypeSystem_GetRelation_def TypeSystem_GetRelations_def GetTypeDefinition_new
      relations_new map_of_map_pair split: option.split)

lemma GetRelation_new_name:
  "TypeSystem_GetRelation (newWithoutGraphs model) objectType relation = Inr r \<Longrightarrow> rel_name r = relation"
  by (auto simp: GetRelation_new newRelation_def split: option.splits)

lemma GetRelation_new_rewrite:
  "TypeSystem_GetRelation (newWithoutGraphs model) objectType relation = Inr r \<Longrightarrow>
    model_rewrite model objectType relation = Some (rel_rewrite r)"
  by (auto simp: GetRelation_new newRelation_def model_rewrite_def split: option.splits)

subsection \<open>Involving an operator\<close>

definition is_operator :: "set_operator \<Rightarrow> userset \<Rightarrow> bool" where
  "is_operator target n \<longleftrightarrow> (case target of
     intersectionSetOperator \<Rightarrow> (\<exists>cs. n = Userset_Intersection cs)
   | exclusionSetOperator \<Rightarrow> (\<exists>b s. n = Userset_Difference b s))"

text \<open>What the query means: an operator in the rewrite or in one it leads to.\<close>

inductive involves :: "type_system \<Rightarrow> set_operator \<Rightarrow> string \<Rightarrow> string \<Rightarrow> bool"
  for t target where
  involves_here: "TypeSystem_GetRelation t ot rel = Inr r \<Longrightarrow> n \<in> set (rewrite_nodes (rel_rewrite r)) \<Longrightarrow>
    is_operator target n \<Longrightarrow> involves t target ot rel"
| involves_computed: "TypeSystem_GetRelation t ot rel = Inr r \<Longrightarrow>
    Userset_ComputedUserset c \<in> set (rewrite_nodes (rel_rewrite r)) \<Longrightarrow>
    involves t target ot c \<Longrightarrow> involves t target ot rel"
| involves_ttu: "TypeSystem_GetRelation t ot rel = Inr r \<Longrightarrow>
    Userset_TupleToUserset x \<in> set (rewrite_nodes (rel_rewrite r)) \<Longrightarrow>
    TypeSystem_GetRelation t ot (ttu_GetTupleset x) = Inr ts \<Longrightarrow>
    ref \<in> set (rel_DirectlyRelatedUserTypes ts) \<Longrightarrow>
    involves t target (rr_type ref) (ttu_GetComputed x) \<Longrightarrow> involves t target ot rel"
| involves_restriction: "TypeSystem_GetRelation t ot rel = Inr r \<Longrightarrow>
    ref \<in> set (rel_DirectlyRelatedUserTypes r) \<Longrightarrow> rr_GetRelation ref \<noteq> [] \<Longrightarrow>
    involves t target (rr_type ref) (rr_GetRelation ref) \<Longrightarrow> involves t target ot rel"

text \<open>What a nested call guarantees: it keeps the visited relations, has fuel, and is sound.\<close>

definition call_ok :: "type_system \<Rightarrow> set_operator \<Rightarrow> string set \<Rightarrow>
    (string \<Rightarrow> string \<Rightarrow> string set \<Rightarrow> (involves_error, bool) result \<times> string set) \<Rightarrow> bool" where
  "call_ok t target V f \<longleftrightarrow> (\<forall>ot rel v. V \<subseteq> v \<longrightarrow> V \<subseteq> snd (f ot rel v) \<and>
     fst (f ot rel v) \<noteq> Inl Involves_OutOfFuel \<and> (fst (f ot rel v) = Inr True \<longrightarrow> involves t target ot rel))"

lemma call_okD:
  assumes "call_ok t target V f" and "V \<subseteq> v" and "f ot rel v = (res, v')"
  shows "V \<subseteq> v'" and "res \<noteq> Inl Involves_OutOfFuel" and "res = Inr True \<Longrightarrow> involves t target ot rel"
  using assms unfolding call_ok_def by (metis fst_conv snd_conv)+

lemma ttu_loop_ok:
  assumes ok: "call_ok t target V f" and names: "\<And>ot rel r. TypeSystem_GetRelation t ot rel = Inr r \<Longrightarrow> rel_name r = rel"
    and "V \<subseteq> v"
  shows "V \<subseteq> snd (involves_ttu_loop f t ot tupleset c refs v) \<and>
    (\<forall>r. fst (involves_ttu_loop f t ot tupleset c refs v) = Some r \<longrightarrow> r \<noteq> HR_Err Involves_OutOfFuel \<and>
      (r = HR_Bool True \<longrightarrow> (\<exists>ref \<in> set refs. involves t target (rr_type ref) c)))"
  using assms(3)
proof (induction refs arbitrary: v)
  case (Cons ref refs)
  show ?case
  proof (cases "TypeSystem_GetRelation t (rr_type ref) c")
    case (Inl e)
    with Cons show ?thesis by auto
  next
    case (Inr r)
    obtain res v' where f: "f (rr_type ref) c v = (res, v')" by (cases "f (rr_type ref) c v")
    from Inr names [OF Inr] call_okD [OF ok Cons.prems f] f Cons.IH [of v'] Cons.prems show ?thesis
      by (auto split: sum.split bool.split)
  qed
qed simp

lemma handler_ok:
  assumes ok: "call_ok t target V f"
    and names: "\<And>ot rel r. TypeSystem_GetRelation t ot rel = Inr r \<Longrightarrow> rel_name r = rel"
    and rel: "TypeSystem_GetRelation t ot rel = Inr r" and n: "n \<in> set (rewrite_nodes (rel_rewrite r))"
    and v: "V \<subseteq> v"
  shows "V \<subseteq> snd (involves_handler f t ot target n v) \<and>
    (\<forall>r. fst (involves_handler f t ot target n v) = Some r \<longrightarrow> r \<noteq> HR_Err Involves_OutOfFuel \<and>
      (r = HR_Bool True \<longrightarrow> involves t target ot rel))"
proof (cases n)
  case (Userset_ComputedUserset c)
  show ?thesis
  proof (cases "TypeSystem_GetRelation t ot c")
    case (Inr r')
    obtain res v' where f: "f ot c v = (res, v')" by (cases "f ot c v")
    from call_okD [OF ok v f] f Inr names [OF Inr] Userset_ComputedUserset n rel show ?thesis
      by (auto simp: involves_handler_def intro: involves_computed split: sum.split bool.split)
  qed (use v Userset_ComputedUserset in \<open>simp add: involves_handler_def\<close>)
next
  case (Userset_TupleToUserset x)
  show ?thesis
  proof (cases "TypeSystem_GetRelation t ot (ttu_GetTupleset x)")
    case (Inr ts)
    let ?loop = "involves_ttu_loop f t ot (ttu_GetTupleset x) (ttu_GetComputed x)
      (rel_DirectlyRelatedUserTypes ts) v"
    have loop: "V \<subseteq> snd ?loop \<and> (\<forall>r. fst ?loop = Some r \<longrightarrow> r \<noteq> HR_Err Involves_OutOfFuel \<and>
      (r = HR_Bool True \<longrightarrow> (\<exists>ref \<in> set (rel_DirectlyRelatedUserTypes ts).
        involves t target (rr_type ref) (ttu_GetComputed x))))"
      by (rule ttu_loop_ok [OF ok names v])
    have "involves_handler f t ot target n v = ?loop"
      using Inr Userset_TupleToUserset by (simp add: involves_handler_def)
    with loop Inr rel n show ?thesis
      unfolding Userset_TupleToUserset by (metis involves_ttu)
  qed (use v Userset_TupleToUserset in \<open>simp add: involves_handler_def\<close>)
qed (use v n rel in \<open>auto simp: involves_handler_def is_operator_def intro: involves_here\<close>)

lemma restrictions_ok:
  assumes ok: "call_ok t target V f" and "V \<subseteq> v"
  shows "V \<subseteq> snd (involves_restrictions f refs v) \<and>
    fst (involves_restrictions f refs v) \<noteq> Inl Involves_OutOfFuel \<and>
    (fst (involves_restrictions f refs v) = Inr True \<longrightarrow>
      (\<exists>ref \<in> set refs. rr_GetRelation ref \<noteq> [] \<and> involves t target (rr_type ref) (rr_GetRelation ref)))"
  using assms(2)
proof (induction refs arbitrary: v)
  case (Cons ref refs)
  obtain res v' where f: "f (rr_type ref) (rr_GetRelation ref) v = (res, v')"
    by (cases "f (rr_type ref) (rr_GetRelation ref) v")
  from call_okD [OF ok Cons.prems f] f Cons.IH [of v] Cons.IH [of v'] Cons.prems show ?case
    by (auto split: sum.split bool.split)
qed simp

definition defined_keys :: "type_system \<Rightarrow> string set" where
  "defined_keys t = {ToObjectRelationString ot rel | ot rel. \<exists>r. TypeSystem_GetRelation t ot rel = Inr r}"

lemma defined_keys_card: "finite (defined_keys t) \<and> card (defined_keys t) \<le> relation_count t"
proof -
  let ?l = "concat (map (\<lambda>(ot, rs). map (\<lambda>(rel, _). ToObjectRelationString ot rel) rs) (ts_relations t))"
  have "defined_keys t \<subseteq> set ?l"
  proof
    fix k assume "k \<in> defined_keys t"
    then obtain ot rel r where k: "k = ToObjectRelationString ot rel"
      "TypeSystem_GetRelation t ot rel = Inr r" by (auto simp: defined_keys_def)
    then obtain rs where "map_of (ts_relations t) ot = Some rs" "map_of rs rel = Some r"
      by (auto simp: TypeSystem_GetRelation_def TypeSystem_GetRelations_def split: option.splits)
    then have "(ot, rs) \<in> set (ts_relations t)" "(rel, r) \<in> set rs" by (auto dest: map_of_SomeD)
    then have "k \<in> set (map (\<lambda>(rel, _). ToObjectRelationString ot rel) rs)"
      unfolding set_map using k(1) by (intro rev_image_eqI [of "(rel, r)"]) simp_all
    moreover from \<open>(ot, rs) \<in> set (ts_relations t)\<close>
    have "map (\<lambda>(rel, _). ToObjectRelationString ot rel) rs \<in>
        set (map (\<lambda>(ot, rs). map (\<lambda>(rel, _). ToObjectRelationString ot rel) rs) (ts_relations t))"
      unfolding set_map by (intro rev_image_eqI [of "(ot, rs)"]) simp_all
    ultimately show "k \<in> set ?l" unfolding set_concat by (intro UN_I)
  qed
  moreover have "length ?l = relation_count t"
    by (simp add: relation_count_def length_concat comp_def case_prod_unfold)
  moreover have "card (set ?l) \<le> length ?l" by (rule card_length)
  ultimately show ?thesis
    using card_mono [OF finite_set, of "defined_keys t" ?l] finite_subset [OF _ finite_set, of "defined_keys t" ?l]
    by linarith
qed

lemma relationInvolves_ok:
  assumes names: "\<And>ot rel r. TypeSystem_GetRelation t ot rel = Inr r \<Longrightarrow> rel_name r = rel"
    and "card (defined_keys t - v) < fuel"
  shows "v \<subseteq> snd (relationInvolves fuel t target ot rel v) \<and>
    fst (relationInvolves fuel t target ot rel v) \<noteq> Inl Involves_OutOfFuel \<and>
    (fst (relationInvolves fuel t target ot rel v) = Inr True \<longrightarrow> involves t target ot rel)"
  using assms(2)
proof (induction fuel arbitrary: ot rel v)
  case (Suc fuel)
  let ?key = "ToObjectRelationString ot rel" and ?f = "relationInvolves fuel t target"
  let ?v0 = "insert ?key v"
  show ?case
  proof (cases "?key \<in> v")
    case False
    show ?thesis
    proof (cases "TypeSystem_GetRelation t ot rel")
      case (Inr r)
      then have "?key \<in> defined_keys t" by (auto simp: defined_keys_def)
      with False have "card (defined_keys t - ?v0) < card (defined_keys t - v)"
        using defined_keys_card by (intro psubset_card_mono) auto
      with Suc.prems have less: "card (defined_keys t - ?v0) < fuel" by simp
      have ok: "call_ok t target ?v0 ?f" unfolding call_ok_def
      proof (intro allI impI)
        fix ot rel w assume w: "?v0 \<subseteq> w"
        then have "card (defined_keys t - w) \<le> card (defined_keys t - ?v0)"
          using defined_keys_card by (intro card_mono) auto
        with less have "card (defined_keys t - w) < fuel" by simp
        from Suc.IH [OF this] w show "?v0 \<subseteq> snd (?f ot rel w) \<and>
          fst (?f ot rel w) \<noteq> Inl Involves_OutOfFuel \<and>
          (fst (?f ot rel w) = Inr True \<longrightarrow> involves t target ot rel)" by blast
      qed
      obtain res v1 where walk:
        "WalkUsersetRewrite (involves_handler ?f t ot target) (rel_rewrite r) ?v0 = (res, v1)"
        by (cases "WalkUsersetRewrite (involves_handler ?f t ot target) (rel_rewrite r) ?v0")
      have "?v0 \<subseteq> snd (WalkUsersetRewrite (involves_handler ?f t ot target) (rel_rewrite r) ?v0) \<and>
        (\<forall>q. fst (WalkUsersetRewrite (involves_handler ?f t ot target) (rel_rewrite r) ?v0) = Inr (Some q) \<longrightarrow>
          q \<noteq> HR_Err Involves_OutOfFuel \<and> (q = HR_Bool True \<longrightarrow> involves t target ot rel))"
        by (rule walk_keeps) (use handler_ok [OF ok names Inr] in auto)
      with walk have v1: "?v0 \<subseteq> v1" "\<forall>q. res = Inr (Some q) \<longrightarrow>
        q \<noteq> HR_Err Involves_OutOfFuel \<and> (q = HR_Bool True \<longrightarrow> involves t target ot rel)" by auto
      from restrictions_ok [OF ok v1(1), of "rel_DirectlyRelatedUserTypes r"] v1 False Inr walk show ?thesis
        by (auto simp: Let_def intro: involves_restriction
            split: sum.split option.split handler_result.split bool.split)
    qed (use False in auto)
  qed simp
qed simp

lemma involves_new:
  "fst (relationInvolves (Suc (relation_count (newWithoutGraphs model))) (newWithoutGraphs model) target ot rel {})
     \<noteq> Inl Involves_OutOfFuel \<and>
   (fst (relationInvolves (Suc (relation_count (newWithoutGraphs model))) (newWithoutGraphs model) target ot rel {})
     = Inr True \<longrightarrow> involves (newWithoutGraphs model) target ot rel)"
proof -
  have "card (defined_keys (newWithoutGraphs model) - {}) < Suc (relation_count (newWithoutGraphs model))"
    using defined_keys_card [of "newWithoutGraphs model"] by simp
  from relationInvolves_ok [OF GetRelation_new_name this] show ?thesis by simp
qed

subsection \<open>Resolving computed relations\<close>

text \<open>The direct relation a chain of computed relations of one type ends in.\<close>

inductive resolves :: "type_system \<Rightarrow> string \<Rightarrow> string \<Rightarrow> string \<Rightarrow> bool" for t ot where
  resolves_direct: "TypeSystem_GetRelation t ot rel = Inr r \<Longrightarrow> rel_rewrite r = Userset_This \<Longrightarrow>
    resolves t ot rel rel"
| resolves_computed: "TypeSystem_GetRelation t ot rel = Inr r \<Longrightarrow> rel_rewrite r = Userset_ComputedUserset c \<Longrightarrow>
    resolves t ot c rel' \<Longrightarrow> resolves t ot rel rel'"

lemma resolves_complete:
  assumes "resolves t ot rel rel'" and "ts_computedRelations t = []"
  shows "ResolveComputedRelation t ot rel =
    Some (Inr rel', t\<lparr>ts_computedRelations := [(memoizeKey ot rel', rel')]\<rparr>)"
  using assms(1)
proof induction
  case (resolves_direct rel r)
  with assms(2) show ?case by (subst ResolveComputedRelation.simps) simp
next
  case (resolves_computed rel r c rel')
  with assms(2) show ?case by (subst ResolveComputedRelation.simps) simp
qed

lemma resolves_sound:
  assumes "ResolveComputedRelation t ot rel = Some res" and "ts_computedRelations t = []"
    and "fst res = Inr rel'"
  shows "resolves t ot rel rel'"
proof -
  have "ts_computedRelations t = [] \<longrightarrow> fst res = Inr rel' \<longrightarrow> resolves t ot rel rel'"
    by (rule ResolveComputedRelation.raw_induct [OF _ assms(1)])
      (auto split: sum.splits userset.splits intro: resolves.intros)
  with assms(2,3) show ?thesis by blast
qed

lemma flattenUserset_nodes:
  "Some ttu \<in> {x. Userset_TupleToUserset x \<in> set (rewrite_nodes rw)} \<longleftrightarrow> ttu \<in> set (flattenUserset rw)"
  by (induction rw) (auto split: option.splits)

lemma RelationEquals_iff: "RelationEquals a b \<longleftrightarrow> rr_type a = rr_type b \<and>
    rr_relationOrWildcard a = rr_relationOrWildcard b \<and>
    rr_relationOrWildcard a \<notin> {Some (RR_Relation []), Some (RR_Wildcard False)}"
  by (auto simp: RelationEquals_def rr_HasWildcard_def rr_GetRelation_def
      split: option.splits relation_or_wildcard.splits)

section \<open>Properties\<close>

text \<open>
  C24: The query for operators ends within its fuel on every model, and when it answers yes there
  is such an operator in the rewrite of the relation, or in a rewrite it leads to through computed
  relations, tuplesets and type restrictions.
\<close>

theorem relation_involves_sound:
  "RelationInvolvesIntersection (newWithoutGraphs model) ot rel \<noteq> Inl Involves_OutOfFuel \<and>
   RelationInvolvesExclusion (newWithoutGraphs model) ot rel \<noteq> Inl Involves_OutOfFuel \<and>
   (RelationInvolvesIntersection (newWithoutGraphs model) ot rel = Inr True \<longrightarrow>
     involves (newWithoutGraphs model) intersectionSetOperator ot rel) \<and>
   (RelationInvolvesExclusion (newWithoutGraphs model) ot rel = Inr True \<longrightarrow>
     involves (newWithoutGraphs model) exclusionSetOperator ot rel)"
  using involves_new [of model] unfolding RelationInvolvesIntersection_def RelationInvolvesExclusion_def
  by blast

definition sample_model :: authorization_model where
  "sample_model = \<lparr>am_id = ''01'', am_schemaVersion = ''1.1'',
     am_typeDefinitions =
       [\<lparr>td_type = ''user'', td_relations = [], td_metadata = []\<rparr>,
        \<lparr>td_type = ''doc'',
         td_relations = [(''blocked'', Userset_This), (''writer'', Userset_This),
           (''viewer'', Userset_Difference (Userset_ComputedUserset ''writer'')
              (Userset_ComputedUserset ''blocked'')),
           (''reader'', Userset_ComputedUserset ''writer''),
           (''both'', Userset_Intersection [Userset_ComputedUserset ''writer'',
              Userset_Difference (Userset_ComputedUserset ''writer'') (Userset_ComputedUserset ''blocked'')])],
         td_metadata = [(''blocked'', [DirectRelationReference ''user'' []]),
           (''writer'', [DirectRelationReference ''user'' []])]\<rparr>],
     am_conditions = []\<rparr>"

lemma relation_involves_sound_witness:
  "RelationInvolvesExclusion (newWithoutGraphs sample_model) ''doc'' ''viewer'' = Inr True \<and>
   involves (newWithoutGraphs sample_model) exclusionSetOperator ''doc'' ''viewer''"
proof -
  have "RelationInvolvesExclusion (newWithoutGraphs sample_model) ''doc'' ''viewer'' = Inr True"
    by code_simp
  with relation_involves_sound [of sample_model "''doc''" "''viewer''"] show ?thesis by blast
qed

text \<open>
  C33: An exclusion below an intersection is not found: on a relation that is an intersection and
  has no type restrictions the query for an exclusion answers no, also where one of the operands
  is an exclusion, so that the relation does involve one.
\<close>

theorem exclusion_below_intersection_missed:
  assumes "TypeSystem_GetRelation (newWithoutGraphs model) ot rel = Inr r"
    and "rel_rewrite r = Userset_Intersection cs" and "Userset_Difference b x \<in> set cs"
    and "rel_DirectlyRelatedUserTypes r = []"
  shows "RelationInvolvesExclusion (newWithoutGraphs model) ot rel = Inr False \<and>
    involves (newWithoutGraphs model) exclusionSetOperator ot rel"
proof
  show "RelationInvolvesExclusion (newWithoutGraphs model) ot rel = Inr False"
    using assms by (simp add: RelationInvolvesExclusion_def involves_handler_def Let_def)
  have "Userset_Difference b x \<in> set (rewrite_nodes (rel_rewrite r))"
    using assms(2,3) by force
  with assms(1) show "involves (newWithoutGraphs model) exclusionSetOperator ot rel"
    by (rule involves_here) (simp add: is_operator_def)
qed

lemma exclusion_below_intersection_missed_witness:
  "RelationInvolvesExclusion (newWithoutGraphs sample_model) ''doc'' ''both'' = Inr False \<and>
   involves (newWithoutGraphs sample_model) exclusionSetOperator ''doc'' ''both''"
proof -
  obtain r where r: "TypeSystem_GetRelation (newWithoutGraphs sample_model) ''doc'' ''both'' = Inr r"
    "rel_rewrite r = Userset_Intersection [Userset_ComputedUserset ''writer'',
       Userset_Difference (Userset_ComputedUserset ''writer'') (Userset_ComputedUserset ''blocked'')]"
    "rel_DirectlyRelatedUserTypes r = []"
    by (simp add: GetRelation_new model_type_def sample_model_def newRelation_def
        rel_DirectlyRelatedUserTypes_def)
  then show ?thesis
    by (intro exclusion_below_intersection_missed [where r = r]) auto
qed


text \<open>
  The keys of the memo table are ambiguous. Once a direct relation of one type is resolved,
  resolving a relation of another type whose key reads the same returns the first relation's
  name, whatever the second relation is.
\<close>

theorem memo_collision:
  assumes "resolves (newWithoutGraphs model) ot1 rel1 rel1"
    and "memoizeKey ot1 rel1 = memoizeKey ot2 rel2"
  shows "\<exists>t'. ResolveComputedRelation (newWithoutGraphs model) ot1 rel1 = Some (Inr rel1, t') \<and>
    ResolveComputedRelation t' ot2 rel2 = Some (Inr rel1, t')"
proof -
  have "ts_computedRelations (newWithoutGraphs model) = []"
    by (simp add: newWithoutGraphs_def Let_def)
  from resolves_complete [OF assms(1) this] show ?thesis
    using assms(2) by (subst (2) ResolveComputedRelation.simps) simp
qed

lemma memo_collision_witness:
  "\<exists>t'. ResolveComputedRelation (newWithoutGraphs \<lparr>am_id = ''01'', am_schemaVersion = ''1.1'',
      am_typeDefinitions =
        [\<lparr>td_type = ''a'', td_relations = [(''b-c'', Userset_This)], td_metadata = []\<rparr>,
         \<lparr>td_type = ''a-b'', td_relations = [(''c'', Userset_This)], td_metadata = []\<rparr>],
      am_conditions = []\<rparr>) ''a'' ''b-c'' = Some (Inr ''b-c'', t') \<and>
    ResolveComputedRelation t' ''a-b'' ''c'' = Some (Inr ''b-c'', t')"
  by (rule memo_collision, rule resolves_direct)
    ((simp add: GetRelation_new model_type_def newRelation_def)[1], simp, simp add: memoizeKey_def)

text \<open>
  A relation is reported as a tupleset relation exactly when it exists and some relation of
  its type has a tuple-to-userset with that tupleset anywhere in its rewrite.
\<close>

theorem tupleset_relation_iff:
  "IsTuplesetRelation (newWithoutGraphs model) ot rel = Inr True \<longleftrightarrow>
    model_rewrite model ot rel \<noteq> None \<and>
    (\<exists>td r rw ttu. model_type model ot = Some td \<and> (r, rw) \<in> set (td_relations td) \<and>
      Userset_TupleToUserset (Some ttu) \<in> set (rewrite_nodes rw) \<and> ttu_tupleset ttu = rel)"
proof (cases "model_type model ot")
  case (Some td)
  have "(\<exists>(_, ttuDefinitions) \<in> set (map (\<lambda>(r, rw). (r, flattenUserset rw)) (td_relations td)).
      \<exists>ttuDef \<in> set ttuDefinitions. ttu_tupleset ttuDef = rel) \<longleftrightarrow>
    (\<exists>r rw ttu. (r, rw) \<in> set (td_relations td) \<and>
      Userset_TupleToUserset (Some ttu) \<in> set (rewrite_nodes rw) \<and> ttu_tupleset ttu = rel)"
    using flattenUserset_nodes by fastforce
  with Some show ?thesis
    by (auto simp: IsTuplesetRelation_def GetRelation_new ttuRelations_new model_rewrite_def
        split: option.split)
qed (simp add: IsTuplesetRelation_def GetRelation_new model_rewrite_def)

end
