(* ===== verification/Model_Validation.thy ===== *)
theory Model_Validation
  imports Type_System "HOL-Library.List_Lexorder" "HOL-Library.Char_ord"
begin

text \<open>
  The validation of an authorization model (\<open>NewAndValidate\<close> of \<open>pkg/typesystem/typesystem.go\<close> and
  what it calls): names, rewrites, type restrictions, entrypoints, cycles and conditions.

  The visited relations of \<open>hasEntrypoints\<close> are a Go map of Go maps, cloned one level deep, so
  that clones share the inner maps; the inner maps are cells of a heap here, and an outer map
  holds their addresses.
\<close>

section \<open>Names, duplicate types and rewrites\<close>

fun duplicate_loop :: "string set \<Rightarrow> type_definition list \<Rightarrow> bool" where
  "duplicate_loop seen [] = False"
| "duplicate_loop seen (td # tds) =
     (if td_type td \<in> seen then True else duplicate_loop (insert (td_type td) seen) tds)"

definition containsDuplicateType :: "authorization_model \<Rightarrow> bool" where
  "containsDuplicateType model = duplicate_loop {} (am_typeDefinitions model)"

definition reserved :: "string \<Rightarrow> bool" where
  "reserved name \<longleftrightarrow> name = ''self'' \<or> name = ''this''"

definition validateNames :: "type_system \<Rightarrow> (ts_error, unit) result" where
  "validateNames t = for_each (\<lambda>(_, td).
     let objectType = td_type td in
     if objectType = [] then Inl EmptyTypeName
     else if reserved objectType then Inl (InvalidTypeError objectType ErrReservedKeywords)
     else for_each (\<lambda>(relation, _).
       if relation = [] then Inl (EmptyRelationName objectType)
       else if reserved relation then Inl (InvalidRelationError objectType relation ErrReservedKeywords)
       else Inr ()) (td_relations td)) (ts_typeDefinitions t)"

fun isUsersetRewriteValid :: "type_system \<Rightarrow> string \<Rightarrow> string \<Rightarrow> userset \<Rightarrow> (ts_error, unit) result" where
  "isUsersetRewriteValid t objectType relation Userset_Unset =
     Inl (InvalidRelationError objectType relation ErrInvalidUsersetRewrite)"
| "isUsersetRewriteValid t objectType relation Userset_This = Inr ()"
| "isUsersetRewriteValid t objectType relation (Userset_ComputedUserset computedUserset) =
     (if computedUserset = relation then Inl (InvalidRelationError objectType relation ErrInvalidUsersetRewrite)
      else if \<not> is_ok (TypeSystem_GetRelation t objectType computedUserset) then
        Inl (RelationUndefinedError objectType computedUserset)
      else Inr ())"
| "isUsersetRewriteValid t objectType relation (Userset_TupleToUserset x) =
     (case TypeSystem_GetRelation t objectType (ttu_GetTupleset x) of
        Inl _ \<Rightarrow> Inl (RelationUndefinedError objectType (ttu_GetTupleset x))
      | Inr tuplesetRelation \<Rightarrow>
          if rel_rewrite tuplesetRelation \<noteq> Userset_This then
            Inl (TuplesetNotDirect objectType (ttu_GetTupleset x))
          else if IsSchemaVersionSupported (ts_schemaVersion t) then
           (if \<exists>rr \<in> set (rel_DirectlyRelatedUserTypes tuplesetRelation).
                is_ok (TypeSystem_GetRelation t (rr_type rr) (ttu_GetComputed x))
            then Inr () else Inl (ComputedNotInTuplesetTypes (ttu_GetComputed x)))
          else if \<exists>(typeName, _) \<in> set (ts_relations t).
              is_ok (TypeSystem_GetRelation t typeName (ttu_GetComputed x))
          then Inr () else Inl (RelationUndefinedError [] (ttu_GetComputed x)))"
| "isUsersetRewriteValid t objectType relation (Userset_Union cs) =
     for_each (isUsersetRewriteValid t objectType relation) cs"
| "isUsersetRewriteValid t objectType relation (Userset_Intersection cs) =
     for_each (isUsersetRewriteValid t objectType relation) cs"
| "isUsersetRewriteValid t objectType relation (Userset_Difference b s) =
     rbind (isUsersetRewriteValid t objectType relation b)
       (\<lambda>_. isUsersetRewriteValid t objectType relation s)"

section \<open>Type restrictions\<close>

definition InlineExpressionName :: string where
  "InlineExpressionName = ''$expression''"

definition IsInlineExpression :: "string \<Rightarrow> bool" where
  "IsInlineExpression name \<longleftrightarrow> name = InlineExpressionName"

definition validateTypeRestriction :: "type_system \<Rightarrow> string \<Rightarrow> string \<Rightarrow> relation_reference \<Rightarrow>
    (ts_error, unit) result" where
  "validateTypeRestriction t objectType relationName related =
     (let relatedObjectType = rr_type related; relatedRelation = rr_GetRelation related;
          invalid = InvalidRelationTypeError objectType relationName relatedObjectType relatedRelation in
      if \<not> is_ok (TypeSystem_GetRelations t relatedObjectType) then Inl invalid
      else rbind
       (if rr_relationOrWildcard related \<noteq> None then
          (if IsTuplesetRelation t objectType relationName = Inr True then Inl invalid
           else if rr_HasWildcard related then Inr ()
           else if relatedRelation \<noteq> [] then
             (if is_ok (TypeSystem_GetRelation t relatedObjectType relatedRelation) then Inr () else Inl invalid)
           else Inl (EmptyRelationReferenceError objectType relationName relatedObjectType))
        else Inr ())
       (\<lambda>_. let condName = rr_condition related in
          if condName \<noteq> [] \<and> \<not> IsInlineExpression condName \<and> GetCondition t condName = None
          then Inl (RelationConditionError relationName condName) else Inr ()))"

definition validateTypeRestrictions :: "type_system \<Rightarrow> string \<Rightarrow> string \<Rightarrow> (ts_error, unit) result" where
  "validateTypeRestrictions t objectType relationName =
     (case TypeSystem_GetRelation t objectType relationName of Inl e \<Rightarrow> Inl e
      | Inr relation \<Rightarrow>
          (let relatedTypes = rel_DirectlyRelatedUserTypes relation in
           case IsDirectlyAssignable relation of None \<Rightarrow> Inl RuntimePanic
           | Some assignable \<Rightarrow>
               if assignable \<and> relatedTypes = [] then Inl (AssignableRelationError objectType relationName)
               else if \<not> assignable \<and> relatedTypes \<noteq> [] then
                 Inl (NonAssignableRelationError objectType relationName)
               else for_each (validateTypeRestriction t objectType relationName) relatedTypes))"

definition validateConditions :: "(condition \<Rightarrow> (string, unit) result) \<Rightarrow> type_system \<Rightarrow>
    (ts_error, unit) result" where
  "validateConditions compile t = for_each (\<lambda>(key, c).
     if key \<noteq> c_name c then Inl (ConditionKeyMismatch key (c_name c))
     else (case compile c of Inl e \<Rightarrow> Inl (ConditionCompileError e) | Inr _ \<Rightarrow> Inr ())) (ts_conditions t)"

section \<open>Cycles of computed relations\<close>

text \<open>
  A call marks the relation it is for in the set it is given; in the code that is the copy its
  caller made, and the only calls that share a copy are for the same relation.
\<close>

fun total_size :: "userset list \<Rightarrow> nat" where
  "total_size [] = 0"
| "total_size (c # cs) = Suc (3 * size c + total_size cs)"

lemma total_size_le: "total_size cs < 3 * (Suc (size_list size cs))"
  by (induction cs) auto

function (sequential) hasCycle :: "type_system \<Rightarrow> string \<Rightarrow> string \<Rightarrow> userset \<Rightarrow> string set \<Rightarrow>
    (ts_error, bool) result"
and hasCycle_children :: "type_system \<Rightarrow> string \<Rightarrow> string \<Rightarrow> userset list \<Rightarrow> string set \<Rightarrow>
    (ts_error, bool) result" where
  "hasCycle t objectType relationName rewrite visited =
     (let visited = insert (ToObjectRelationString objectType relationName) visited in
      case rewrite of
        Userset_This \<Rightarrow> Inr False
      | Userset_TupleToUserset _ \<Rightarrow> Inr False
      | Userset_ComputedUserset rewrittenRelation \<Rightarrow>
          if ToObjectRelationString objectType rewrittenRelation \<in> visited then Inr True
          else (case TypeSystem_GetRelation t objectType rewrittenRelation of Inl e \<Rightarrow> Inl e
            | Inr r \<Rightarrow> hasCycle t objectType rewrittenRelation (rel_rewrite r) visited)
      | Userset_Union cs \<Rightarrow> hasCycle_children t objectType relationName cs visited
      | Userset_Intersection cs \<Rightarrow> hasCycle_children t objectType relationName cs visited
      | Userset_Difference b s \<Rightarrow> hasCycle_children t objectType relationName [b, s] visited
      | Userset_Unset \<Rightarrow> Inr False)"
| "hasCycle_children t objectType relationName [] visited = Inr False"
| "hasCycle_children t objectType relationName (c # cs) visited =
     (case hasCycle t objectType relationName c visited of
        Inl e \<Rightarrow> Inl e
      | Inr True \<Rightarrow> Inr True
      | Inr False \<Rightarrow> hasCycle_children t objectType relationName cs visited)"
  by pat_completeness auto

termination
proof (relation "measures
    [\<lambda>x. case x of
        Inl (t, ot, rel, rw, v) \<Rightarrow> card (defined_keys t - insert (ToObjectRelationString ot rel) v)
      | Inr (t, ot, rel, cs, v) \<Rightarrow> card (defined_keys t - insert (ToObjectRelationString ot rel) v),
     \<lambda>x. case x of Inl (t, ot, rel, rw, v) \<Rightarrow> 3 * size rw | Inr (t, ot, rel, cs, v) \<Rightarrow> total_size cs]",
    goal_cases)
  case (2 t ot rel rw v v' c r)
  let ?key = "ToObjectRelationString ot"
  have "?key c \<in> defined_keys t - v'" using 2 by (auto simp: defined_keys_def)
  then have "card (defined_keys t - insert (?key c) v') < card (defined_keys t - v')"
    using defined_keys_card by (intro psubset_card_mono) auto
  with 2 show ?case by (simp add: insert_absorb)
qed (use total_size_le in \<open>auto simp: insert_absorb\<close>)

definition HasCycle :: "type_system \<Rightarrow> string \<Rightarrow> string \<Rightarrow> (ts_error, bool) result" where
  "HasCycle t objectType relationName =
     (case TypeSystem_GetRelation t objectType relationName of Inl e \<Rightarrow> Inl e
      | Inr relation \<Rightarrow> hasCycle t objectType relationName (rel_rewrite relation) {})"

section \<open>Entrypoints\<close>

type_synonym typedefs = "(string \<times> (string \<times> relation) list) list"

text \<open>A cell of the heap is an inner map, an outer map leads to the addresses of inner maps.\<close>

type_synonym heap = "(string \<times> bool) list list"

type_synonym outer = "(string \<times> nat) list"

definition find_relation :: "typedefs \<Rightarrow> string \<Rightarrow> string \<Rightarrow> relation option" where
  "find_relation typedefs typeName relationName =
     Option.bind (map_of typedefs typeName) (\<lambda>rs. map_of rs relationName)"

definition visited_value :: "heap \<Rightarrow> outer \<Rightarrow> string \<Rightarrow> string \<Rightarrow> bool option" where
  "visited_value h v typeName relationName =
     (case map_of v typeName of None \<Rightarrow> None | Some a \<Rightarrow> map_of (h ! a) relationName)"

text \<open>Marking a relation: in the inner map that is there, else in a new one.\<close>

definition visit :: "heap \<Rightarrow> outer \<Rightarrow> string \<Rightarrow> string \<Rightarrow> heap \<times> outer" where
  "visit h v typeName relationName =
     (case map_of v typeName of
        Some a \<Rightarrow> (h[a := AList.update relationName False (h ! a)], v)
      | None \<Rightarrow> (h @ [[(relationName, False)]], (typeName, length h) # v))"

definition set_visited :: "heap \<Rightarrow> outer \<Rightarrow> string \<Rightarrow> string \<Rightarrow> bool \<Rightarrow> heap" where
  "set_visited h v typeName relationName b =
     (case map_of v typeName of Some a \<Rightarrow> h[a := AList.update relationName b (h ! a)] | None \<Rightarrow> h)"

text \<open>
  The nested calls for other relations take one unit of fuel each; the number of relations is
  enough, since a call is made only for a relation that is not marked.
\<close>

function (sequential) hasEntrypoints :: "typedefs \<Rightarrow> nat \<Rightarrow> string \<Rightarrow> string \<Rightarrow> userset \<Rightarrow> heap \<Rightarrow> outer \<Rightarrow>
    (ts_error, bool \<times> bool) result \<times> heap"
and he_this :: "typedefs \<Rightarrow> nat \<Rightarrow> string \<Rightarrow> string \<Rightarrow> relation_reference list \<Rightarrow> heap \<Rightarrow> outer \<Rightarrow>
    (ts_error, bool \<times> bool) result \<times> heap"
and he_ttu :: "typedefs \<Rightarrow> nat \<Rightarrow> string \<Rightarrow> relation_reference list \<Rightarrow> heap \<Rightarrow> outer \<Rightarrow>
    (ts_error, bool \<times> bool) result \<times> heap"
and he_union :: "typedefs \<Rightarrow> nat \<Rightarrow> string \<Rightarrow> string \<Rightarrow> userset list \<Rightarrow> bool \<Rightarrow> heap \<Rightarrow> outer \<Rightarrow>
    (ts_error, bool \<times> bool) result \<times> heap"
and he_all :: "typedefs \<Rightarrow> nat \<Rightarrow> string \<Rightarrow> string \<Rightarrow> userset list \<Rightarrow> heap \<Rightarrow> outer \<Rightarrow>
    (ts_error, bool \<times> bool) result \<times> heap" where
  "hasEntrypoints typedefs fuel typeName relationName rewrite h0 visitedRelations =
     (let (h, v) = visit h0 visitedRelations typeName relationName in
      case find_relation typedefs typeName relationName of
        None \<Rightarrow> (Inl (UndefinedTypeDefinition typeName relationName), h)
      | Some relation \<Rightarrow> (case rewrite of
          Userset_This \<Rightarrow>
            he_this typedefs fuel typeName relationName (rel_DirectlyRelatedUserTypes relation) h v
        | Userset_ComputedUserset computed \<Rightarrow>
            (case find_relation typedefs typeName computed of
               None \<Rightarrow> (Inl (UndefinedTypeDefinition typeName computed), h)
             | Some computedRelation \<Rightarrow> (case visited_value h v typeName computed of
                 Some hasEntrypoint \<Rightarrow> (Inr (hasEntrypoint, True), h)
               | None \<Rightarrow> (case fuel of 0 \<Rightarrow> (Inl OutOfFuel, h)
                   | Suc n \<Rightarrow> hasEntrypoints typedefs n typeName computed (rel_rewrite computedRelation) h v)))
        | Userset_TupleToUserset x \<Rightarrow>
            (case find_relation typedefs typeName (ttu_GetTupleset x) of
               None \<Rightarrow> (Inl (UndefinedTypeDefinition typeName (ttu_GetTupleset x)), h)
             | Some tuplesetRelation \<Rightarrow> he_ttu typedefs fuel (ttu_GetComputed x)
                 (rel_DirectlyRelatedUserTypes tuplesetRelation) h v)
        | Userset_Union cs \<Rightarrow>
            if length cs < 2 then (Inl (TooFewChildren typeName relationName), h)
            else he_union typedefs fuel typeName relationName cs False h visitedRelations
        | Userset_Intersection cs \<Rightarrow>
            if length cs < 2 then (Inl (TooFewChildren typeName relationName), h)
            else he_all typedefs fuel typeName relationName cs h visitedRelations
        | Userset_Difference b s \<Rightarrow>
            he_all typedefs fuel typeName relationName [b, s] h visitedRelations
        | Userset_Unset \<Rightarrow> (Inl (UnknownRewrite typeName relationName), h)))"
| "he_this typedefs fuel typeName relationName [] h v = (Inr (False, False), h)"
| "he_this typedefs fuel typeName relationName (assignable # rest) h v =
     (if rr_relationOrWildcard assignable = None \<or> rr_HasWildcard assignable then
        (Inr (True, False), set_visited h v typeName relationName True)
      else (let t = rr_type assignable; r = rr_GetRelation assignable in
        case find_relation typedefs t r of
          None \<Rightarrow> (Inl (UndefinedTypeDefinition t r), h)
        | Some assignableRelation \<Rightarrow>
            if visited_value h v t r \<noteq> None then he_this typedefs fuel typeName relationName rest h v
            else (case fuel of 0 \<Rightarrow> (Inl OutOfFuel, h)
              | Suc n \<Rightarrow> (case hasEntrypoints typedefs n t r (rel_rewrite assignableRelation) h v of
                  (Inl err, h') \<Rightarrow> (Inl err, h')
                | (Inr (hasEntrypoint, _), h') \<Rightarrow>
                    if hasEntrypoint then (Inr (True, False), h')
                    else he_this typedefs fuel typeName relationName rest h' v))))"
| "he_ttu typedefs fuel computed [] h v = (Inr (False, False), h)"
| "he_ttu typedefs fuel computed (assignable # rest) h v =
     (let t = rr_type assignable in
      case find_relation typedefs t computed of
        None \<Rightarrow> he_ttu typedefs fuel computed rest h v
      | Some assignableRelation \<Rightarrow> (case visited_value h v t computed of
          Some hasEntrypoint \<Rightarrow>
            if hasEntrypoint then (Inr (True, False), h) else he_ttu typedefs fuel computed rest h v
        | None \<Rightarrow> (case fuel of 0 \<Rightarrow> (Inl OutOfFuel, h)
            | Suc n \<Rightarrow> (case hasEntrypoints typedefs n t computed (rel_rewrite assignableRelation) h v of
                (Inl err, h') \<Rightarrow> (Inl err, h')
              | (Inr (hasEntrypoint, _), h') \<Rightarrow>
                  if hasEntrypoint then (Inr (True, False), h')
                  else he_ttu typedefs fuel computed rest h' v))))"
| "he_union typedefs fuel typeName relationName [] loop h vr = (Inr (False, loop), h)"
| "he_union typedefs fuel typeName relationName (c # cs) loop h vr =
     (case hasEntrypoints typedefs fuel typeName relationName c h vr of
        (Inl err, h') \<Rightarrow> (Inl err, h')
      | (Inr (hasEntrypoint, childLoop), h') \<Rightarrow>
          if hasEntrypoint then (Inr (True, False), h')
          else he_union typedefs fuel typeName relationName cs (loop \<or> childLoop) h' vr)"
| "he_all typedefs fuel typeName relationName [] h vr = (Inr (True, False), h)"
| "he_all typedefs fuel typeName relationName (c # cs) h vr =
     (case hasEntrypoints typedefs fuel typeName relationName c h vr of
        (Inl err, h') \<Rightarrow> (Inl err, h')
      | (Inr (hasEntrypoint, childLoop), h') \<Rightarrow>
          if \<not> hasEntrypoint then (Inr (False, childLoop), h')
          else he_all typedefs fuel typeName relationName cs h' vr)"
  by pat_completeness auto
termination
  by (relation "measures
    [\<lambda>x. case x of
        Inl (Inl (td, fuel, t, r, rw, h, v)) \<Rightarrow> fuel
      | Inl (Inr (td, fuel, t, r, refs, h, v)) \<Rightarrow> fuel
      | Inr (Inl (td, fuel, c, refs, h, v)) \<Rightarrow> fuel
      | Inr (Inr (Inl (td, fuel, t, r, cs, l, h, v))) \<Rightarrow> fuel
      | Inr (Inr (Inr (td, fuel, t, r, cs, h, v))) \<Rightarrow> fuel,
     \<lambda>x. case x of
        Inl (Inl (td, fuel, t, r, rw, h, v)) \<Rightarrow> Suc (3 * size rw)
      | Inl (Inr (td, fuel, t, r, refs, h, v)) \<Rightarrow> 0
      | Inr (Inl (td, fuel, c, refs, h, v)) \<Rightarrow> 0
      | Inr (Inr (Inl (td, fuel, t, r, cs, l, h, v))) \<Rightarrow> Suc (total_size cs)
      | Inr (Inr (Inr (td, fuel, t, r, cs, h, v))) \<Rightarrow> Suc (total_size cs),
     \<lambda>x. case x of
        Inl (Inl (td, fuel, t, r, rw, h, v)) \<Rightarrow> 0
      | Inl (Inr (td, fuel, t, r, refs, h, v)) \<Rightarrow> length refs
      | Inr (Inl (td, fuel, c, refs, h, v)) \<Rightarrow> length refs
      | Inr (Inr (Inl (td, fuel, t, r, cs, l, h, v))) \<Rightarrow> 0
      | Inr (Inr (Inr (td, fuel, t, r, cs, h, v))) \<Rightarrow> 0]")
    (use total_size_le in \<open>auto\<close>)

declare hasEntrypoints.simps [simp del]

section \<open>Validating a model\<close>

definition validateRelation :: "type_system \<Rightarrow> string \<Rightarrow> string \<Rightarrow> (string \<times> userset) list \<Rightarrow>
    (ts_error, unit) result" where
  "validateRelation t typeName relationName relationMap =
     (let rewrite = (case map_of relationMap relationName of None \<Rightarrow> Userset_Unset | Some rw \<Rightarrow> rw) in
      rbind (isUsersetRewriteValid t typeName relationName rewrite) (\<lambda>_.
      rbind (validateTypeRestrictions t typeName relationName) (\<lambda>_.
      rbind (fst (hasEntrypoints (ts_relations t) (relation_count t) typeName relationName rewrite [] []))
        (\<lambda>(hasEntrypoint, loop).
          if \<not> hasEntrypoint then
            Inl (InvalidRelationError typeName relationName
              (if loop then ErrNoEntryPointsLoop else ErrNoEntrypoints))
          else rbind (HasCycle t typeName relationName) (\<lambda>cycle.
            if cycle then Inl (InvalidRelationError typeName relationName ErrCycle) else Inr ())))))"

definition validateModel :: "(condition \<Rightarrow> (string, unit) result) \<Rightarrow> authorization_model \<Rightarrow>
    (ts_error, type_system) result" where
  "validateModel compile model =
     (let t = newWithoutGraphs model in
      if \<not> IsSchemaVersionSupported (ts_schemaVersion t) then Inl ErrInvalidSchemaVersion
      else if containsDuplicateType model then Inl ErrDuplicateTypes
      else rbind (validateNames t) (\<lambda>_.
        rbind (for_each (\<lambda>typeName.
            let relationMap = (case map_of (ts_typeDefinitions t) typeName of None \<Rightarrow> []
                  | Some td \<Rightarrow> td_relations td)
            in for_each (\<lambda>relationName. validateRelation t typeName relationName relationMap)
                 (sort (map fst relationMap)))
          (sort (map fst (ts_typeDefinitions t)))) (\<lambda>_.
        rbind (validateConditions compile t) (\<lambda>_. Inr t))))"

definition NewAndValidate :: "(condition \<Rightarrow> (string, unit) result) \<Rightarrow>
    (authorization_model \<Rightarrow> (ts_error, 'g) result) \<Rightarrow> authorization_model \<Rightarrow>
    (ts_error, type_system \<times> 'g) result" where
  "NewAndValidate compile build model =
     rbind (validateModel compile model) (attachGraphs build model)"

section \<open>Lemmas\<close>

subsection \<open>What an entrypoint is\<close>

text \<open>A rewrite of a relation can relate to a concrete type.\<close>

inductive entry :: "typedefs \<Rightarrow> string \<Rightarrow> string \<Rightarrow> userset \<Rightarrow> bool" for td where
  entry_terminal: "find_relation td ot rel = Some r \<Longrightarrow> ref \<in> set (rel_DirectlyRelatedUserTypes r) \<Longrightarrow>
    rr_relationOrWildcard ref = None \<or> rr_HasWildcard ref \<Longrightarrow> entry td ot rel Userset_This"
| entry_userset: "find_relation td ot rel = Some r \<Longrightarrow> ref \<in> set (rel_DirectlyRelatedUserTypes r) \<Longrightarrow>
    find_relation td (rr_type ref) (rr_GetRelation ref) = Some r' \<Longrightarrow>
    entry td (rr_type ref) (rr_GetRelation ref) (rel_rewrite r') \<Longrightarrow> entry td ot rel Userset_This"
| entry_computed: "find_relation td ot c = Some r \<Longrightarrow> entry td ot c (rel_rewrite r) \<Longrightarrow>
    entry td ot rel (Userset_ComputedUserset c)"
| entry_ttu: "find_relation td ot (ttu_GetTupleset x) = Some ts \<Longrightarrow>
    ref \<in> set (rel_DirectlyRelatedUserTypes ts) \<Longrightarrow>
    find_relation td (rr_type ref) (ttu_GetComputed x) = Some r \<Longrightarrow>
    entry td (rr_type ref) (ttu_GetComputed x) (rel_rewrite r) \<Longrightarrow> entry td ot rel (Userset_TupleToUserset x)"
| entry_union: "c \<in> set cs \<Longrightarrow> entry td ot rel c \<Longrightarrow> entry td ot rel (Userset_Union cs)"
| entry_intersection: "(\<And>c. c \<in> set cs \<Longrightarrow> entry td ot rel c) \<Longrightarrow> entry td ot rel (Userset_Intersection cs)"
| entry_difference: "entry td ot rel b \<Longrightarrow> entry td ot rel s \<Longrightarrow> entry td ot rel (Userset_Difference b s)"

definition relation_entry :: "typedefs \<Rightarrow> string \<Rightarrow> string \<Rightarrow> bool" where
  "relation_entry td ot rel \<longleftrightarrow> (\<exists>r. find_relation td ot rel = Some r \<and> entry td ot rel (rel_rewrite r))"

subsection \<open>The shared maps\<close>

definition outer_ok :: "heap \<Rightarrow> outer \<Rightarrow> bool" where
  "outer_ok h v \<longleftrightarrow> (\<forall>T a. map_of v T = Some a \<longrightarrow> a < length h) \<and>
     (\<forall>T T' a. map_of v T = Some a \<longrightarrow> map_of v T' = Some a \<longrightarrow> T = T')"

definition marks :: "heap \<Rightarrow> outer \<Rightarrow> (string \<times> string) set" where
  "marks h v = {(T, R). visited_value h v T R \<noteq> None}"

lemma outer_ok_same: "outer_ok h v \<Longrightarrow> map_of v T = Some a \<Longrightarrow> map_of v T' = Some a \<Longrightarrow> T = T'"
  unfolding outer_ok_def by blast

lemma visited_value_set:
  assumes "outer_ok h v" and "map_of v T = Some a"
  shows "visited_value (h[a := AList.update R b (h ! a)]) v T' R' =
    (if T' = T \<and> R' = R then Some b else visited_value h v T' R')"
proof -
  have a: "a < length h" using assms by (simp add: outer_ok_def)
  show ?thesis
  proof (cases "T' = T")
    case True
    with a assms(2) show ?thesis by (simp add: visited_value_def update_conv')
  next
    case False
    with outer_ok_same [OF assms] have "map_of v T' \<noteq> Some a" by blast
    with False show ?thesis by (auto simp: visited_value_def split: option.split)
  qed
qed

lemma visit_facts:
  assumes "outer_ok h0 vr" and "visit h0 vr T R = (h, v)"
  shows "outer_ok h v \<and> outer_ok h vr \<and>
    visited_value h v T' R' = (if T' = T \<and> R' = R then Some False else visited_value h0 vr T' R') \<and>
    (visited_value h vr T' R' = Some True \<longrightarrow> visited_value h0 vr T' R' = Some True \<and> (T', R') \<noteq> (T, R)) \<and>
    (visited_value h0 vr T' R' \<noteq> None \<longrightarrow> visited_value h vr T' R' \<noteq> None) \<and>
    (outer_ok h' v \<longrightarrow> outer_ok h' vr) \<and>
    visited_value h' vr T' R' = (if map_of vr T' = None then None else visited_value h' v T' R')"
proof (cases "map_of vr T")
  case None
  with assms(2) have h: "h = h0 @ [[(R, False)]]" "v = (T, length h0) # vr" by (auto simp: visit_def)
  have len: "a < length h0" if "map_of vr X = Some a" for X a using assms(1) that by (simp add: outer_ok_def)
  have bound: "a < Suc (length h0)" if "map_of vr X = Some a" for X a using len [OF that] by simp
  have "outer_ok h v"
    using None outer_ok_same [OF assms(1)] len bound unfolding outer_ok_def h
    by (simp add: less_imp_neq) (metis less_irrefl)
  moreover have "outer_ok h vr" using assms(1) bound by (simp add: outer_ok_def h)
  moreover have "map_of v X = Some a" if "map_of vr X = Some a" for X a
    using that None by (auto simp: h)
  then have "outer_ok h' v \<Longrightarrow> outer_ok h' vr" unfolding outer_ok_def by blast
  ultimately show ?thesis
    using None len by (auto simp: visited_value_def h nth_append split: option.split)
next
  case (Some a)
  with assms(2) have h: "h = h0[a := AList.update R False (h0 ! a)]" "v = vr" by (auto simp: visit_def)
  have "outer_ok h vr" using assms(1) by (simp add: outer_ok_def h)
  then show ?thesis
    using visited_value_set [OF assms(1) Some, of R False] by (auto simp: h visited_value_def)
qed

lemma visited_visit_spec:
  assumes "outer_ok h0 vr" and "visit h0 vr T R = (h, v)"
  shows "outer_ok h v" and "outer_ok h vr"
    and "visited_value h v T' R' = (if T' = T \<and> R' = R then Some False else visited_value h0 vr T' R')"
    and "visited_value h vr T' R' = Some True \<Longrightarrow> visited_value h0 vr T' R' = Some True \<and> (T', R') \<noteq> (T, R)"
    and "visited_value h0 vr T' R' \<noteq> None \<Longrightarrow> visited_value h vr T' R' \<noteq> None"
    and "outer_ok h' v \<Longrightarrow> outer_ok h' vr"
    and "visited_value h' vr T' R' = (if map_of vr T' = None then None else visited_value h' v T' R')"
  using visit_facts [OF assms] by blast+

subsection \<open>What a call guarantees\<close>

text \<open>
  The values in the visited maps are true only for relations that have an entrypoint, up to the
  relation a call is for, which may be marked early when one of its operands is direct; a call
  that does not answer yes leaves no such mark.
\<close>

definition entries :: "typedefs \<Rightarrow> heap \<Rightarrow> outer \<Rightarrow> (string \<times> string) option \<Rightarrow> bool" where
  "entries td h v X \<longleftrightarrow> (\<forall>T R. visited_value h v T R = Some True \<longrightarrow> relation_entry td T R \<or> X = Some (T, R))"

definition unmarked :: "typedefs \<Rightarrow> (string \<times> string) set \<Rightarrow> nat" where
  "unmarked td M = card ({(T, R). find_relation td T R \<noteq> None} - M)"

definition he_post :: "typedefs \<Rightarrow> (string \<times> string) option \<Rightarrow> bool \<Rightarrow> bool \<Rightarrow> heap \<Rightarrow> outer \<Rightarrow>
    (ts_error, bool \<times> bool) result \<times> heap \<Rightarrow> bool" where
  "he_post td X E F h v out \<longleftrightarrow> outer_ok (snd out) v \<and> marks h v \<subseteq> marks (snd out) v \<and>
     (\<forall>b. fst out = Inr (True, b) \<longrightarrow> E \<and> entries td (snd out) v X) \<and>
     ((\<forall>b. fst out \<noteq> Inr (True, b)) \<longrightarrow> entries td (snd out) v None) \<and>
     (F \<longrightarrow> fst out \<noteq> Inl OutOfFuel)"

lemma entries_weaken: "entries td h v None \<Longrightarrow> entries td h v X"
  by (auto simp: entries_def)

lemma finite_defined: "finite {(T, R). find_relation td T R \<noteq> None}"
  "card {(T, R). find_relation td T R \<noteq> None} \<le> sum_list (map (\<lambda>(_, rs). length rs) td)"
proof -
  let ?l = "concat (map (\<lambda>(T, rs). map (\<lambda>(R, _). (T, R)) rs) td)"
  have sub: "{(T, R). find_relation td T R \<noteq> None} \<subseteq> set ?l"
  proof (clarify)
    fix T R r assume "find_relation td T R = Some r"
    then obtain rs where "map_of td T = Some rs" "map_of rs R = Some r"
      by (auto simp: find_relation_def bind_eq_Some_conv)
    then have "(T, rs) \<in> set td" "(R, r) \<in> set rs" by (auto dest: map_of_SomeD)
    moreover from this(2) have "(T, R) \<in> set (map (\<lambda>(R, _). (T, R)) rs)"
      unfolding set_map by (intro rev_image_eqI [of "(R, r)"]) simp_all
    moreover from \<open>(T, rs) \<in> set td\<close>
    have "map (\<lambda>(R, _). (T, R)) rs \<in> set (map (\<lambda>(T, rs). map (\<lambda>(R, _). (T, R)) rs) td)"
      unfolding set_map by (intro rev_image_eqI [of "(T, rs)"]) simp_all
    ultimately show "(T, R) \<in> set ?l" unfolding set_concat by (intro UN_I)
  qed
  then show "finite {(T, R). find_relation td T R \<noteq> None}" by (rule finite_subset) (rule finite_set)
  have "length ?l = sum_list (map (\<lambda>(_, rs). length rs) td)"
    by (simp add: length_concat comp_def case_prod_unfold)
  with card_mono [OF finite_set sub] card_length [of ?l]
  show "card {(T, R). find_relation td T R \<noteq> None} \<le> sum_list (map (\<lambda>(_, rs). length rs) td)"
    by linarith
qed

lemma unmarked_mono: "M \<subseteq> M' \<Longrightarrow> unmarked td M' \<le> unmarked td M"
  unfolding unmarked_def using finite_defined(1) by (intro card_mono) auto

lemma unmarked_insert:
  assumes "find_relation td T R = Some r" and "(T, R) \<notin> M"
  shows "unmarked td (insert (T, R) M) < unmarked td M"
  unfolding unmarked_def using finite_defined(1) assms by (intro psubset_card_mono) auto

lemma he_post_mono:
  assumes "he_post td X E F h v out" and "marks h0 v \<subseteq> marks h v" and "E \<Longrightarrow> E'" and "F' \<Longrightarrow> F"
  shows "he_post td X E' F' h0 v out"
  using assms unfolding he_post_def by blast

lemma he_post_entries:
  assumes "he_post td (Some (T, R)) (entry td T R (rel_rewrite r)) F h v out"
    and "find_relation td T R = Some r"
  shows "entries td (snd out) v None"
proof (cases "\<exists>b. fst out = Inr (True, b)")
  case True
  with assms have "entry td T R (rel_rewrite r)" "entries td (snd out) v (Some (T, R))"
    unfolding he_post_def by blast+
  with assms(2) show ?thesis by (auto simp: entries_def relation_entry_def)
qed (use assms in \<open>auto simp: he_post_def\<close>)

lemma visit_enters:
  assumes "outer_ok h0 vr" and "visit h0 vr T R = (h, v)" and "entries td h0 vr (Some (T, R))"
  shows "outer_ok h v" and "outer_ok h vr" and "entries td h v None" and "entries td h vr None"
    and "marks h v = insert (T, R) (marks h0 vr)" and "marks h0 vr \<subseteq> marks h vr"
    and "marks h vr \<subseteq> insert (T, R) (marks h0 vr)"
    and "he_post td X E F h v out \<Longrightarrow> he_post td X E F h0 vr out"
proof -
  note v = visited_visit_spec [OF assms(1,2)]
  show 1: "outer_ok h v" "outer_ok h vr" by (rule v(1), rule v(2))
  show "entries td h v None" using assms(3) v(3) unfolding entries_def by auto
  show "entries td h vr None" using assms(3) unfolding entries_def by (auto dest!: v(4))
  show m: "marks h v = insert (T, R) (marks h0 vr)" "marks h0 vr \<subseteq> marks h vr"
    using v(3,5) unfolding marks_def by auto
  have "marks h vr \<subseteq> marks h v" unfolding marks_def by (auto simp: v(7) split: if_splits)
  then show "marks h vr \<subseteq> insert (T, R) (marks h0 vr)" by (simp only: m(1))
  have en: "entries td h' v Y \<Longrightarrow> entries td h' vr Y" for h' Y
    using v(7) unfolding entries_def by auto
  have "marks h' vr = {p \<in> marks h' v. map_of vr (fst p) \<noteq> None}" for h'
    unfolding marks_def by (auto simp: v(7) split: if_splits)
  moreover have "marks h0 vr \<subseteq> {p. map_of vr (fst p) \<noteq> None}"
    by (auto simp: marks_def visited_value_def split: option.splits)
  ultimately have "marks h0 vr \<subseteq> marks h' vr" if "marks h v \<subseteq> marks h' v" for h'
    using that unfolding m(1) by auto
  then have "he_post td X E F h0 vr out" if "he_post td X E F h v out"
    using that en [of "snd out" X] en [of "snd out" None] v(6) [of "snd out"] unfolding he_post_def
    by simp
  then show "he_post td X E F h v out \<Longrightarrow> he_post td X E F h0 vr out" .
qed

definition he_ok :: "typedefs \<Rightarrow> nat \<Rightarrow> string \<Rightarrow> string \<Rightarrow> userset \<Rightarrow> heap \<Rightarrow> outer \<Rightarrow> bool" where
  "he_ok td fuel T R rw h vr \<longleftrightarrow> (outer_ok h vr \<longrightarrow> entries td h vr (Some (T, R)) \<longrightarrow>
     he_post td (Some (T, R)) (entry td T R rw) (unmarked td (insert (T, R) (marks h vr)) \<le> fuel) h vr
       (hasEntrypoints td fuel T R rw h vr))"

lemma nested_call:
  assumes "he_ok td n T R (rel_rewrite r) h v" and "find_relation td T R = Some r"
    and "visited_value h v T R = None" and "outer_ok h v" and "entries td h v None"
    and "hasEntrypoints td n T R (rel_rewrite r) h v = (res, h')"
  shows "outer_ok h' v" and "entries td h' v None" and "marks h v \<subseteq> marks h' v"
    and "res = Inr (True, b) \<Longrightarrow> entry td T R (rel_rewrite r)"
    and "unmarked td (marks h v) \<le> Suc n \<Longrightarrow> res \<noteq> Inl OutOfFuel"
proof -
  let ?F = "unmarked td (insert (T, R) (marks h v)) \<le> n"
  from assms have post: "he_post td (Some (T, R)) (entry td T R (rel_rewrite r)) ?F h v (res, h')"
    by (simp add: he_ok_def entries_weaken)
  from he_post_entries [OF post assms(2)] show "entries td h' v None" by simp
  have "(T, R) \<notin> marks h v" using assms(3) by (simp add: marks_def)
  from unmarked_insert [OF assms(2) this] have "unmarked td (marks h v) \<le> Suc n \<Longrightarrow> ?F" by simp
  with post show "outer_ok h' v" "marks h v \<subseteq> marks h' v"
    "res = Inr (True, b) \<Longrightarrow> entry td T R (rel_rewrite r)"
    "unmarked td (marks h v) \<le> Suc n \<Longrightarrow> res \<noteq> Inl OutOfFuel" by (auto simp: he_post_def)
qed

lemma no_fuel:
  assumes "find_relation td T R = Some r" and "visited_value h v T R = None"
  shows "0 < unmarked td (marks h v)"
  using unmarked_insert [OF assms(1), of "marks h v"] assms(2) by (simp add: marks_def)

lemma set_visited_post:
  assumes "outer_ok h v" and "entries td h v None" and E
  shows "he_post td (Some (T, R)) E F h v (Inr (True, False), set_visited h v T R True)"
proof (cases "map_of v T")
  case (Some a)
  then have "outer_ok (h[a := AList.update R True (h ! a)]) v" using assms(1) by (simp add: outer_ok_def)
  with Some visited_value_set [OF assms(1) Some, of R True] assms(2,3) show ?thesis
    by (auto simp: he_post_def set_visited_def entries_def marks_def)
qed (use assms in \<open>auto simp: he_post_def set_visited_def entries_weaken\<close>)

definition this_ok :: "typedefs \<Rightarrow> nat \<Rightarrow> string \<Rightarrow> string \<Rightarrow> relation_reference list \<Rightarrow> heap \<Rightarrow> outer \<Rightarrow> bool" where
  "this_ok td fuel T R refs h v \<longleftrightarrow> (outer_ok h v \<longrightarrow> entries td h v None \<longrightarrow>
     (\<forall>r. find_relation td T R = Some r \<and> set refs \<subseteq> set (rel_DirectlyRelatedUserTypes r) \<longrightarrow>
       he_post td (Some (T, R)) (entry td T R Userset_This) (unmarked td (marks h v) \<le> fuel) h v
         (he_this td fuel T R refs h v)))"

definition ttu_ok :: "typedefs \<Rightarrow> nat \<Rightarrow> string \<Rightarrow> relation_reference list \<Rightarrow> heap \<Rightarrow> outer \<Rightarrow> bool" where
  "ttu_ok td fuel c refs h v \<longleftrightarrow> (outer_ok h v \<longrightarrow> entries td h v None \<longrightarrow>
     he_post td None (\<exists>ref \<in> set refs. relation_entry td (rr_type ref) c)
       (unmarked td (marks h v) \<le> fuel) h v (he_ttu td fuel c refs h v))"

definition union_ok :: "typedefs \<Rightarrow> nat \<Rightarrow> string \<Rightarrow> string \<Rightarrow> userset list \<Rightarrow> bool \<Rightarrow> heap \<Rightarrow> outer \<Rightarrow> bool" where
  "union_ok td fuel T R cs l h vr \<longleftrightarrow> (outer_ok h vr \<longrightarrow> entries td h vr None \<longrightarrow>
     he_post td (Some (T, R)) (\<exists>c \<in> set cs. entry td T R c)
       (unmarked td (insert (T, R) (marks h vr)) \<le> fuel) h vr (he_union td fuel T R cs l h vr))"

definition all_ok :: "typedefs \<Rightarrow> nat \<Rightarrow> string \<Rightarrow> string \<Rightarrow> userset list \<Rightarrow> heap \<Rightarrow> outer \<Rightarrow> bool" where
  "all_ok td fuel T R cs h vr \<longleftrightarrow> (outer_ok h vr \<longrightarrow> entries td h vr (Some (T, R)) \<longrightarrow>
     he_post td (Some (T, R)) (\<forall>c \<in> set cs. entry td T R c)
       (unmarked td (insert (T, R) (marks h vr)) \<le> fuel) h vr (he_all td fuel T R cs h vr))"

lemma this_Cons:
  assumes skip: "\<And>r'. \<not> (rr_relationOrWildcard ref = None \<or> rr_HasWildcard ref) \<Longrightarrow> find_relation td (rr_type ref) (rr_GetRelation ref) = Some r' \<Longrightarrow>
      visited_value h v (rr_type ref) (rr_GetRelation ref) \<noteq> None \<Longrightarrow> this_ok td fuel T R refs h v"
    and call: "\<And>r' n. \<not> (rr_relationOrWildcard ref = None \<or> rr_HasWildcard ref) \<Longrightarrow> find_relation td (rr_type ref) (rr_GetRelation ref) = Some r' \<Longrightarrow> fuel = Suc n \<Longrightarrow>
      visited_value h v (rr_type ref) (rr_GetRelation ref) = None \<Longrightarrow>
      he_ok td n (rr_type ref) (rr_GetRelation ref) (rel_rewrite r') h v"
    and rest: "\<And>r' n b h'. \<not> (rr_relationOrWildcard ref = None \<or> rr_HasWildcard ref) \<Longrightarrow> find_relation td (rr_type ref) (rr_GetRelation ref) = Some r' \<Longrightarrow> fuel = Suc n \<Longrightarrow>
      visited_value h v (rr_type ref) (rr_GetRelation ref) = None \<Longrightarrow>
      hasEntrypoints td n (rr_type ref) (rr_GetRelation ref) (rel_rewrite r') h v = (Inr (False, b), h') \<Longrightarrow>
      this_ok td fuel T R refs h' v"
  shows "this_ok td fuel T R (ref # refs) h v"
  unfolding this_ok_def
proof (intro impI allI, elim conjE)
  fix r assume o: "outer_ok h v" and e: "entries td h v None"
    and r: "find_relation td T R = Some r" "set (ref # refs) \<subseteq> set (rel_DirectlyRelatedUserTypes r)"
  let ?X = "Some (T, R)" and ?E = "entry td T R Userset_This" and ?F = "unmarked td (marks h v) \<le> fuel"
  let ?t = "rr_type ref" and ?q = "rr_GetRelation ref"
  have ref: "ref \<in> set (rel_DirectlyRelatedUserTypes r)" using r(2) by simp
  show "he_post td ?X ?E ?F h v (he_this td fuel T R (ref # refs) h v)"
  proof (cases "rr_relationOrWildcard ref = None \<or> rr_HasWildcard ref")
    case True
    with set_visited_post [OF o e] entry_terminal [OF r(1) ref True] show ?thesis by simp
  next
    case terminal: False
    show ?thesis
    proof (cases "find_relation td ?t ?q")
      case None
      with terminal o e show ?thesis by (auto simp: he_post_def)
    next
      case (Some r')
      show ?thesis
      proof (cases "visited_value h v ?t ?q")
        case visited: None
        show ?thesis
        proof (cases fuel)
          case 0
          with terminal Some visited o e no_fuel [OF Some visited] show ?thesis by (auto simp: he_post_def)
        next
          case (Suc n)
          obtain res h' where out: "hasEntrypoints td n ?t ?q (rel_rewrite r') h v = (res, h')"
            by (cases "hasEntrypoints td n ?t ?q (rel_rewrite r') h v")
          note nested = nested_call [OF call [OF terminal Some Suc visited] Some visited o e out]
          show ?thesis
          proof (cases "\<exists>b. res = Inr (False, b)")
            case True
            then obtain b where b: "res = Inr (False, b)" ..
            from rest [OF terminal Some Suc visited, of b h'] out b nested(1,2) r
            have "he_post td ?X ?E (unmarked td (marks h' v) \<le> fuel) h' v (he_this td fuel T R refs h' v)"
              by (simp add: this_ok_def)
            then have "he_post td ?X ?E ?F h v (he_this td fuel T R refs h' v)"
              by (rule he_post_mono) (use nested(3) unmarked_mono [OF nested(3)] in \<open>auto dest: le_trans\<close>)
            with terminal Some visited Suc out b show ?thesis by auto
          next
            case False
            with terminal Some visited Suc out nested r(1) ref show ?thesis
              by (auto simp: he_post_def split: sum.split intro: entry_userset entries_weaken)
          qed
        qed
      next
        case visited: (Some b)
        from skip [OF terminal Some] visited o e r
        have "he_post td ?X ?E ?F h v (he_this td fuel T R refs h v)" by (simp add: this_ok_def)
        with terminal Some visited show ?thesis by auto
      qed
    qed
  qed
qed

lemma ttu_Cons:
  assumes absent: "find_relation td (rr_type ref) c = None \<Longrightarrow> ttu_ok td fuel c refs h v"
    and skip: "\<And>r'. find_relation td (rr_type ref) c = Some r' \<Longrightarrow>
      visited_value h v (rr_type ref) c = Some False \<Longrightarrow> ttu_ok td fuel c refs h v"
    and call: "\<And>r' n. find_relation td (rr_type ref) c = Some r' \<Longrightarrow> fuel = Suc n \<Longrightarrow>
      visited_value h v (rr_type ref) c = None \<Longrightarrow> he_ok td n (rr_type ref) c (rel_rewrite r') h v"
    and rest: "\<And>r' n b h'. find_relation td (rr_type ref) c = Some r' \<Longrightarrow> fuel = Suc n \<Longrightarrow>
      visited_value h v (rr_type ref) c = None \<Longrightarrow>
      hasEntrypoints td n (rr_type ref) c (rel_rewrite r') h v = (Inr (False, b), h') \<Longrightarrow>
      ttu_ok td fuel c refs h' v"
  shows "ttu_ok td fuel c (ref # refs) h v"
  unfolding ttu_ok_def
proof (intro impI)
  assume o: "outer_ok h v" and e: "entries td h v None"
  let ?E = "\<lambda>refs. \<exists>ref \<in> set refs. relation_entry td (rr_type ref) c"
  let ?F = "unmarked td (marks h v) \<le> fuel" and ?t = "rr_type ref"
  show "he_post td None (?E (ref # refs)) ?F h v (he_ttu td fuel c (ref # refs) h v)"
  proof (cases "find_relation td ?t c")
    case None
    from absent [OF None] o e
    have "he_post td None (?E refs) ?F h v (he_ttu td fuel c refs h v)" by (simp add: ttu_ok_def)
    with None show ?thesis by (auto elim: he_post_mono)
  next
    case (Some r')
    show ?thesis
    proof (cases "visited_value h v ?t c")
      case (Some b)
      show ?thesis
      proof (cases b)
        case True
        with e Some have "relation_entry td ?t c" by (auto simp: entries_def)
        with True Some \<open>find_relation td ?t c = Some r'\<close> o e show ?thesis by (auto simp: he_post_def)
      next
        case False
        with skip [OF \<open>find_relation td ?t c = Some r'\<close>] Some o e
        have "he_post td None (?E refs) ?F h v (he_ttu td fuel c refs h v)" by (simp add: ttu_ok_def)
        with Some False \<open>find_relation td ?t c = Some r'\<close> show ?thesis by (auto elim: he_post_mono)
      qed
    next
      case visited: None
      show ?thesis
      proof (cases fuel)
        case 0
        with Some visited o e no_fuel [OF Some visited] show ?thesis by (auto simp: he_post_def)
      next
        case (Suc n)
        obtain res h' where out: "hasEntrypoints td n ?t c (rel_rewrite r') h v = (res, h')"
          by (cases "hasEntrypoints td n ?t c (rel_rewrite r') h v")
        note nested = nested_call [OF call [OF Some Suc visited] Some visited o e out]
        show ?thesis
        proof (cases "\<exists>b. res = Inr (False, b)")
          case True
          then obtain b where b: "res = Inr (False, b)" ..
          from rest [OF Some Suc visited, of b h'] out b nested(1,2)
          have "he_post td None (?E refs) (unmarked td (marks h' v) \<le> fuel) h' v (he_ttu td fuel c refs h' v)"
            by (simp add: ttu_ok_def)
          then have "he_post td None (?E (ref # refs)) ?F h v (he_ttu td fuel c refs h' v)"
            by (rule he_post_mono) (use nested(3) unmarked_mono [OF nested(3)] in \<open>auto dest: le_trans\<close>)
          with Some visited Suc out b show ?thesis by simp
        next
          case False
          with Some visited Suc out nested show ?thesis
            by (auto simp: he_post_def relation_entry_def split: sum.split)
        qed
      qed
    qed
  qed
qed

lemma union_Cons:
  assumes call: "he_ok td fuel T R c h vr"
    and rest: "\<And>b h'. hasEntrypoints td fuel T R c h vr = (Inr (False, b), h') \<Longrightarrow>
      union_ok td fuel T R cs (l \<or> b) h' vr"
  shows "union_ok td fuel T R (c # cs) l h vr"
  unfolding union_ok_def
proof (intro impI)
  assume o: "outer_ok h vr" and e: "entries td h vr None"
  obtain res h' where out: "hasEntrypoints td fuel T R c h vr = (res, h')"
    by (cases "hasEntrypoints td fuel T R c h vr")
  let ?X = "Some (T, R)" and ?F = "\<lambda>h. unmarked td (insert (T, R) (marks h vr)) \<le> fuel"
  from call o e out have post: "he_post td ?X (entry td T R c) (?F h) h vr (res, h')"
    by (simp add: he_ok_def entries_weaken)
  show "he_post td ?X (\<exists>c \<in> set (c # cs). entry td T R c) (?F h) h vr (he_union td fuel T R (c # cs) l h vr)"
  proof (cases "\<exists>b. res = Inr (False, b)")
    case True
    then obtain b where b: "res = Inr (False, b)" ..
    with post have h': "outer_ok h' vr" "entries td h' vr None" "marks h vr \<subseteq> marks h' vr"
      by (auto simp: he_post_def)
    with rest [of b h'] out b have
      "he_post td ?X (\<exists>c \<in> set cs. entry td T R c) (?F h') h' vr (he_union td fuel T R cs (l \<or> b) h' vr)"
      by (simp add: union_ok_def)
    then have "he_post td ?X (\<exists>c \<in> set (c # cs). entry td T R c) (?F h) h vr
        (he_union td fuel T R cs (l \<or> b) h' vr)"
      by (rule he_post_mono) (use h'(3) unmarked_mono [OF insert_mono [OF h'(3), of "(T, R)"], of td] in \<open>auto dest: le_trans\<close>)
    with out b show ?thesis by simp
  next
    case False
    with out post show ?thesis by (auto simp: he_post_def split: sum.split)
  qed
qed

lemma all_Cons:
  assumes call: "he_ok td fuel T R c h vr"
    and rest: "\<And>b h'. hasEntrypoints td fuel T R c h vr = (Inr (True, b), h') \<Longrightarrow>
      all_ok td fuel T R cs h' vr"
  shows "all_ok td fuel T R (c # cs) h vr"
  unfolding all_ok_def
proof (intro impI)
  assume o: "outer_ok h vr" and e: "entries td h vr (Some (T, R))"
  obtain res h' where out: "hasEntrypoints td fuel T R c h vr = (res, h')"
    by (cases "hasEntrypoints td fuel T R c h vr")
  let ?X = "Some (T, R)" and ?F = "\<lambda>h. unmarked td (insert (T, R) (marks h vr)) \<le> fuel"
  from call o e out have post: "he_post td ?X (entry td T R c) (?F h) h vr (res, h')"
    by (simp add: he_ok_def)
  show "he_post td ?X (\<forall>c \<in> set (c # cs). entry td T R c) (?F h) h vr (he_all td fuel T R (c # cs) h vr)"
  proof (cases "\<exists>b. res = Inr (True, b)")
    case True
    then obtain b where b: "res = Inr (True, b)" ..
    with post have h': "outer_ok h' vr" "entries td h' vr ?X" "marks h vr \<subseteq> marks h' vr" "entry td T R c"
      by (auto simp: he_post_def)
    with rest [of b h'] out b have
      "he_post td ?X (\<forall>c \<in> set cs. entry td T R c) (?F h') h' vr (he_all td fuel T R cs h' vr)"
      by (simp add: all_ok_def)
    then have "he_post td ?X (\<forall>c \<in> set (c # cs). entry td T R c) (?F h) h vr (he_all td fuel T R cs h' vr)"
      by (rule he_post_mono) (use h'(3,4) unmarked_mono [OF insert_mono [OF h'(3), of "(T, R)"], of td] in \<open>auto dest: le_trans\<close>)
    with out b show ?thesis by simp
  next
    case False
    with out post show ?thesis by (auto simp: he_post_def split: sum.split)
  qed
qed

lemma call_case:
  assumes direct: "\<And>h v r. visit h0 vr T R = (h, v) \<Longrightarrow> find_relation td T R = Some r \<Longrightarrow> rw = Userset_This \<Longrightarrow>
      this_ok td fuel T R (rel_DirectlyRelatedUserTypes r) h v"
    and computed: "\<And>h v c r' n r. visit h0 vr T R = (h, v) \<Longrightarrow> rw = Userset_ComputedUserset c \<Longrightarrow>
      find_relation td T R = Some r \<Longrightarrow>
      find_relation td T c = Some r' \<Longrightarrow> visited_value h v T c = None \<Longrightarrow> fuel = Suc n \<Longrightarrow>
      he_ok td n T c (rel_rewrite r') h v"
    and ttu: "\<And>h v x ts r. visit h0 vr T R = (h, v) \<Longrightarrow> rw = Userset_TupleToUserset x \<Longrightarrow>
      find_relation td T R = Some r \<Longrightarrow>
      find_relation td T (ttu_GetTupleset x) = Some ts \<Longrightarrow>
      ttu_ok td fuel (ttu_GetComputed x) (rel_DirectlyRelatedUserTypes ts) h v"
    and union: "\<And>h v cs r. visit h0 vr T R = (h, v) \<Longrightarrow> rw = Userset_Union cs \<Longrightarrow>
      find_relation td T R = Some r \<Longrightarrow> \<not> length cs < 2 \<Longrightarrow> union_ok td fuel T R cs False h vr"
    and inter: "\<And>h v cs r. visit h0 vr T R = (h, v) \<Longrightarrow> rw = Userset_Intersection cs \<Longrightarrow>
      find_relation td T R = Some r \<Longrightarrow> \<not> length cs < 2 \<Longrightarrow> all_ok td fuel T R cs h vr"
    and diff: "\<And>h v b s r. visit h0 vr T R = (h, v) \<Longrightarrow> rw = Userset_Difference b s \<Longrightarrow>
      find_relation td T R = Some r \<Longrightarrow> all_ok td fuel T R [b, s] h vr"
  shows "he_ok td fuel T R rw h0 vr"
  unfolding he_ok_def
proof (intro impI)
  assume o: "outer_ok h0 vr" and e: "entries td h0 vr (Some (T, R))"
  obtain h v where hv: "visit h0 vr T R = (h, v)" by (cases "visit h0 vr T R")
  note en = visit_enters [OF o hv e]
  let ?X = "Some (T, R)" and ?E = "entry td T R rw"
  let ?F = "unmarked td (insert (T, R) (marks h0 vr)) \<le> fuel"
  have F: "unmarked td (marks h v) \<le> fuel \<longleftrightarrow> ?F" by (simp only: en(5))
  have "insert (T, R) (marks h vr) = insert (T, R) (marks h0 vr)" using en(6,7) by auto
  then have F': "unmarked td (insert (T, R) (marks h vr)) \<le> fuel \<longleftrightarrow> ?F" by simp
  have stop: "he_post td ?X ?E ?F h0 vr (Inl err, h)" if "err \<noteq> OutOfFuel" for err
    using that en(2,4,6) by (auto simp: he_post_def)
  show "he_post td ?X ?E ?F h0 vr (hasEntrypoints td fuel T R rw h0 vr)"
  proof (cases "find_relation td T R")
    case None
    with stop hv show ?thesis by (simp add: hasEntrypoints.simps)
  next
    case (Some r)
    show ?thesis
    proof (cases rw)
      case Userset_Unset
      with stop hv Some show ?thesis by (simp add: hasEntrypoints.simps)
    next
      case Userset_This
      from direct [OF hv Some Userset_This] en(1,3) Some have
        "he_post td ?X ?E (unmarked td (marks h v) \<le> fuel) h v
          (he_this td fuel T R (rel_DirectlyRelatedUserTypes r) h v)"
        by (simp add: this_ok_def Userset_This)
      from en(8) [OF this] F hv Some Userset_This show ?thesis by (simp add: hasEntrypoints.simps)
    next
      case (Userset_ComputedUserset c)
      show ?thesis
      proof (cases "find_relation td T c")
        case None
        with stop hv Some Userset_ComputedUserset show ?thesis by (simp add: hasEntrypoints.simps)
      next
        case c: (Some r')
        show ?thesis
        proof (cases "visited_value h v T c")
          case visited: (Some b)
          have "b \<Longrightarrow> ?E" using visited en(3) Userset_ComputedUserset c
            by (auto simp: entries_def relation_entry_def intro: entry_computed)
          then have "he_post td ?X ?E ?F h v (Inr (b, True), h)"
            using en(1,3) by (auto simp: he_post_def entries_weaken)
          from en(8) [OF this] hv Some Userset_ComputedUserset c visited show ?thesis
            by (simp add: hasEntrypoints.simps)
        next
          case None
          show ?thesis
          proof (cases fuel)
            case 0
            have "\<not> ?F" using no_fuel [OF c None] 0 F by simp
            then have "he_post td ?X ?E ?F h0 vr (Inl OutOfFuel, h)"
              using en(2,4,6) by (auto simp: he_post_def)
            with hv Some Userset_ComputedUserset c None 0 show ?thesis by (simp add: hasEntrypoints.simps)
          next
            case (Suc n)
            obtain res h' where out: "hasEntrypoints td n T c (rel_rewrite r') h v = (res, h')"
              by (cases "hasEntrypoints td n T c (rel_rewrite r') h v")
            note nested = nested_call [OF computed [OF hv Userset_ComputedUserset Some c None Suc]
                c None en(1,3) out]
            have "he_post td ?X ?E ?F h v (res, h')"
              using nested F Suc Userset_ComputedUserset c
              by (auto simp: he_post_def entries_weaken intro: entry_computed)
            from en(8) [OF this] hv Some Userset_ComputedUserset c None Suc out show ?thesis
              by (simp add: hasEntrypoints.simps)
          qed
        qed
      qed
    next
      case (Userset_TupleToUserset x)
      show ?thesis
      proof (cases "find_relation td T (ttu_GetTupleset x)")
        case None
        with stop hv Some Userset_TupleToUserset show ?thesis by (simp add: hasEntrypoints.simps)
      next
        case ts: (Some ts)
        let ?out = "he_ttu td fuel (ttu_GetComputed x) (rel_DirectlyRelatedUserTypes ts) h v"
        from ttu [OF hv Userset_TupleToUserset Some ts] en(1,3) have
          "he_post td None (\<exists>ref \<in> set (rel_DirectlyRelatedUserTypes ts). relation_entry td (rr_type ref)
            (ttu_GetComputed x)) (unmarked td (marks h v) \<le> fuel) h v ?out" by (simp add: ttu_ok_def)
        then have "he_post td ?X ?E ?F h v ?out"
          using Userset_TupleToUserset ts F
          by (auto simp: he_post_def relation_entry_def entries_weaken intro: entry_ttu)
        from en(8) [OF this] hv Some Userset_TupleToUserset ts show ?thesis
          by (simp add: hasEntrypoints.simps)
      qed
    next
      case (Userset_Union cs)
      show ?thesis
      proof (cases "length cs < 2")
        case False
        from union [OF hv Userset_Union Some False] en(2,4) have
          "he_post td ?X (\<exists>c \<in> set cs. entry td T R c) (unmarked td (insert (T, R) (marks h vr)) \<le> fuel) h vr
            (he_union td fuel T R cs False h vr)" by (simp add: union_ok_def)
        then have "he_post td ?X ?E ?F h0 vr (he_union td fuel T R cs False h vr)"
          by (rule he_post_mono) (use en(6) F' Userset_Union in \<open>auto intro: entry_union\<close>)
        with hv Some Userset_Union False show ?thesis by (simp add: hasEntrypoints.simps)
      qed (use stop hv Some Userset_Union in \<open>simp add: hasEntrypoints.simps\<close>)
    next
      case (Userset_Intersection cs)
      show ?thesis
      proof (cases "length cs < 2")
        case False
        from inter [OF hv Userset_Intersection Some False] en(2,4) have
          "he_post td ?X (\<forall>c \<in> set cs. entry td T R c) (unmarked td (insert (T, R) (marks h vr)) \<le> fuel) h vr
            (he_all td fuel T R cs h vr)" by (simp add: all_ok_def entries_weaken)
        then have "he_post td ?X ?E ?F h0 vr (he_all td fuel T R cs h vr)"
          by (rule he_post_mono) (use en(6) F' Userset_Intersection in \<open>auto intro: entry_intersection\<close>)
        with hv Some Userset_Intersection False show ?thesis by (simp add: hasEntrypoints.simps)
      qed (use stop hv Some Userset_Intersection in \<open>simp add: hasEntrypoints.simps\<close>)
    next
      case (Userset_Difference b s)
      from diff [OF hv Userset_Difference Some] en(2,4) have
        "he_post td ?X (\<forall>c \<in> set [b, s]. entry td T R c) (unmarked td (insert (T, R) (marks h vr)) \<le> fuel) h vr
          (he_all td fuel T R [b, s] h vr)" unfolding all_ok_def using entries_weaken by blast
      then have "he_post td ?X ?E ?F h0 vr (he_all td fuel T R [b, s] h vr)"
        by (rule he_post_mono) (use en(6) F' Userset_Difference in \<open>auto intro: entry_difference\<close>)
      with hv Some Userset_Difference show ?thesis
        by (subst hasEntrypoints.simps) (simp del: he_all.simps)
    qed
  qed
qed

lemma hasEntrypoints_ok:
  "he_ok td fuel T R rw h vr" "this_ok td fuel T R refs h vr" "ttu_ok td fuel c refs h vr"
  "union_ok td fuel T R cs l h vr" "all_ok td fuel T R cs h vr"
proof (induction td fuel T R rw h vr and td fuel T R refs h vr and td fuel c refs h vr and
    td fuel T R cs l h vr and td fuel T R cs h vr
    rule: hasEntrypoints_he_this_he_ttu_he_union_he_all.induct)
  case (1 td fuel T R rw h vr)
  show ?case by (rule call_case) (rule 1; simp)+
next
  case (3 td fuel T R ref refs h v)
  show ?case
    by (rule this_Cons) ((rule 3, (assumption | rule refl | erule sym | simp)+)[1])+
next
  case (5 td fuel c ref refs h v)
  show ?case
    by (rule ttu_Cons) ((rule 5, (assumption | rule refl | erule sym | simp)+)[1])+
next
  case (7 td fuel T R c cs l h vr)
  show ?case
    by (rule union_Cons) ((rule 7, ((assumption | rule refl | erule sym | simp)+)?)[1])+
next
  case (9 td fuel T R c cs h vr)
  show ?case
    by (rule all_Cons) ((rule 9, ((assumption | rule refl | erule sym | simp)+)?)[1])+
qed (auto simp: this_ok_def ttu_ok_def union_ok_def all_ok_def he_post_def entries_weaken)

subsection \<open>Cycles\<close>

definition computed_step :: "type_system \<Rightarrow> string \<Rightarrow> string \<Rightarrow> string \<Rightarrow> bool" where
  "computed_step t T R c \<longleftrightarrow> (\<exists>r. TypeSystem_GetRelation t T R = Inr r \<and>
     Userset_ComputedUserset c \<in> set (rewrite_nodes (rel_rewrite r)))"

text \<open>A chain of computed relations from the relation runs into a cycle.\<close>

definition reaches_cycle :: "type_system \<Rightarrow> string \<Rightarrow> string \<Rightarrow> bool" where
  "reaches_cycle t T R \<longleftrightarrow> (\<exists>c. (computed_step t T)\<^sup>*\<^sup>* R c \<and> (computed_step t T)\<^sup>+\<^sup>+ c c)"

lemma reaches_cycle_step: "computed_step t T R c \<Longrightarrow> reaches_cycle t T c \<Longrightarrow> reaches_cycle t T R"
  unfolding reaches_cycle_def by (meson converse_rtranclp_into_rtranclp)

lemma key_eq [simp]: "ToObjectRelationString T a = ToObjectRelationString T b \<longleftrightarrow> a = b"
  by (simp add: ToObjectRelationString_def)

declare hasCycle.simps [simp del]

lemma hasCycle_sound:
  "hasCycle t T R rw visited = Inr True \<Longrightarrow>
    \<forall>c. Userset_ComputedUserset c \<in> set (rewrite_nodes rw) \<longrightarrow> computed_step t T R c \<Longrightarrow>
    \<forall>k \<in> visited. \<exists>q. k = ToObjectRelationString T q \<and> (computed_step t T)\<^sup>*\<^sup>* q R \<Longrightarrow> reaches_cycle t T R"
  "hasCycle_children t T R cs visited = Inr True \<Longrightarrow>
    \<forall>rw \<in> set cs. \<forall>c. Userset_ComputedUserset c \<in> set (rewrite_nodes rw) \<longrightarrow> computed_step t T R c \<Longrightarrow>
    \<forall>k \<in> visited. \<exists>q. k = ToObjectRelationString T q \<and> (computed_step t T)\<^sup>*\<^sup>* q R \<Longrightarrow> reaches_cycle t T R"
proof (induction t T R rw visited and t T R cs visited rule: hasCycle_hasCycle_children.induct)
  case (1 t T R rw visited)
  let ?v = "insert (ToObjectRelationString T R) visited"
  have v: "\<forall>k \<in> ?v. \<exists>q. k = ToObjectRelationString T q \<and> (computed_step t T)\<^sup>*\<^sup>* q R"
    using 1(7) by auto
  show ?case
  proof (cases rw)
    case (Userset_ComputedUserset c)
    with 1(6) have step: "computed_step t T R c" by simp
    show ?thesis
    proof (cases "ToObjectRelationString T c \<in> ?v")
      case True
      with v have "(computed_step t T)\<^sup>*\<^sup>* c R" by auto
      with step have "(computed_step t T)\<^sup>+\<^sup>+ R R" by (rule tranclp_rtranclp_tranclp [OF tranclp.r_into_trancl])
      then show ?thesis unfolding reaches_cycle_def by blast
    next
      case False
      with 1(5) Userset_ComputedUserset obtain r where r: "TypeSystem_GetRelation t T c = Inr r"
        "hasCycle t T c (rel_rewrite r) ?v = Inr True"
        by (simp add: hasCycle.simps Let_def split: sum.splits)
      have "\<forall>k \<in> ?v. \<exists>q. k = ToObjectRelationString T q \<and> (computed_step t T)\<^sup>*\<^sup>* q c"
        using v step by (meson rtranclp.rtrancl_into_rtrancl)
      moreover have "\<forall>c'. Userset_ComputedUserset c' \<in> set (rewrite_nodes (rel_rewrite r)) \<longrightarrow> computed_step t T c c'"
        using r(1) by (auto simp: computed_step_def)
      ultimately have "reaches_cycle t T c"
        using 1(1) [OF refl Userset_ComputedUserset False r] by blast
      with step show ?thesis by (rule reaches_cycle_step)
    qed
  next
    case (Userset_Difference b s)
    with 1(5) have "hasCycle_children t T R [b, s] ?v = Inr True"
      by (simp add: hasCycle.simps [of t T R "Userset_Difference b s"] Let_def del: hasCycle_children.simps)
    with 1(4,6) Userset_Difference v show ?thesis by simp
  qed (use 1 v in \<open>auto simp: hasCycle.simps [of t T R] Let_def\<close>)
next
  case (3 t T R c cs visited)
  show ?case
  proof (cases "hasCycle t T R c visited = Inr True")
    case True
    with 3 show ?thesis by simp
  next
    case False
    with 3 show ?thesis by (auto split: sum.splits bool.splits)
  qed
qed simp

abbreviation acyclic_from :: "type_system \<Rightarrow> string \<Rightarrow> string \<Rightarrow> bool" where
  "acyclic_from t T \<equiv> Wellfounded.accp (\<lambda>x y. computed_step t T y x)"

lemma hasCycle_complete:
  "hasCycle t T R rw visited = Inr False \<Longrightarrow>
    Userset_ComputedUserset c \<in> set (rewrite_nodes rw) \<Longrightarrow> acyclic_from t T c"
  "hasCycle_children t T R cs visited = Inr False \<Longrightarrow> rw' \<in> set cs \<Longrightarrow>
    Userset_ComputedUserset c \<in> set (rewrite_nodes rw') \<Longrightarrow> acyclic_from t T c"
proof (induction t T R rw visited and t T R cs visited arbitrary: c and c rw'
    rule: hasCycle_hasCycle_children.induct)
  case (1 t T R rw visited)
  show ?case
  proof (cases rw)
    case (Userset_ComputedUserset d)
    let ?v = "insert (ToObjectRelationString T R) visited"
    from 1(6) Userset_ComputedUserset have "c = d" by simp
    from 1(5) Userset_ComputedUserset obtain r where r: "TypeSystem_GetRelation t T d = Inr r"
      "hasCycle t T d (rel_rewrite r) ?v = Inr False" "ToObjectRelationString T d \<notin> ?v"
      by (auto simp add: hasCycle.simps Let_def split: sum.splits if_splits)
    then have "acyclic_from t T x" if "computed_step t T d x" for x
      using 1(1) [OF refl Userset_ComputedUserset r(3) r(1,2)] that by (auto simp: computed_step_def)
    then show ?thesis unfolding \<open>c = d\<close> by (auto intro: accp.intros)
  next
    case (Userset_Difference b s)
    with 1(5) have "hasCycle_children t T R [b, s] (insert (ToObjectRelationString T R) visited) = Inr False"
      by (simp add: hasCycle.simps [of t T R "Userset_Difference b s"] Let_def del: hasCycle_children.simps)
    from 1(4) [OF refl Userset_Difference this] 1(6) Userset_Difference show ?thesis by auto
  qed (use 1 in \<open>auto simp: hasCycle.simps [of t T R] Let_def\<close>)
next
  case (3 t T R d cs visited)
  then show ?case by (auto split: sum.splits bool.splits)
qed simp

lemma acyclic_no_cycle:
  assumes "acyclic_from t T R"
  shows "\<not> reaches_cycle t T R"
  using assms
proof induction
  case (1 x)
  have "False" if "(computed_step t T)\<^sup>+\<^sup>+ x x"
  proof -
    from that obtain y where y: "computed_step t T x y" "(computed_step t T)\<^sup>*\<^sup>* y x"
      by (meson tranclpD)
    with that have "reaches_cycle t T y" unfolding reaches_cycle_def by blast
    with 1(2) [OF y(1)] show False by blast
  qed
  with 1(2) show ?case unfolding reaches_cycle_def by (metis converse_rtranclpE)
qed

lemma HasCycle_correct:
  assumes "HasCycle t T R = Inr b"
  shows "b \<longleftrightarrow> reaches_cycle t T R"
proof -
  from assms obtain r where r: "TypeSystem_GetRelation t T R = Inr r"
    "hasCycle t T R (rel_rewrite r) {} = Inr b" by (auto simp: HasCycle_def split: sum.splits)
  have steps: "computed_step t T R c \<longleftrightarrow> Userset_ComputedUserset c \<in> set (rewrite_nodes (rel_rewrite r))" for c
    using r(1) by (simp add: computed_step_def)
  show ?thesis
  proof (cases b)
    case True
    with r(2) hasCycle_sound(1) [of t T R "rel_rewrite r" "{}"] steps show ?thesis by simp
  next
    case False
    with r(2) hasCycle_complete(1) [of t T R "rel_rewrite r" "{}"]
    have "acyclic_from t T R" by (auto intro: accp.intros simp: steps)
    with False acyclic_no_cycle show ?thesis by blast
  qed
qed

subsection \<open>What validation guarantees\<close>

text \<open>A node of a rewrite refers only to relations that exist.\<close>

definition node_valid :: "type_system \<Rightarrow> string \<Rightarrow> string \<Rightarrow> userset \<Rightarrow> bool" where
  "node_valid t T R n \<longleftrightarrow> (case n of
     Userset_Unset \<Rightarrow> False
   | Userset_ComputedUserset c \<Rightarrow> c \<noteq> R \<and> is_ok (TypeSystem_GetRelation t T c)
   | Userset_TupleToUserset x \<Rightarrow> (\<exists>ts. TypeSystem_GetRelation t T (ttu_GetTupleset x) = Inr ts \<and>
       rel_rewrite ts = Userset_This \<and>
       (\<exists>ref \<in> set (rel_DirectlyRelatedUserTypes ts). is_ok (TypeSystem_GetRelation t (rr_type ref) (ttu_GetComputed x))))
   | _ \<Rightarrow> True)"

lemma rewrite_valid_nodes:
  assumes "IsSchemaVersionSupported (ts_schemaVersion t)"
  shows "isUsersetRewriteValid t T R rw = Inr () \<longleftrightarrow> (\<forall>n \<in> set (rewrite_nodes rw). node_valid t T R n)"
proof (induction rw)
  case (Userset_TupleToUserset x)
  with assms show ?case by (auto simp: node_valid_def split: sum.split)
next
  case (Userset_Union cs)
  then show ?case by (auto simp: node_valid_def)
next
  case (Userset_Intersection cs)
  then show ?case by (auto simp: node_valid_def)
next
  case (Userset_Difference b s)
  then show ?case by (auto simp: node_valid_def)
qed (auto simp: node_valid_def)

definition restriction_valid :: "type_system \<Rightarrow> string \<Rightarrow> string \<Rightarrow> relation_reference \<Rightarrow> bool" where
  "restriction_valid t T R ref \<longleftrightarrow>
     is_ok (TypeSystem_GetRelations t (rr_type ref)) \<and>
     (rr_relationOrWildcard ref \<noteq> None \<longrightarrow> IsTuplesetRelation t T R \<noteq> Inr True \<and>
       (rr_HasWildcard ref \<or> rr_GetRelation ref \<noteq> [] \<and>
         is_ok (TypeSystem_GetRelation t (rr_type ref) (rr_GetRelation ref)))) \<and>
     (rr_condition ref = [] \<or> IsInlineExpression (rr_condition ref) \<or> GetCondition t (rr_condition ref) \<noteq> None)"

lemma validateTypeRestriction_iff:
  "validateTypeRestriction t T R ref = Inr () \<longleftrightarrow> restriction_valid t T R ref"
  by (auto simp: validateTypeRestriction_def restriction_valid_def Let_def)

text \<open>A relation of a valid model.\<close>

definition relation_valid :: "type_system \<Rightarrow> string \<Rightarrow> string \<Rightarrow> relation \<Rightarrow> bool" where
  "relation_valid t T R r \<longleftrightarrow>
     (\<forall>n \<in> set (rewrite_nodes (rel_rewrite r)). node_valid t T R n) \<and>
     (Userset_This \<in> set (rewrite_nodes (rel_rewrite r)) \<longleftrightarrow> rel_DirectlyRelatedUserTypes r \<noteq> []) \<and>
     (\<forall>ref \<in> set (rel_DirectlyRelatedUserTypes r). restriction_valid t T R ref) \<and>
     relation_entry (ts_relations t) T R \<and> \<not> reaches_cycle t T R"

lemma outer_ok_empty: "outer_ok [] []" "entries td [] [] X" "marks [] [] = {}"
  by (auto simp: outer_ok_def entries_def marks_def visited_value_def)

lemma hasEntrypoints_initial:
  assumes "hasEntrypoints (ts_relations t) fuel T R rw [] [] = (res, h)"
  shows "res = Inr (True, b) \<Longrightarrow> entry (ts_relations t) T R rw"
    and "relation_count t \<le> fuel \<Longrightarrow> res \<noteq> Inl OutOfFuel"
proof -
  have post: "he_post (ts_relations t) (Some (T, R)) (entry (ts_relations t) T R rw)
      (unmarked (ts_relations t) {(T, R)} \<le> fuel) [] [] (res, h)"
    using hasEntrypoints_ok(1) [of "ts_relations t" fuel T R rw "[]" "[]"] assms
    by (simp add: he_ok_def outer_ok_empty)
  then show "res = Inr (True, b) \<Longrightarrow> entry (ts_relations t) T R rw" by (simp add: he_post_def)
  have "unmarked (ts_relations t) {(T, R)} \<le> unmarked (ts_relations t) {}" by (rule unmarked_mono) simp
  also have "\<dots> \<le> relation_count t"
    using finite_defined(2) [of "ts_relations t"] by (simp add: unmarked_def relation_count_def)
  finally show "relation_count t \<le> fuel \<Longrightarrow> res \<noteq> Inl OutOfFuel"
    using post by (auto simp: he_post_def)
qed

lemma find_relation_GetRelation:
  "TypeSystem_GetRelation t T R = Inr r \<Longrightarrow> find_relation (ts_relations t) T R = Some r"
  by (auto simp: TypeSystem_GetRelation_def TypeSystem_GetRelations_def find_relation_def split: option.splits)

lemma validateRelation_sound:
  assumes "IsSchemaVersionSupported (ts_schemaVersion t)" and r: "TypeSystem_GetRelation t T R = Inr r"
    and rw: "map_of relationMap R = Some (rel_rewrite r)" and ok: "validateRelation t T R relationMap = Inr ()"
  shows "relation_valid t T R r"
proof -
  from ok rw obtain loop where rewrite: "isUsersetRewriteValid t T R (rel_rewrite r) = Inr ()"
    and types: "validateTypeRestrictions t T R = Inr ()"
    and entry: "fst (hasEntrypoints (ts_relations t) (relation_count t) T R (rel_rewrite r) [] []) = Inr (True, loop)"
    and cycle: "HasCycle t T R = Inr False"
    by (auto simp: validateRelation_def Let_def split: if_splits)
  have nodes: "\<forall>n \<in> set (rewrite_nodes (rel_rewrite r)). node_valid t T R n"
    using rewrite_valid_nodes [OF assms(1)] rewrite by blast
  then have no_nil: "Userset_Unset \<notin> set (rewrite_nodes (rel_rewrite r))" by (auto simp: node_valid_def)
  from types RewriteContainsSelf_nodes [OF no_nil] r
  have "Userset_This \<in> set (rewrite_nodes (rel_rewrite r)) \<longleftrightarrow> rel_DirectlyRelatedUserTypes r \<noteq> []"
    "\<forall>ref \<in> set (rel_DirectlyRelatedUserTypes r). restriction_valid t T R ref"
    by (auto simp: validateTypeRestrictions_def IsDirectlyAssignable_def validateTypeRestriction_iff Let_def
      split: if_splits)
  moreover have "relation_entry (ts_relations t) T R"
    using hasEntrypoints_initial(1) [OF prod.collapse [symmetric] entry] find_relation_GetRelation [OF r]
    by (auto simp: relation_entry_def)
  moreover have "\<not> reaches_cycle t T R" using HasCycle_correct [OF cycle] by simp
  ultimately show ?thesis using nodes by (simp add: relation_valid_def)
qed

definition valid_model :: "(condition \<Rightarrow> (string, unit) result) \<Rightarrow> authorization_model \<Rightarrow> bool" where
  "valid_model compile model \<longleftrightarrow>
     IsSchemaVersionSupported (am_schemaVersion model) \<and>
     distinct (map td_type (am_typeDefinitions model)) \<and>
     (\<forall>td \<in> set (am_typeDefinitions model). td_type td \<noteq> [] \<and> \<not> reserved (td_type td) \<and>
       (\<forall>(R, _) \<in> set (td_relations td). R \<noteq> [] \<and> \<not> reserved R \<and>
         (\<exists>r. TypeSystem_GetRelation (newWithoutGraphs model) (td_type td) R = Inr r \<and>
           relation_valid (newWithoutGraphs model) (td_type td) R r))) \<and>
     (\<forall>(key, c) \<in> set (am_conditions model). key = c_name c \<and> is_ok (compile c))"

lemma containsDuplicateType_iff: "containsDuplicateType model \<longleftrightarrow> \<not> distinct (map td_type (am_typeDefinitions model))"
proof -
  have "duplicate_loop seen tds \<longleftrightarrow> \<not> (distinct (map td_type tds) \<and> set (map td_type tds) \<inter> seen = {})"
    for seen tds by (induction tds arbitrary: seen) auto
  then show ?thesis by (simp add: containsDuplicateType_def)
qed

lemma model_type_in:
  assumes "distinct (map td_type (am_typeDefinitions model))" and "td \<in> set (am_typeDefinitions model)"
  shows "model_type model (td_type td) = Some td"
proof -
  have "distinct (map fst (rev (map (\<lambda>td. (td_type td, td)) (am_typeDefinitions model))))"
    using assms(1) by (simp add: rev_map comp_def distinct_rev flip: rev_map)
  then show ?thesis using assms(2) unfolding model_type_def by (intro map_of_is_SomeI) auto
qed

lemma schema_new [simp]: "ts_schemaVersion (newWithoutGraphs model) = am_schemaVersion model"
  "ts_conditions (newWithoutGraphs model) = am_conditions model"
  by (simp_all add: newWithoutGraphs_def Let_def)

lemma typeDefinitions_new:
  "map_of (ts_typeDefinitions (newWithoutGraphs model)) T = model_type model T"
  using GetTypeDefinition_new by (simp add: GetTypeDefinition_def)

lemma typeDefinition_in:
  assumes "model_type model T = Some td"
  shows "(T, td) \<in> set (ts_typeDefinitions (newWithoutGraphs model))"
  using assms typeDefinitions_new by (metis map_of_SomeD)

lemma validateModel_relation:
  assumes "validateModel compile model = Inr t" and "model_type model T = Some td"
    and "map_of (td_relations td) R = Some rw"
  shows "validateRelation (newWithoutGraphs model) T R (td_relations td) = Inr ()"
proof -
  have "T \<in> set (sort (map fst (ts_typeDefinitions (newWithoutGraphs model))))"
    using typeDefinition_in [OF assms(2)] by force
  moreover have "R \<in> set (sort (map fst (td_relations td)))"
    using assms(3) by (force dest: map_of_SomeD)
  moreover
  let ?map = "\<lambda>T. case map_of (ts_typeDefinitions (newWithoutGraphs model)) T of None \<Rightarrow> []
      | Some td \<Rightarrow> td_relations td"
  let ?loop = "\<lambda>T. for_each (\<lambda>R. validateRelation (newWithoutGraphs model) T R (?map T))
      (sort (map fst (?map T)))"
  have "for_each ?loop (sort (map fst (ts_typeDefinitions (newWithoutGraphs model)))) = Inr ()"
    using assms(1) by (auto simp: validateModel_def Let_def simp del: for_each_Inr_iff split: if_splits)
  ultimately have "?loop T = Inr ()" unfolding for_each_Inr_iff by blast
  moreover have "?map T = td_relations td" by (simp add: typeDefinitions_new assms(2))
  ultimately show ?thesis
    using \<open>R \<in> set (sort (map fst (td_relations td)))\<close> by (simp only: for_each_Inr_iff)
qed

lemma validateModel_sound:
  assumes "validateModel compile model = Inr t"
  shows "t = newWithoutGraphs model \<and> valid_model compile model"
proof
  let ?t = "newWithoutGraphs model"
  from assms have t: "t = ?t" and schema: "IsSchemaVersionSupported (am_schemaVersion model)"
    and distinct: "distinct (map td_type (am_typeDefinitions model))"
    and names: "validateNames ?t = Inr ()" and conditions: "validateConditions compile ?t = Inr ()"
    by (auto simp: validateModel_def Let_def containsDuplicateType_iff split: if_splits)
  show "t = ?t" by (rule t)
  have "td_type td \<noteq> [] \<and> \<not> reserved (td_type td) \<and>
      (\<forall>(R, _) \<in> set (td_relations td). R \<noteq> [] \<and> \<not> reserved R \<and>
        (\<exists>r. TypeSystem_GetRelation ?t (td_type td) R = Inr r \<and> relation_valid ?t (td_type td) R r))"
    if td: "td \<in> set (am_typeDefinitions model)" for td
  proof -
    note type = model_type_in [OF distinct td]
    have nm: "td_type td \<noteq> [] \<and> \<not> reserved (td_type td) \<and> (\<forall>(R, _) \<in> set (td_relations td). R \<noteq> [] \<and> \<not> reserved R)"
    proof -
      let ?f = "\<lambda>(_, td). let objectType = td_type td in
        if objectType = [] then Inl EmptyTypeName
        else if reserved objectType then Inl (InvalidTypeError objectType ErrReservedKeywords)
        else for_each (\<lambda>(relation, _ :: userset).
          if relation = [] then Inl (EmptyRelationName objectType)
          else if reserved relation then Inl (InvalidRelationError objectType relation ErrReservedKeywords)
          else Inr ()) (td_relations td)"
      have "?f (td_type td, td) = Inr ()"
        using names typeDefinition_in [OF type] unfolding validateNames_def for_each_Inr_iff by blast
      then show ?thesis by (auto simp: Let_def split: if_splits)
    qed
    have "\<exists>r. TypeSystem_GetRelation ?t (td_type td) R = Inr r \<and> relation_valid ?t (td_type td) R r"
      if in_td: "(R, rw) \<in> set (td_relations td)" for R rw
    proof -
      obtain rw' where rw': "map_of (td_relations td) R = Some rw'"
        using weak_map_of_SomeI [OF in_td] by blast
      have r: "TypeSystem_GetRelation ?t (td_type td) R = Inr (newRelation td R rw')"
        using type rw' by (simp add: GetRelation_new)
      have "relation_valid ?t (td_type td) R (newRelation td R rw')"
        by (rule validateRelation_sound [OF _ r _ validateModel_relation [OF assms type rw']])
          (use schema rw' in \<open>simp_all add: newRelation_def\<close>)
      with r show ?thesis by blast
    qed
    with nm show ?thesis by fast
  qed
  moreover have "\<forall>(key, c) \<in> set (am_conditions model). key = c_name c \<and> is_ok (compile c)"
    using conditions by (fastforce simp: validateConditions_def split: if_splits sum.splits)
  ultimately show "valid_model compile model"
    using schema distinct unfolding valid_model_def by blast
qed

subsection \<open>Validation never panics\<close>

abbreviation model_failure :: "ts_error \<Rightarrow> bool" where
  "model_failure e \<equiv> e = RuntimePanic \<or> e = OutOfFuel"

lemma GetRelation_error: "TypeSystem_GetRelation t T R = Inl e \<Longrightarrow> \<not> model_failure e"
  by (auto simp: TypeSystem_GetRelation_def TypeSystem_GetRelations_def split: option.splits)

lemma rewrite_error: "isUsersetRewriteValid t T R rw = Inl e \<Longrightarrow> \<not> model_failure e"
  by (induction rw arbitrary: e)
    (auto simp: rbind_Inl_iff dest!: for_each_Inl split: if_splits sum.splits)

lemma hasCycle_error:
  "hasCycle t T R rw visited = Inl e \<Longrightarrow> \<not> model_failure e"
  "hasCycle_children t T R cs visited = Inl e \<Longrightarrow> \<not> model_failure e"
proof (induction t T R rw visited and t T R cs visited rule: hasCycle_hasCycle_children.induct)
  case (1 t T R rw visited)
  show ?case
  proof (cases rw)
    case (Userset_Difference b s)
    with 1(5) have "hasCycle_children t T R [b, s] (insert (ToObjectRelationString T R) visited) = Inl e"
      by (simp add: hasCycle.simps [of t T R "Userset_Difference b s"] Let_def del: hasCycle_children.simps)
    from 1(4) [OF refl Userset_Difference this] show ?thesis .
  qed (use 1 in \<open>auto simp: hasCycle.simps [of t T R] Let_def dest: GetRelation_error
        split: if_splits sum.splits\<close>)
qed (auto split: sum.splits bool.splits)

lemma hasEntrypoints_error:
  "hasEntrypoints td fuel T R rw h v \<noteq> (Inl RuntimePanic, h')"
  "he_this td fuel T R refs h v \<noteq> (Inl RuntimePanic, h')"
  "he_ttu td fuel c refs h v \<noteq> (Inl RuntimePanic, h')"
  "he_union td fuel T R cs l h v \<noteq> (Inl RuntimePanic, h')"
  "he_all td fuel T R cs h v \<noteq> (Inl RuntimePanic, h')"
proof (induction td fuel T R rw h v and td fuel T R refs h v and td fuel c refs h v and
    td fuel T R cs l h v and td fuel T R cs h v arbitrary: h' and h' and h' and h' and h' rule: hasEntrypoints_he_this_he_ttu_he_union_he_all.induct)
  case (1 td fuel T R rw h v)
  show ?case
    by (subst hasEntrypoints.simps)
      (auto simp: Let_def simp del: he_all.simps split: prod.split option.split userset.split nat.split;
        erule notE [rotated], rule 1, (assumption | rule refl | erule sym | simp)+)
qed (auto simp: Let_def split: prod.splits sum.splits option.splits nat.splits)

lemma restriction_error: "validateTypeRestriction t T R ref = Inl e \<Longrightarrow> \<not> model_failure e"
  by (auto simp: validateTypeRestriction_def Let_def rbind_Inl_iff split: if_splits)

lemma validateRelation_error:
  assumes schema: "IsSchemaVersionSupported (ts_schemaVersion t)"
    and r: "TypeSystem_GetRelation t T R = Inr r" and rw: "map_of relationMap R = Some (rel_rewrite r)"
    and e: "validateRelation t T R relationMap = Inl e"
  shows "\<not> model_failure e"
proof (cases "isUsersetRewriteValid t T R (rel_rewrite r)")
  case (Inl e')
  with e rw rewrite_error show ?thesis by (auto simp: validateRelation_def)
next
  case (Inr u)
  then have "Userset_Unset \<notin> set (rewrite_nodes (rel_rewrite r))"
    using rewrite_valid_nodes [OF schema] by (auto simp: node_valid_def)
  from RewriteContainsSelf_nodes [OF this] r
  have types: "validateTypeRestrictions t T R = Inl e' \<Longrightarrow> \<not> model_failure e'" for e'
    by (auto simp: validateTypeRestrictions_def IsDirectlyAssignable_def Let_def dest!: for_each_Inl
        dest: restriction_error split: if_splits)
  have entries: "fst (hasEntrypoints (ts_relations t) (relation_count t) T R (rel_rewrite r) [] []) = Inl e' \<Longrightarrow>
      \<not> model_failure e'" for e'
    using hasEntrypoints_error(1) hasEntrypoints_initial(2) [OF prod.collapse [symmetric]]
    by (metis order_refl prod.collapse)
  have cycle: "HasCycle t T R = Inl e' \<Longrightarrow> \<not> model_failure e'" for e'
    using hasCycle_error(1) r by (auto simp: HasCycle_def)
  from e rw Inr show ?thesis
    by (auto simp: validateRelation_def Let_def rbind_Inl_iff dest: types entries cycle split: if_splits)
qed

lemma NewAndValidate_Inr:
  assumes "NewAndValidate compile build model = Inr (t, g)"
  shows "validateModel compile model = Inr t" and "build model = Inr g"
proof -
  from assms obtain t' where t': "validateModel compile model = Inr t'" "attachGraphs build model t' = Inr (t, g)"
    by (auto simp: NewAndValidate_def)
  then show "validateModel compile model = Inr t" "build model = Inr g"
    by (simp_all add: attachGraphs_def split: sum.splits)
qed

section \<open>Properties\<close>

text \<open>
  C15: A model that passes validation is well formed: a supported schema version, no duplicate,
  empty or reserved names, every rewrite refers to relations that exist, a relation has type
  restrictions exactly when it has a direct part, each restriction is on a type, relation and
  condition of the model, every relation has an entrypoint and none runs into a cycle of computed
  relations; and the type system returned is the one built from the model, with its graphs.
\<close>

theorem NewAndValidate_sound:
  assumes "NewAndValidate compile build model = Inr (t, g)"
  shows "t = newWithoutGraphs model \<and> build model = Inr g \<and> valid_model compile model"
  using NewAndValidate_Inr [OF assms] validateModel_sound by blast

definition sample_valid_model :: authorization_model where
  "sample_valid_model = \<lparr>am_id = ''01'', am_schemaVersion = ''1.1'',
     am_typeDefinitions =
       [\<lparr>td_type = ''u'', td_relations = [], td_metadata = []\<rparr>,
        \<lparr>td_type = ''d'',
         td_relations = [(''w'', Userset_This), (''r'', Userset_Union [Userset_This, Userset_ComputedUserset ''w''])],
         td_metadata = [(''w'', [DirectRelationReference ''u'' []]), (''r'', [WildcardRelationReference ''u''])]\<rparr>],
     am_conditions = []\<rparr>"

lemma NewAndValidate_sound_witness:
  "valid_model (\<lambda>_. Inr ()) sample_valid_model"
proof -
  have "NewAndValidate (\<lambda>_. Inr ()) (\<lambda>_. Inr ()) sample_valid_model =
      Inr (newWithoutGraphs sample_valid_model, ())"
    by code_simp
  from NewAndValidate_sound [OF this] show ?thesis by blast
qed


text \<open>
  C23: The cycle check answers whether a chain of computed relations that starts at the relation
  runs into a cycle.
\<close>

theorem has_cycle_iff:
  assumes "HasCycle t T R = Inr b"
  shows "b \<longleftrightarrow> reaches_cycle t T R"
  using assms by (rule HasCycle_correct)

lemma has_cycle_iff_witness:
  "reaches_cycle (newWithoutGraphs \<lparr>am_id = ''01'', am_schemaVersion = ''1.1'',
     am_typeDefinitions = [\<lparr>td_type = ''d'',
       td_relations = [(''a'', Userset_ComputedUserset ''b''),
         (''b'', Userset_Union [Userset_This, Userset_ComputedUserset ''a''])], td_metadata = []\<rparr>],
     am_conditions = []\<rparr>) ''d'' ''a''"
proof -
  have "HasCycle (newWithoutGraphs \<lparr>am_id = ''01'', am_schemaVersion = ''1.1'',
     am_typeDefinitions = [\<lparr>td_type = ''d'',
       td_relations = [(''a'', Userset_ComputedUserset ''b''),
         (''b'', Userset_Union [Userset_This, Userset_ComputedUserset ''a''])], td_metadata = []\<rparr>],
     am_conditions = []\<rparr>) ''d'' ''a'' = Inr True"
    by code_simp
  from has_cycle_iff [OF this] show ?thesis by simp
qed

text \<open>
  C22: The search for entrypoints ends within a fuel of the number of relations, and when it
  answers yes the rewrite can relate to a concrete type.
\<close>

theorem entrypoints_sound:
  "fst (hasEntrypoints (ts_relations t) (relation_count t) T R rw [] []) \<noteq> Inl OutOfFuel \<and>
   (fst (hasEntrypoints (ts_relations t) (relation_count t) T R rw [] []) = Inr (True, loop) \<longrightarrow>
     entry (ts_relations t) T R rw)"
  using hasEntrypoints_initial [OF prod.collapse [symmetric]] by (metis order_refl)

lemma entrypoints_sound_witness:
  "entry (ts_relations (newWithoutGraphs sample_valid_model)) ''d'' ''r'' (Userset_ComputedUserset ''w'')"
proof -
  have "fst (hasEntrypoints (ts_relations (newWithoutGraphs sample_valid_model))
      (relation_count (newWithoutGraphs sample_valid_model)) ''d'' ''r'' (Userset_ComputedUserset ''w'') [] []) =
    Inr (True, False)"
    by code_simp
  then show ?thesis using entrypoints_sound by blast
qed

definition shared_marks_model :: "(string \<times> userset) list \<Rightarrow> authorization_model" where
  "shared_marks_model extra = \<lparr>am_id = ''01'', am_schemaVersion = ''1.1'',
     am_typeDefinitions =
       [\<lparr>td_type = ''u'', td_relations = [], td_metadata = []\<rparr>,
        \<lparr>td_type = ''d'',
         td_relations = [(''x'', Userset_Union [Userset_ComputedUserset ''y'', Userset_This]),
           (''y'', Userset_This),
           (''c'', Userset_Intersection [Userset_ComputedUserset ''x'', Userset_ComputedUserset ''y''])] @ extra,
         td_metadata = [(''x'', [DirectRelationReference ''u'' []]),
           (''y'', [DirectRelationReference ''d'' ''x''])]\<rparr>],
     am_conditions = []\<rparr>"

text \<open>
  C34: Validation rejects a well-formed model. With \<open>x: y or [u]\<close>, \<open>y: [d#x]\<close>, \<open>c: x and y\<close>
  and \<open>e: c\<close> every relation has an entrypoint and there is no cycle, but while \<open>x\<close> is checked for
  \<open>e\<close> the relation \<open>y\<close> is marked without an entrypoint, and the mark, in a map that the clones
  share, outlives the check of \<open>x\<close>. Without the relation \<open>e\<close> the model passes.
\<close>

theorem valid_model_rejected:
  "valid_model (\<lambda>_. Inr ()) (shared_marks_model [(''e'', Userset_ComputedUserset ''c'')]) \<and>
   NewAndValidate (\<lambda>_. Inr ()) build (shared_marks_model [(''e'', Userset_ComputedUserset ''c'')]) =
     Inl (InvalidRelationError ''d'' ''e'' ErrNoEntryPointsLoop) \<and>
   is_ok (NewAndValidate (\<lambda>_. Inr ()) (\<lambda>_. Inr ()) (shared_marks_model []))"
proof (intro conjI)
  let ?m = "shared_marks_model [(''e'', Userset_ComputedUserset ''c'')]"
  let ?t = "newWithoutGraphs ?m"
  show "is_ok (NewAndValidate (\<lambda>_. Inr ()) (\<lambda>_. Inr ()) (shared_marks_model []))" by code_simp
  have "validateModel (\<lambda>_. Inr ()) ?m = Inl (InvalidRelationError ''d'' ''e'' ErrNoEntryPointsLoop)"
    by code_simp
  then show "NewAndValidate (\<lambda>_. Inr ()) build ?m = Inl (InvalidRelationError ''d'' ''e'' ErrNoEntryPointsLoop)"
    by (simp add: NewAndValidate_def)
  have tds: "am_typeDefinitions ?m = [\<lparr>td_type = ''u'', td_relations = [], td_metadata = []\<rparr>,
      \<lparr>td_type = ''d'', td_relations = [(''x'', Userset_Union [Userset_ComputedUserset ''y'', Userset_This]),
           (''y'', Userset_This),
           (''c'', Userset_Intersection [Userset_ComputedUserset ''x'', Userset_ComputedUserset ''y'']),
           (''e'', Userset_ComputedUserset ''c'')],
         td_metadata = [(''x'', [DirectRelationReference ''u'' []]),
           (''y'', [DirectRelationReference ''d'' ''x''])]\<rparr>]" (is "_ = [?u, ?d]")
    by (simp add: shared_marks_model_def)
  have schema: "IsSchemaVersionSupported (ts_schemaVersion ?t)"
    by (simp add: shared_marks_model_def IsSchemaVersionSupported_def SchemaVersion1_1_def)
  have type: "model_type ?m ''d'' = Some ?d" by (simp add: model_type_def tds)
  have get: "TypeSystem_GetRelation ?t ''d'' R = Inr (newRelation ?d R rw)"
    if "map_of (td_relations ?d) R = Some rw" for R rw
    using type that by (simp add: GetRelation_new)
  have valid: "relation_valid ?t ''d'' R (newRelation ?d R rw)"
    if "map_of (td_relations ?d) R = Some rw" "validateRelation ?t ''d'' R (td_relations ?d) = Inr ()" for R rw
    by (rule validateRelation_sound [OF schema get [OF that(1)] _ that(2)])
      (use that(1) in \<open>simp add: newRelation_def\<close>)
  have "validateRelation ?t ''d'' ''x'' (td_relations ?d) = Inr ()"
    "validateRelation ?t ''d'' ''y'' (td_relations ?d) = Inr ()"
    "validateRelation ?t ''d'' ''c'' (td_relations ?d) = Inr ()" by code_simp+
  then have xyc: "relation_valid ?t ''d'' ''x'' (newRelation ?d ''x'' (Userset_Union [Userset_ComputedUserset ''y'', Userset_This]))"
    "relation_valid ?t ''d'' ''y'' (newRelation ?d ''y'' Userset_This)"
    "relation_valid ?t ''d'' ''c'' (newRelation ?d ''c''
       (Userset_Intersection [Userset_ComputedUserset ''x'', Userset_ComputedUserset ''y'']))"
    by (simp_all add: valid)
  have "HasCycle ?t ''d'' ''e'' = Inr False" by code_simp
  then have "\<not> reaches_cycle ?t ''d'' ''e''" using HasCycle_correct by blast
  moreover have "relation_entry (ts_relations ?t) ''d'' ''e''"
  proof -
    have "relation_entry (ts_relations ?t) ''d'' ''c''" using xyc(3) by (simp add: relation_valid_def)
    moreover have "find_relation (ts_relations ?t) ''d'' ''e'' = Some (newRelation ?d ''e'' (Userset_ComputedUserset ''c''))"
      by (intro find_relation_GetRelation get) simp
    ultimately show ?thesis
      by (auto simp: relation_entry_def newRelation_def intro: entry_computed)
  qed
  ultimately have e: "relation_valid ?t ''d'' ''e'' (newRelation ?d ''e'' (Userset_ComputedUserset ''c''))"
    using get [of "''c''"]
    by (simp add: relation_valid_def node_valid_def newRelation_def rel_DirectlyRelatedUserTypes_def)
  show "valid_model (\<lambda>_. Inr ()) ?m"
    using xyc e get schema
    by (simp add: valid_model_def tds reserved_def) (simp add: shared_marks_model_def)
qed

end
