(* ===== verification/Tuple_Validation.thy ===== *)
theory Tuple_Validation
  imports Model_Validation
begin

text \<open>
  The validation of a relationship tuple against a model (\<open>internal/validation/validation.go\<close>):
  the form of its user, object and relation, the restrictions on tuplesets, the type
  restrictions of its relation and its condition. What the condition package does with a CEL
  expression is a parameter: \<open>inline\<close> compiles an inline expression of a tuple, and \<open>cast\<close> casts
  the context of a condition and returns the names of the typed parameters.
\<close>

section \<open>Errors\<close>

datatype val_error =
    InvalidTupleError val_error
  | InvalidConditionalTupleError val_error
  | TypeNotFoundError string
  | RelationNotFoundError string string
  | TypeSystemError ts_error
  | MalformedUser
  | UserNotObjectOrUserset
  | MalformedObject
  | ObjectIsTypedWildcard
  | MalformedRelation
  | ObjectTypeDoesNotExist string
  | TuplesetHasRewrite string string
  | TuplesetWildcard string string
  | TuplesetUser string string string
  | UsersetNotAllowed string string string string
  | WildcardNotAllowed string string string
  | TypeNotAllowed string string string
  | ConditionMissing
  | ConditionNameForbidden
  | UndefinedCondition
  | InvalidConditionForRestriction
  | ExpectedInlineExpression string
  | ForbiddenKey string
  | ForbiddenValue string
  | InvalidContextParameter string
  | ConditionError string

section \<open>User, object and relation\<close>

definition ValidateObject :: "type_system \<Rightarrow> tuple_key \<Rightarrow> (val_error, unit) result" where
  "ValidateObject t tk =
     (let object = tk_object tk in
      if \<not> IsValidObject object then Inl MalformedObject
      else (let (objectType, i) = SplitObject object in
        if i = Wildcard then Inl ObjectIsTypedWildcard
        else if GetTypeDefinition t objectType = None then Inl (TypeNotFoundError objectType)
        else Inr ()))"

text \<open>An error of \<open>GetRelation\<close> as the callers report it; it has no other kinds of error.\<close>

definition relation_lookup_error :: "string \<Rightarrow> string \<Rightarrow> ts_error \<Rightarrow> val_error" where
  "relation_lookup_error objectType relation e = (case e of
     ObjectTypeUndefinedError _ \<Rightarrow> TypeNotFoundError objectType
   | RelationUndefinedError _ _ \<Rightarrow> RelationNotFoundError relation objectType
   | _ \<Rightarrow> TypeSystemError e)"

definition ValidateRelation :: "type_system \<Rightarrow> tuple_key \<Rightarrow> (val_error, unit) result" where
  "ValidateRelation t tk =
     (let relation = tk_relation tk; objectType = GetType (tk_object tk) in
      if \<not> IsValidRelation relation then Inl MalformedRelation
      else (case TypeSystem_GetRelation t objectType relation of
          Inl e \<Rightarrow> Inl (relation_lookup_error objectType relation e)
        | Inr _ \<Rightarrow> Inr ()))"

definition ValidateUser :: "type_system \<Rightarrow> string \<Rightarrow> (val_error, unit) result" where
  "ValidateUser t user =
     (if \<not> IsValidUser user then Inl MalformedUser
      else (let isValidObject = IsValidObject user; isValidUserset = IsObjectRelation user;
                (userObject, userRelation) = SplitObjectRelation user;
                userObjectType = GetType userObject
        in rbind
          (if IsSchemaVersionSupported (ts_schemaVersion t) then
            (if \<not> isValidObject \<and> \<not> isValidUserset then Inl UserNotObjectOrUserset
             else if GetTypeDefinition t userObjectType = None then Inl (TypeNotFoundError userObjectType)
             else Inr ())
           else Inr ())
          (\<lambda>_. if isValidUserset then
             (case TypeSystem_GetRelation t userObjectType userRelation of
                Inl (ObjectTypeUndefinedError _) \<Rightarrow> Inl (TypeNotFoundError userObjectType)
              | Inl (RelationUndefinedError _ _) \<Rightarrow> Inl (RelationNotFoundError userRelation userObjectType)
              | _ \<Rightarrow> Inr ())
           else Inr ())))"

definition ValidateUserObjectRelation :: "type_system \<Rightarrow> tuple_key \<Rightarrow> (val_error, unit) result" where
  "ValidateUserObjectRelation t tk =
     rbind (ValidateUser t (tk_user tk)) (\<lambda>_.
     rbind (ValidateObject t tk) (\<lambda>_. ValidateRelation t tk))"

section \<open>Tuplesets and type restrictions\<close>

definition validateTuplesetRestrictions :: "type_system \<Rightarrow> tuple_key \<Rightarrow> (val_error, unit) result" where
  "validateTuplesetRestrictions t tk =
     (let objectType = GetType (tk_object tk); relation = tk_relation tk; user = tk_user tk in
      case IsTuplesetRelation t objectType relation of Inl e \<Rightarrow> Inl (TypeSystemError e)
      | Inr isTupleset \<Rightarrow>
          if \<not> isTupleset then Inr ()
          else (case TypeSystem_GetRelation t objectType relation of Inl e \<Rightarrow> Inl (TypeSystemError e)
            | Inr rel \<Rightarrow>
                if rel_rewrite rel \<noteq> Userset_Unset \<and> rel_rewrite rel \<noteq> Userset_This then
                  Inl (TuplesetHasRewrite objectType relation)
                else if IsWildcard user then Inl (TuplesetWildcard objectType relation)
                else if \<not> IsValidObject user then Inl (TuplesetUser user objectType relation)
                else Inr ()))"

definition tuple_validateTypeRestrictions :: "type_system \<Rightarrow> tuple_key \<Rightarrow> (val_error, unit) result" where
  "tuple_validateTypeRestrictions t tk =
     (let objectType = GetType (tk_object tk); user = tk_user tk; relation = tk_relation tk;
          (userObject, userRel) = SplitObjectRelation user;
          userType = fst (SplitObject userObject)
      in case GetTypeDefinition t objectType of None \<Rightarrow> Inl (ObjectTypeDoesNotExist objectType)
       | Some td \<Rightarrow>
          (let refs = (case map_of (td_metadata td) relation of None \<Rightarrow> [] | Some refs \<Rightarrow> refs) in
           if IsObjectRelation user then
             (if \<exists>ref \<in> set refs. rr_type ref = userType \<and> rr_GetRelation ref = userRel then Inr ()
              else Inl (UsersetNotAllowed userType userRel objectType relation))
           else if IsTypedWildcard user then
             (if \<exists>ref \<in> set refs. rr_type ref = userType \<and> rr_HasWildcard ref then Inr ()
              else Inl (WildcardNotAllowed user objectType relation))
           else
             (if \<exists>ref \<in> set refs. rr_type ref = userType \<and> \<not> rr_HasWildcard ref \<and> rr_GetRelation ref = []
              then Inr () else Inl (TypeNotAllowed userType objectType relation))))"

section \<open>Conditions\<close>

definition restrictionFacetMatches :: "relation_reference \<Rightarrow> string \<Rightarrow> string \<Rightarrow> bool" where
  "restrictionFacetMatches ref user userRelation =
     (if rr_relationOrWildcard ref \<noteq> None then
        (if rr_GetRelation ref \<noteq> [] \<and> rr_GetRelation ref \<noteq> userRelation then False
         else if rr_HasWildcard ref \<and> \<not> IsTypedWildcard user then False
         else True)
      else \<not> IsTypedWildcard user \<and> userRelation = [])"

fun validateValueForbiddenChars :: "pb_value \<Rightarrow> (val_error, unit) result"
and ValidateStruct_fields :: "(string \<times> pb_value) list \<Rightarrow> (val_error, unit) result"
and validate_items :: "pb_value list \<Rightarrow> (val_error, unit) result" where
  "validateValueForbiddenChars (StringValue s) =
     (if ContainsForbiddenChars s then Inl (ForbiddenValue s) else Inr ())"
| "validateValueForbiddenChars (ListValue vs) = validate_items vs"
| "validateValueForbiddenChars (StructValue fs) = ValidateStruct_fields fs"
| "validateValueForbiddenChars _ = Inr ()"
| "ValidateStruct_fields [] = Inr ()"
| "ValidateStruct_fields ((key, value) # rest) =
     (if ContainsForbiddenChars key then Inl (ForbiddenKey key)
      else rbind (validateValueForbiddenChars value) (\<lambda>_. ValidateStruct_fields rest))"
| "validate_items [] = Inr ()"
| "validate_items (v # rest) = rbind (validateValueForbiddenChars v) (\<lambda>_. validate_items rest)"

definition ValidateStruct :: "pb_struct option \<Rightarrow> (val_error, unit) result" where
  "ValidateStruct s = (case s of None \<Rightarrow> Inr () | Some fs \<Rightarrow> ValidateStruct_fields fs)"

text \<open>The restriction that a condition name must be on, as the loops look for it.\<close>

definition condition_allowed :: "relation_reference list \<Rightarrow> string \<Rightarrow> string \<Rightarrow> string \<Rightarrow> string \<Rightarrow> bool" where
  "condition_allowed typeRestrictions userType user userRelation name \<longleftrightarrow>
     (\<exists>ref \<in> set typeRestrictions. rr_type ref = userType \<and> rr_condition ref = name \<and>
        restrictionFacetMatches ref user userRelation)"

definition validateInlineExpressionCondition :: "type_system \<Rightarrow> tuple_key \<Rightarrow> (val_error, unit) result" where
  "validateInlineExpressionCondition t tk = (case tk_condition tk of
     None \<Rightarrow> Inl (InvalidConditionalTupleError ConditionMissing)
   | Some cond \<Rightarrow>
      if \<not> IsInlineExpression (cond_name cond) then
        Inl (InvalidConditionalTupleError (ExpectedInlineExpression (cond_name cond)))
      else (case GetDirectlyRelatedUserTypes t (GetType (tk_object tk)) (tk_relation tk) of
          Inl e \<Rightarrow> Inl (TypeSystemError e)
        | Inr typeRestrictions \<Rightarrow>
            if ContainsForbiddenChars (cond_name cond) then
              Inl (InvalidConditionalTupleError ConditionNameForbidden)
            else if \<not> condition_allowed typeRestrictions (GetType (tk_user tk)) (tk_user tk)
                (GetRelation (tk_user tk)) InlineExpressionName then
              Inl (InvalidConditionalTupleError InvalidConditionForRestriction)
            else (case ValidateStruct (cond_context cond) of
                Inl e \<Rightarrow> Inl (InvalidConditionalTupleError e) | Inr _ \<Rightarrow> Inr ())))"

definition validateCondition :: "(condition \<Rightarrow> pb_struct \<Rightarrow> (string, string list) result) \<Rightarrow>
    type_system \<Rightarrow> tuple_key \<Rightarrow> (val_error, unit) result" where
  "validateCondition cast t tk =
     (let userType = GetType (tk_user tk); userRelation = GetRelation (tk_user tk) in
      case GetDirectlyRelatedUserTypes t (GetType (tk_object tk)) (tk_relation tk) of
        Inl e \<Rightarrow> Inl (TypeSystemError e)
      | Inr typeRestrictions \<Rightarrow> (case tk_condition tk of
          None \<Rightarrow>
            if \<exists>ref \<in> set typeRestrictions. rr_condition ref = [] \<and> rr_type ref = userType \<and>
                restrictionFacetMatches ref (tk_user tk) userRelation
            then Inr () else Inl (InvalidConditionalTupleError ConditionMissing)
        | Some cond \<Rightarrow>
            if ContainsForbiddenChars (cond_name cond) then
              Inl (InvalidConditionalTupleError ConditionNameForbidden)
            else if IsInlineExpression (cond_name cond) then validateInlineExpressionCondition t tk
            else (case GetCondition t (cond_name cond) of
                None \<Rightarrow> Inl (InvalidConditionalTupleError UndefinedCondition)
              | Some namedCondition \<Rightarrow>
                  if \<not> condition_allowed typeRestrictions userType (tk_user tk) userRelation (cond_name cond)
                  then Inl (InvalidConditionalTupleError InvalidConditionForRestriction)
                  else (case ValidateStruct (cond_context cond) of
                      Inl e \<Rightarrow> Inl (InvalidConditionalTupleError e)
                    | Inr _ \<Rightarrow>
                        (let contextFieldMap = (case cond_context cond of None \<Rightarrow> [] | Some fs \<Rightarrow> fs) in
                         case cast namedCondition contextFieldMap of
                           Inl e \<Rightarrow> Inl (InvalidConditionalTupleError (ConditionError e))
                         | Inr typedParams \<Rightarrow> for_each (\<lambda>(key, _).
                             if key \<notin> set typedParams then
                               Inl (InvalidConditionalTupleError (InvalidContextParameter key))
                             else Inr ()) contextFieldMap)))))"

section \<open>Reading and writing tuples\<close>

definition ValidateTupleForRead :: "(condition \<Rightarrow> pb_struct \<Rightarrow> (string, string list) result) \<Rightarrow>
    type_system \<Rightarrow> tuple_key \<Rightarrow> (val_error, unit) result" where
  "ValidateTupleForRead cast t tk =
     (case validateTuplesetRestrictions t tk of Inl e \<Rightarrow> Inl (InvalidTupleError e)
      | Inr _ \<Rightarrow> (case HasTypeInfo t (GetType (tk_object tk)) (tk_relation tk) of
          Inl e \<Rightarrow> Inl (TypeSystemError e)
        | Inr hasTypeInfo \<Rightarrow>
            if hasTypeInfo then
              (case tuple_validateTypeRestrictions t tk of Inl e \<Rightarrow> Inl (InvalidTupleError e)
               | Inr _ \<Rightarrow> validateCondition cast t tk)
            else Inr ()))"

definition ValidateTupleForWrite :: "(tuple_key \<Rightarrow> (string, unit) result) \<Rightarrow>
    (condition \<Rightarrow> pb_struct \<Rightarrow> (string, string list) result) \<Rightarrow>
    type_system \<Rightarrow> tuple_key \<Rightarrow> (val_error, unit) result" where
  "ValidateTupleForWrite inline cast t tk =
     (case ValidateUserObjectRelation t tk of Inl e \<Rightarrow> Inl (InvalidTupleError e)
      | Inr _ \<Rightarrow> (case ValidateTupleForRead cast t tk of Inl e \<Rightarrow> Inl e
        | Inr _ \<Rightarrow>
            if IsInlineExpression (get_cond_name tk) then
              (case inline tk of Inl e \<Rightarrow> Inl (InvalidConditionalTupleError (ConditionError e))
               | Inr _ \<Rightarrow> Inr ())
            else Inr ()))"

definition FilterInvalidTuples :: "(condition \<Rightarrow> pb_struct \<Rightarrow> (string, string list) result) \<Rightarrow>
    type_system \<Rightarrow> tuple_key \<Rightarrow> bool" where
  "FilterInvalidTuples cast t tupleKey \<longleftrightarrow> is_ok (ValidateTupleForRead cast t tupleKey)"

section \<open>Lemmas\<close>

lemma unique_split:
  assumes "a @ c # j = t @ c # i" and "c \<notin> set t" and "c \<notin> set i"
  shows "a = t \<and> j = i"
  using assms by (auto simp: append_eq_append_conv2 append_eq_Cons_conv Cons_eq_append_conv)

subsection \<open>The shapes of a user\<close>

lemma object_user:
  assumes "IsValidObject (BuildObject t i)" and "CHR '':'' \<notin> set t"
  shows "SplitObjectRelation (BuildObject t i) = (BuildObject t i, [])" "GetRelation (BuildObject t i) = []"
    "\<not> IsObjectRelation (BuildObject t i)" "\<not> IsValidUserset (BuildObject t i)"
    "IsTypedWildcard (BuildObject t i) \<longleftrightarrow> t \<noteq> [] \<and> i = Wildcard" "CHR '':'' \<notin> set i"
proof -
  have no_hash: "CHR ''#'' \<notin> set (BuildObject t i)" by (rule valid_object_no_hash [OF assms(1)])
  from SplitObjectRelation_no_hash [OF this]
  show "SplitObjectRelation (BuildObject t i) = (BuildObject t i, [])" "GetRelation (BuildObject t i) = []"
    by (simp_all add: GetRelation_def)
  show "\<not> IsObjectRelation (BuildObject t i)" "\<not> IsValidUserset (BuildObject t i)"
    using no_hash valid_userset_has_hash by (auto simp: IsObjectRelation_def)
  show "IsTypedWildcard (BuildObject t i) \<longleftrightarrow> t \<noteq> [] \<and> i = Wildcard"
    using assms(2) by (simp add: IsTypedWildcard_def)
  from assms(1) obtain t' i' where "BuildObject t i = BuildObject t' i'" "free_of ''#: '' t'" "free_of ''#: '' i'"
    by (auto simp: IsValidObject_iff)
  then show "CHR '':'' \<notin> set i"
    using unique_split [of t "CHR '':''" i t' i'] by (auto simp: BuildObject_def free_of_def)
qed

lemma userset_user:
  assumes "IsValidUserset (BuildObject t (ToObjectRelationString i r))" and "CHR '':'' \<notin> set t" and "CHR ''#'' \<notin> set r"
  shows "\<not> IsValidObject (BuildObject t (ToObjectRelationString i r))"
    "IsObjectRelation (BuildObject t (ToObjectRelationString i r))"
    "GetRelation (BuildObject t (ToObjectRelationString i r)) = r"
    "\<not> IsTypedWildcard (BuildObject t (ToObjectRelationString i r))"
    "CHR '':'' \<notin> set i \<and> CHR ''#'' \<notin> set i \<and> CHR '':'' \<notin> set r"
proof -
  let ?u = "BuildObject t (ToObjectRelationString i r)"
  show "\<not> IsValidObject ?u" using assms(1) valid_object_no_hash valid_userset_has_hash by blast
  show "IsObjectRelation ?u" using assms(1) by (simp add: IsObjectRelation_def)
  show "GetRelation ?u = r" using assms(2,3) by (simp add: GetRelation_def)
  have "ToObjectRelationString i r \<noteq> Wildcard"
    by (cases i) (auto simp: ToObjectRelationString_def Wildcard_def)
  then show "\<not> IsTypedWildcard ?u" using assms(2) by (simp add: IsTypedWildcard_def)
  from assms(1) obtain t' i' r' where u: "?u = BuildObject t' (ToObjectRelationString i' r')"
    "free_of ''#: '' t'" "free_of ''#: *'' i'" "free_of ''#: *'' r'" by (auto simp: IsValidUserset_iff)
  then have "CHR '':'' \<notin> set t'" "CHR '':'' \<notin> set (ToObjectRelationString i' r')" "CHR ''#'' \<notin> set i'" "CHR ''#'' \<notin> set r'"
    by (auto simp: free_of_def ToObjectRelationString_def)
  moreover from this u(1) have "ToObjectRelationString i r = ToObjectRelationString i' r'"
    using unique_split [of t "CHR '':''" "ToObjectRelationString i r" t' "ToObjectRelationString i' r'"]
    by (auto simp: BuildObject_def)
  ultimately show "CHR '':'' \<notin> set i \<and> CHR ''#'' \<notin> set i \<and> CHR '':'' \<notin> set r"
    using unique_split [of i "CHR ''#''" r i' r'] by (auto simp: ToObjectRelationString_def)
qed

text \<open>What a type restriction admits: objects of its type, usersets of its relation, or its wildcard.\<close>

definition ref_admits :: "relation_reference \<Rightarrow> string \<Rightarrow> bool" where
  "ref_admits ref user \<longleftrightarrow> (case rr_relationOrWildcard ref of
     None \<Rightarrow> \<exists>i. user = BuildObject (rr_type ref) i \<and> i \<noteq> Wildcard \<and> IsValidObject user
   | Some (RR_Relation r) \<Rightarrow> \<exists>i. user = BuildObject (rr_type ref) (ToObjectRelationString i r) \<and> IsValidUserset user
   | Some (RR_Wildcard present) \<Rightarrow> present \<and> user = TypedPublicWildcard (rr_type ref) \<and> IsValidObject user)"

definition ref_wf :: "relation_reference \<Rightarrow> bool" where
  "ref_wf ref \<longleftrightarrow> rr_relationOrWildcard ref \<notin> {Some (RR_Relation []), Some (RR_Wildcard False)}"

lemma admits_object:
  assumes "IsValidObject (BuildObject t i)" and "CHR '':'' \<notin> set t"
  shows "ref_admits ref (BuildObject t i) \<longleftrightarrow> rr_type ref = t \<and>
    (case rr_relationOrWildcard ref of None \<Rightarrow> i \<noteq> Wildcard | Some (RR_Relation r) \<Rightarrow> False
     | Some (RR_Wildcard present) \<Rightarrow> present \<and> i = Wildcard)"
proof -
  note u = object_user [OF assms]
  have eq: "BuildObject t i = BuildObject a j \<longleftrightarrow> a = t \<and> j = i" for a j
    using unique_split [of a "CHR '':''" j t i] assms(2) u(6) by (auto simp: BuildObject_def)
  show ?thesis
    using assms(1) u(4) by (auto simp: ref_admits_def TypedPublicWildcard_def eq
        split: option.split relation_or_wildcard.split)
qed

lemma admits_userset:
  assumes "IsValidUserset (BuildObject t (ToObjectRelationString i r))" and "CHR '':'' \<notin> set t"
    and "CHR ''#'' \<notin> set r"
  shows "ref_admits ref (BuildObject t (ToObjectRelationString i r)) \<longleftrightarrow>
    rr_type ref = t \<and> rr_relationOrWildcard ref = Some (RR_Relation r)"
proof -
  note u = userset_user [OF assms]
  have eq: "BuildObject t (ToObjectRelationString i r) = BuildObject a (ToObjectRelationString j q) \<longleftrightarrow>
      a = t \<and> j = i \<and> q = r" for a j q
    using unique_split [of a "CHR '':''" "ToObjectRelationString j q" t "ToObjectRelationString i r"]
      unique_split [of j "CHR ''#''" q i r] assms(2,3) u(5)
    by (auto simp: BuildObject_def ToObjectRelationString_def)
  show ?thesis
    using assms(1) u(1) by (auto simp: ref_admits_def eq
        split: option.split relation_or_wildcard.split)
qed

text \<open>The loops of the code look for a restriction that admits the user.\<close>

lemma facet_object:
  assumes "IsValidObject (BuildObject t i)" and "CHR '':'' \<notin> set t" and "t \<noteq> []" and "ref_wf ref"
  shows "rr_type ref = t \<and> restrictionFacetMatches ref (BuildObject t i) [] \<longleftrightarrow> ref_admits ref (BuildObject t i)"
  using object_user [OF assms(1,2)] assms(3,4)
  by (auto simp: admits_object [OF assms(1,2)] restrictionFacetMatches_def ref_wf_def rr_GetRelation_def
      rr_HasWildcard_def split: option.split relation_or_wildcard.split)

lemma facet_userset:
  assumes "IsValidUserset (BuildObject t (ToObjectRelationString i r))" and "CHR '':'' \<notin> set t"
    and "CHR ''#'' \<notin> set r" and "r \<noteq> []" and "ref_wf ref"
  shows "rr_type ref = t \<and> restrictionFacetMatches ref (BuildObject t (ToObjectRelationString i r)) r \<longleftrightarrow>
    ref_admits ref (BuildObject t (ToObjectRelationString i r))"
  using userset_user [OF assms(1-3)] assms(4,5)
  by (auto simp: admits_userset [OF assms(1-3)] restrictionFacetMatches_def ref_wf_def rr_GetRelation_def
      rr_HasWildcard_def split: option.split relation_or_wildcard.split)

text \<open>A user that is an object (or typed wildcard) or a userset, with its parts.\<close>

lemma object_or_userset [consumes 1, case_names Object Userset]:
  assumes "IsValidObject user \<or> IsValidUserset user"
  obtains t i where "user = BuildObject t i" "IsValidObject (BuildObject t i)" "CHR '':'' \<notin> set t" "t \<noteq> []"
  | t i r where "user = BuildObject t (ToObjectRelationString i r)"
      "IsValidUserset (BuildObject t (ToObjectRelationString i r))"
      "CHR '':'' \<notin> set t" "t \<noteq> []" "CHR ''#'' \<notin> set r" "r \<noteq> []"
proof -
  have "IsValidUser user" using assms by (auto simp: IsValidUser_def)
  then show thesis
    using assms that by (cases user rule: valid_user_cases)
      (blast dest: IsValidUserset_has_colon IsValidObject_has_colon)+
qed

lemma facets_admit:
  assumes "IsValidObject user \<or> IsValidUserset user" and "ref_wf ref"
  shows "rr_type ref = GetType user \<and> restrictionFacetMatches ref user (GetRelation user) \<longleftrightarrow> ref_admits ref user"
  using assms(1)
proof (cases user rule: object_or_userset)
  case (Object t i)
  with facet_object [OF Object(2-4) assms(2)] object_user [OF Object(2,3)] show ?thesis by simp
next
  case (Userset t i r)
  with facet_userset [OF Userset(2,3,5,6) assms(2)] userset_user [OF Userset(2,3,5)] show ?thesis
    by (simp add: GetType_def)
qed

lemma type_restrictions_admit:
  assumes user: "IsValidObject (tk_user tk) \<or> IsValidUserset (tk_user tk)"
    and td: "GetTypeDefinition t (GetType (tk_object tk)) = Some td"
    and refs: "refs = (case map_of (td_metadata td) (tk_relation tk) of None \<Rightarrow> [] | Some refs \<Rightarrow> refs)"
    and wf: "\<forall>ref \<in> set refs. ref_wf ref"
  shows "tuple_validateTypeRestrictions t tk = Inr () \<longleftrightarrow> (\<exists>ref \<in> set refs. ref_admits ref (tk_user tk))"
  using user
proof (cases "tk_user tk" rule: object_or_userset)
  case (Object ty i)
  note u = object_user [OF Object(2,3)]
  have "ref_admits ref (tk_user tk) \<longleftrightarrow> rr_type ref = ty \<and>
      (if i = Wildcard then rr_HasWildcard ref else \<not> rr_HasWildcard ref \<and> rr_GetRelation ref = [])"
    if "ref \<in> set refs" for ref
    using wf that unfolding Object(1) admits_object [OF Object(2,3)]
    by (auto simp: ref_wf_def rr_HasWildcard_def rr_GetRelation_def split: option.split relation_or_wildcard.split)
  with u Object show ?thesis
    by (auto simp: tuple_validateTypeRestrictions_def td refs [symmetric] split: if_splits)
next
  case (Userset ty i r)
  note u = userset_user [OF Userset(2,3,5)]
  have "ref_admits ref (tk_user tk) \<longleftrightarrow> rr_type ref = ty \<and> rr_GetRelation ref = r" for ref
    using Userset(6) unfolding Userset(1) admits_userset [OF Userset(2,3,5)]
    by (auto simp: rr_GetRelation_def split: option.split relation_or_wildcard.split)
  with u Userset show ?thesis
    by (auto simp: tuple_validateTypeRestrictions_def td refs [symmetric] split: if_splits)
qed

text \<open>What the user field must be on a supported model.\<close>

definition user_defined :: "type_system \<Rightarrow> string \<Rightarrow> bool" where
  "user_defined t user \<longleftrightarrow> (IsValidObject user \<or> IsValidUserset user) \<and>
     GetTypeDefinition t (GetType user) \<noteq> None \<and>
     (IsValidUserset user \<longrightarrow> is_ok (TypeSystem_GetRelation t (GetType user) (GetRelation user)))"

lemma ValidateUser_iff:
  assumes "IsSchemaVersionSupported (ts_schemaVersion t)"
  shows "ValidateUser t user = Inr () \<longleftrightarrow> user_defined t user"
proof (cases "IsValidObject user \<or> IsValidUserset user")
  case True
  then have "IsValidUser user" by (auto simp: IsValidUser_def)
  from True show ?thesis
  proof (cases user rule: object_or_userset)
    case (Object ty i)
    with object_user [OF Object(2,3)] assms \<open>IsValidUser user\<close> show ?thesis
      by (auto simp: ValidateUser_def user_defined_def GetType_def)
  next
    case (Userset ty i r)
    have "TypeSystem_GetRelation t ty r = Inl e \<Longrightarrow>
        e = ObjectTypeUndefinedError ty \<or> e = RelationUndefinedError ty r" for e
      by (auto simp: TypeSystem_GetRelation_def TypeSystem_GetRelations_def split: option.splits)
    with Userset userset_user [OF Userset(2,3,5)] assms \<open>IsValidUser user\<close> show ?thesis
      by (auto simp: ValidateUser_def user_defined_def GetType_def split: sum.split ts_error.split)
  qed
next
  case False
  with assms show ?thesis by (auto simp: ValidateUser_def user_defined_def IsObjectRelation_def Let_def split: prod.split)
qed

definition object_relation_defined :: "type_system \<Rightarrow> tuple_key \<Rightarrow> bool" where
  "object_relation_defined t tk \<longleftrightarrow> IsValidObject (tk_object tk) \<and> snd (SplitObject (tk_object tk)) \<noteq> Wildcard \<and>
     IsValidRelation (tk_relation tk) \<and> is_ok (TypeSystem_GetRelation t (GetType (tk_object tk)) (tk_relation tk))"

lemma ValidateUserObjectRelation_iff:
  assumes "IsSchemaVersionSupported (ts_schemaVersion t)"
  shows "ValidateUserObjectRelation t tk = Inr () \<longleftrightarrow> user_defined t (tk_user tk) \<and> object_relation_defined t tk"
  by (auto simp: ValidateUserObjectRelation_def ValidateUser_iff [OF assms] ValidateObject_def ValidateRelation_def
      object_relation_defined_def Let_def GetType_def TypeSystem_GetRelation_def TypeSystem_GetRelations_def
      split: prod.split sum.split option.splits if_splits)

definition tupleset_ok :: "type_system \<Rightarrow> tuple_key \<Rightarrow> relation \<Rightarrow> bool" where
  "tupleset_ok t tk r \<longleftrightarrow> (IsTuplesetRelation t (GetType (tk_object tk)) (tk_relation tk) = Inr True \<longrightarrow>
     rel_rewrite r \<in> {Userset_Unset, Userset_This} \<and> IsValidObject (tk_user tk) \<and> \<not> IsWildcard (tk_user tk))"

lemma validateTuplesetRestrictions_iff:
  assumes "TypeSystem_GetRelation t (GetType (tk_object tk)) (tk_relation tk) = Inr r"
  shows "validateTuplesetRestrictions t tk = Inr () \<longleftrightarrow> tupleset_ok t tk r"
  using assms by (auto simp: validateTuplesetRestrictions_def tupleset_ok_def IsTuplesetRelation_def Let_def)

lemma new_types:
  assumes "TypeSystem_GetRelation (newWithoutGraphs model) T R = Inr r"
  obtains td where "GetTypeDefinition (newWithoutGraphs model) T = Some td"
    "rel_DirectlyRelatedUserTypes r = (case map_of (td_metadata td) R of None \<Rightarrow> [] | Some refs \<Rightarrow> refs)"
    "rel_typeInfo r \<noteq> None"
  using assms that by (auto simp: GetRelation_new GetTypeDefinition_new newRelation_def
      rel_DirectlyRelatedUserTypes_def split: option.splits)

lemma condition_allowed_iff:
  assumes "IsValidObject user \<or> IsValidUserset user" and "\<forall>ref \<in> set refs. ref_wf ref"
  shows "condition_allowed refs (GetType user) user (GetRelation user) name \<longleftrightarrow>
    (\<exists>ref \<in> set refs. rr_condition ref = name \<and> ref_admits ref user)"
  using facets_admit [OF assms(1)] assms(2) unfolding condition_allowed_def by blast

subsection \<open>Strings of a context\<close>

fun value_strings :: "pb_value \<Rightarrow> string set" where
  "value_strings (StringValue s) = {s}"
| "value_strings (ListValue vs) = (\<Union>v \<in> set vs. value_strings v)"
| "value_strings (StructValue fs) = (\<Union>f \<in> set fs. insert (fst f) (value_strings (snd f)))"
| "value_strings _ = {}"

lemma validate_value_iff:
  "validateValueForbiddenChars v = Inr () \<longleftrightarrow> (\<forall>s \<in> value_strings v. \<not> ContainsForbiddenChars s)"
  "ValidateStruct_fields fs = Inr () \<longleftrightarrow> (\<forall>s \<in> value_strings (StructValue fs). \<not> ContainsForbiddenChars s)"
  "validate_items vs = Inr () \<longleftrightarrow> (\<forall>s \<in> value_strings (ListValue vs). \<not> ContainsForbiddenChars s)"
  by (induction v and fs and vs rule: validateValueForbiddenChars_ValidateStruct_fields_validate_items.induct) auto

lemma ValidateStruct_iff:
  "ValidateStruct s = Inr () \<longleftrightarrow>
    (\<forall>fs. s = Some fs \<longrightarrow> (\<forall>x \<in> value_strings (StructValue fs). \<not> ContainsForbiddenChars x))"
  by (auto simp: ValidateStruct_def validate_value_iff simp del: value_strings.simps split: option.split)

section \<open>Properties\<close>

text \<open>
  C18: On a model with a supported schema whose restrictions are well formed, a tuple without a
  condition can be written exactly when its object, relation and user are well formed and defined,
  a restriction of the relation without a condition admits the user (an object of the type, a
  userset of the type and relation, or the type's wildcard), and, if the relation is a tupleset,
  the user is an object.
\<close>

theorem tuple_write_iff:
  fixes model :: authorization_model
  assumes "IsSchemaVersionSupported (am_schemaVersion model)" and "tk_condition tk = None"
    and "\<And>r ref. TypeSystem_GetRelation (newWithoutGraphs model) (GetType (tk_object tk)) (tk_relation tk) = Inr r \<Longrightarrow>
      ref \<in> set (rel_DirectlyRelatedUserTypes r) \<Longrightarrow> ref_wf ref"
  shows "ValidateTupleForWrite inline cast (newWithoutGraphs model) tk = Inr () \<longleftrightarrow>
    (\<exists>r. TypeSystem_GetRelation (newWithoutGraphs model) (GetType (tk_object tk)) (tk_relation tk) = Inr r \<and>
      user_defined (newWithoutGraphs model) (tk_user tk) \<and>
      object_relation_defined (newWithoutGraphs model) tk \<and>
      tupleset_ok (newWithoutGraphs model) tk r \<and>
      (\<exists>ref \<in> set (rel_DirectlyRelatedUserTypes r). rr_condition ref = [] \<and> ref_admits ref (tk_user tk)))"
proof -
  let ?t = "newWithoutGraphs model"
  have schema: "IsSchemaVersionSupported (ts_schemaVersion ?t)" using assms(1) by simp
  have get_cond: "\<not> IsInlineExpression (get_cond_name tk)"
    using assms(2) by (simp add: IsInlineExpression_def InlineExpressionName_def get_cond_name_def)
  show ?thesis
  proof (cases "user_defined ?t (tk_user tk) \<and> object_relation_defined ?t tk")
    case True
    then obtain r where r: "TypeSystem_GetRelation ?t (GetType (tk_object tk)) (tk_relation tk) = Inr r"
      by (auto simp: object_relation_defined_def is_ok_iff)
    from True have user: "IsValidObject (tk_user tk) \<or> IsValidUserset (tk_user tk)"
      by (simp add: user_defined_def)
    from r obtain td where td: "GetTypeDefinition ?t (GetType (tk_object tk)) = Some td"
      "rel_DirectlyRelatedUserTypes r = (case map_of (td_metadata td) (tk_relation tk) of None \<Rightarrow> [] | Some refs \<Rightarrow> refs)"
      "rel_typeInfo r \<noteq> None" by (rule new_types)
    have wf: "\<forall>ref \<in> set (rel_DirectlyRelatedUserTypes r). ref_wf ref" using assms(3) r by blast
    have info: "HasTypeInfo ?t (GetType (tk_object tk)) (tk_relation tk) = Inr True"
      using schema r td(3) by (simp add: HasTypeInfo_def)
    have cond: "validateCondition cast ?t tk = Inr () \<longleftrightarrow>
        (\<exists>ref \<in> set (rel_DirectlyRelatedUserTypes r). rr_condition ref = [] \<and> ref_admits ref (tk_user tk))"
      using r assms(2) facets_admit [OF user] wf
      by (auto simp: validateCondition_def GetDirectlyRelatedUserTypes_def Let_def)
    have "ValidateTupleForRead cast ?t tk = Inr () \<longleftrightarrow> tupleset_ok ?t tk r \<and>
        (\<exists>ref \<in> set (rel_DirectlyRelatedUserTypes r). rr_condition ref = [] \<and> ref_admits ref (tk_user tk))"
      using validateTuplesetRestrictions_iff [OF r] type_restrictions_admit [OF user td(1,2) wf] cond info
      by (auto simp: ValidateTupleForRead_def split: sum.split)
    moreover have "ValidateUserObjectRelation ?t tk = Inr ()"
      using True ValidateUserObjectRelation_iff [OF schema] by simp
    ultimately show ?thesis
      using True r get_cond by (auto simp: ValidateTupleForWrite_def split: sum.split)
  next
    case False
    then have "\<not> is_ok (ValidateUserObjectRelation ?t tk)"
      using ValidateUserObjectRelation_iff [OF schema] by (auto simp: is_ok_iff)
    with False show ?thesis by (auto simp: ValidateTupleForWrite_def not_is_ok_iff)
  qed
qed

lemma tuple_write_iff_witness:
  "ValidateTupleForWrite (\<lambda>_. Inr ()) (\<lambda>_ _. Inr []) (newWithoutGraphs sample_valid_model)
     (NewTupleKey ''d:1'' ''r'' ''u:*'') = Inr () \<and>
   (\<exists>r. TypeSystem_GetRelation (newWithoutGraphs sample_valid_model) ''d'' ''r'' = Inr r \<and>
     (\<exists>ref \<in> set (rel_DirectlyRelatedUserTypes r). ref_admits ref ''u:*''))"
proof -
  let ?t = "newWithoutGraphs sample_valid_model" and ?tk = "NewTupleKey ''d:1'' ''r'' ''u:*''"
  have ok: "ValidateTupleForWrite (\<lambda>_. Inr ()) (\<lambda>_ _. Inr []) ?t ?tk = Inr ()" by code_simp
  have schema: "IsSchemaVersionSupported (am_schemaVersion sample_valid_model)" by code_simp
  have type: "GetType (tk_object ?tk) = ''d''" by code_simp
  have parts: "tk_condition ?tk = None" "tk_relation ?tk = ''r''" "tk_user ?tk = ''u:*''"
    by (simp_all add: NewTupleKey_def)
  have refs: "TypeSystem_GetRelation ?t ''d'' ''r'' = Inr r \<Longrightarrow> ref \<in> set (rel_DirectlyRelatedUserTypes r) \<Longrightarrow>
      ref_wf ref" for r ref
    by (auto simp: GetRelation_new model_type_def sample_valid_model_def newRelation_def ref_wf_def
        rel_DirectlyRelatedUserTypes_def WildcardRelationReference_def)
  from tuple_write_iff [OF schema parts(1), of "\<lambda>_. Inr ()" "\<lambda>_ _. Inr []"] ok refs
  show ?thesis unfolding type parts by blast
qed


definition sample_condition_model :: authorization_model where
  "sample_condition_model = \<lparr>am_id = ''01'', am_schemaVersion = ''1.1'',
     am_typeDefinitions =
       [\<lparr>td_type = ''u'', td_relations = [], td_metadata = []\<rparr>,
        \<lparr>td_type = ''d'', td_relations = [(''w'', Userset_This)],
         td_metadata = [(''w'', [ConditionedRelationReference (DirectRelationReference ''u'' []) ''k''])]\<rparr>],
     am_conditions = [(''k'', \<lparr>c_name = ''k'', c_params = [(''x'', TypeRef TYPE_NAME_INT [])], c_expression = ''x > 1''\<rparr>)]\<rparr>"


end
