(* ===== verification/Memory_Store.thy ===== *)
theory Memory_Store
  imports Tuple_Iterators Type_System "HOL-Library.AList" "HOL-Library.Multiset"
begin

text \<open>
  The in-memory datastore: \<open>pkg/storage/memory/memory.go\<close> and the tuple record of
  \<open>pkg/storage/record.go\<close>. The backend is a record of its maps; a method is a function on it.
  Its mutexes make each method atomic, so a method is one step. A missing entry of \<open>tuples\<close> and
  \<open>changes\<close> reads as the empty slice, so these are total functions; a map that the code ranges
  over (models of a store, stores) is an association list, in the order the range happens to
  take; what does not depend on that order is proved not to.

  \<open>None\<close> is a panic (a slice bound out of range). The clock, the ULID generator (the \<open>k\<close>-th ULID
  that a call makes; a ULID is the number its 16 bytes spell) and the rendering of a condition
  context, which belongs to protobuf, are arguments.
\<close>

section \<open>Records\<close>

record tuple_record =
  rec_Store :: string
  rec_ObjectType :: string
  rec_ObjectID :: string
  rec_Relation :: string
  rec_User :: string
  rec_UserObjectType :: string
  rec_UserObjectID :: string
  rec_UserRelation :: string
  rec_ConditionName :: string
  rec_ConditionContext :: "pb_struct option"
  rec_Ulid :: nat
  rec_InsertedAt :: nat

definition AsTuple :: "tuple_record \<Rightarrow> pb_tuple" where
  "AsTuple t =
     (let user = (if rec_User t = [] then
          FromUserParts (rec_UserObjectType t) (rec_UserObjectID t) (rec_UserRelation t) else rec_User t)
      in \<lparr>tup_key = NewTupleKeyWithCondition (BuildObject (rec_ObjectType t) (rec_ObjectID t))
            (rec_Relation t) user (rec_ConditionName t) (rec_ConditionContext t),
          tup_timestamp = rec_InsertedAt t\<rparr>)"

datatype tuple_operation = OpWrite | OpDelete

record tuple_change =
  ch_tuple :: tuple_key
  ch_operation :: tuple_operation
  ch_timestamp :: nat

record tuple_change_rec =
  cr_change :: tuple_change
  cr_ulid :: nat

record model_entry =
  me_model :: authorization_model
  me_latest :: bool

record fga_store =
  store_id :: string
  store_name :: string
  store_created_at :: nat
  store_updated_at :: nat

record 'a memory_backend =
  mb_maxTuplesPerWrite :: int
  mb_maxTypesPerAuthorizationModel :: int
  mb_tuples :: "string \<Rightarrow> tuple_record list"
  mb_changes :: "string \<Rightarrow> tuple_change_rec list"
  mb_models :: "string \<Rightarrow> (string \<times> model_entry) list option"
  mb_stores :: "(string \<times> fga_store) list"
  mb_assertions :: "string \<Rightarrow> 'a list option"

datatype store_err =
    ErrNotFound
  | ErrCollision
  | ErrInvalidContinuationToken
  | ErrInvalidWriteInput tuple_key tuple_operation
  | ErrTupleConditionConflict tuple_key
  | ErrAtoi string
  | ErrIter "string iter_err"

section \<open>Options and filters of \<open>pkg/storage/storage.go\<close>\<close>

record pagination =
  pg_size :: int
  pg_from :: string

definition DefaultPageSize :: int where
  "DefaultPageSize = 50"

definition NewPaginationOptions :: "int \<Rightarrow> string \<Rightarrow> pagination" where
  "NewPaginationOptions ps contToken =
     \<lparr>pg_size = (if ps > 0 then ps else DefaultPageSize), pg_from = contToken\<rparr>"

datatype on_missing_delete = OnMissingDeleteError | OnMissingDeleteIgnore
datatype on_duplicate_insert = OnDuplicateInsertError | OnDuplicateInsertIgnore

record write_options =
  wo_OnMissingDelete :: on_missing_delete
  wo_OnDuplicateInsert :: on_duplicate_insert

definition WithOnMissingDelete :: "on_missing_delete \<Rightarrow> write_options \<Rightarrow> write_options" where
  "WithOnMissingDelete v opts = opts\<lparr>wo_OnMissingDelete := v\<rparr>"

definition WithOnDuplicateInsert :: "on_duplicate_insert \<Rightarrow> write_options \<Rightarrow> write_options" where
  "WithOnDuplicateInsert v opts = opts\<lparr>wo_OnDuplicateInsert := v\<rparr>"

definition NewTupleWriteOptions :: "(write_options \<Rightarrow> write_options) list \<Rightarrow> write_options" where
  "NewTupleWriteOptions opts =
     foldl (\<lambda>res opt. opt res)
       \<lparr>wo_OnMissingDelete = OnMissingDeleteError, wo_OnDuplicateInsert = OnDuplicateInsertError\<rparr> opts"

record read_filter =
  rf_Object :: string
  rf_Relation :: string
  rf_User :: string
  rf_Conditions :: "string list"

record usersets_filter =
  uf_Object :: string
  uf_Relation :: string
  uf_AllowedUserTypeRestrictions :: "relation_reference list"
  uf_Conditions :: "string list"

record starting_filter =
  sf_ObjectType :: string
  sf_Relation :: string
  sf_UserFilter :: "object_relation list"
  sf_ObjectIDs :: "string list option"
  sf_Conditions :: "string list"

record changes_filter =
  cf_ObjectType :: string
  cf_HorizonOffset :: int

section \<open>The iterator\<close>

record mem_iter =
  mi_records :: "tuple_record list"
  mi_token :: string

definition mem_Next :: "(mem_iter, string, pb_tuple) iter_call" where
  "mem_Next ctx s =
     (case ctx of Some e \<Rightarrow> Some (Inl e, s)
      | None \<Rightarrow> (case mi_records s of [] \<Rightarrow> Some (Inl ErrIteratorDone, s)
          | next # rest \<Rightarrow> Some (Inr (AsTuple next), s\<lparr>mi_records := rest\<rparr>)))"

definition mem_Head :: "(mem_iter, string, pb_tuple) iter_call" where
  "mem_Head ctx s =
     (case ctx of Some e \<Rightarrow> Some (Inl e, s)
      | None \<Rightarrow> (case mi_records s of [] \<Rightarrow> Some (Inl ErrIteratorDone, s)
          | rec # _ \<Rightarrow> Some (Inr (AsTuple rec), s)))"

definition mem_Stop :: "mem_iter \<Rightarrow> mem_iter" where
  "mem_Stop s = s"

definition mem_IsOrdered :: "mem_iter \<Rightarrow> bool" where
  "mem_IsOrdered s = False"

text \<open>The loop of \<open>ToArray\<close> calls \<open>Next\<close> once per record that the slice has when it starts.\<close>

fun ToArray_loop :: "string ctx \<Rightarrow> nat \<Rightarrow> mem_iter \<Rightarrow> pb_tuple list \<Rightarrow>
    (store_err, pb_tuple list \<times> string) result option" where
  "ToArray_loop ctx 0 s res = Some (Inr (res, mi_token s))"
| "ToArray_loop ctx (Suc n) s res =
     (case mem_Next ctx s of None \<Rightarrow> None
      | Some (Inl err, s') \<Rightarrow> Some (Inl (ErrIter err))
      | Some (Inr t, s') \<Rightarrow> ToArray_loop ctx n s' (res @ [t]))"

definition ToArray :: "string ctx \<Rightarrow> mem_iter \<Rightarrow>
    (store_err, pb_tuple list \<times> string) result option" where
  "ToArray ctx s = ToArray_loop ctx (length (mi_records s)) s []"

section \<open>Matching a record\<close>

definition match :: "tuple_record \<Rightarrow> tuple_key \<Rightarrow> bool" where
  "match t target =
     (if tk_object target \<noteq> [] \<and>
         (let (td, objectid) = SplitObject (tk_object target)
          in if objectid = [] then td \<noteq> rec_ObjectType t
             else td \<noteq> rec_ObjectType t \<or> objectid \<noteq> rec_ObjectID t) then False
      else if tk_relation target \<noteq> [] \<and> rec_Relation t \<noteq> tk_relation target then False
      else if tk_user target \<noteq> [] \<and>
         (let (userType, userID, _) = ToUserParts (tk_user target)
          in if userID \<noteq> [] \<and> rec_User t \<noteq> tk_user target then True
             else userID = [] \<and> \<not> HasPrefix (rec_User t) (userType @ '':'')) then False
      else True)"

fun find_record :: "tuple_record list \<Rightarrow> tuple_key \<Rightarrow> tuple_record option" where
  "find_record [] tupleKey = None"
| "find_record (tr # records) tupleKey =
     (if match tr tupleKey then Some tr else find_record records tupleKey)"

section \<open>The backend\<close>

definition New :: "('a memory_backend \<Rightarrow> 'a memory_backend) list \<Rightarrow> 'a memory_backend" where
  "New opts =
     foldl (\<lambda>ds opt. opt ds)
       \<lparr>mb_maxTuplesPerWrite = 100, mb_maxTypesPerAuthorizationModel = 100,
        mb_tuples = (\<lambda>_. []), mb_changes = (\<lambda>_. []), mb_models = (\<lambda>_. None),
        mb_stores = [], mb_assertions = (\<lambda>_. None)\<rparr> opts"

definition WithMaxTuplesPerWrite :: "int \<Rightarrow> 'a memory_backend \<Rightarrow> 'a memory_backend" where
  "WithMaxTuplesPerWrite n ds = ds\<lparr>mb_maxTuplesPerWrite := n\<rparr>"

definition WithMaxTypesPerAuthorizationModel :: "int \<Rightarrow> 'a memory_backend \<Rightarrow> 'a memory_backend" where
  "WithMaxTypesPerAuthorizationModel n ds = ds\<lparr>mb_maxTypesPerAuthorizationModel := n\<rparr>"

definition MaxTuplesPerWrite :: "'a memory_backend \<Rightarrow> int" where
  "MaxTuplesPerWrite s = mb_maxTuplesPerWrite s"

definition MaxTypesPerAuthorizationModel :: "'a memory_backend \<Rightarrow> int" where
  "MaxTypesPerAuthorizationModel s = mb_maxTypesPerAuthorizationModel s"

subsection \<open>Reading tuples\<close>

text \<open>\<open>len(conditions) == 0 || slices.Contains(conditions, name)\<close>\<close>

definition condition_listed :: "string list \<Rightarrow> string \<Rightarrow> bool" where
  "condition_listed conditions name \<longleftrightarrow> conditions = [] \<or> name \<in> set conditions"

definition read_matches :: "'a memory_backend \<Rightarrow> string \<Rightarrow> read_filter \<Rightarrow> tuple_record list" where
  "read_matches s store flt =
     (if rf_Object flt = [] \<and> rf_Relation flt = [] \<and> rf_User flt = [] then mb_tuples s store
      else filter (\<lambda>t. match t (NewTupleKey (rf_Object flt) (rf_Relation flt) (rf_User flt)) \<and>
                       condition_listed (rf_Conditions flt) (rec_ConditionName t))
             (mb_tuples s store))"

definition mem_read :: "'a memory_backend \<Rightarrow> string \<Rightarrow> read_filter \<Rightarrow> pagination option \<Rightarrow>
    (store_err, mem_iter) result option" where
  "mem_read s store flt options =
     (let matches = read_matches s store flt;
          token = (case options of None \<Rightarrow> [] | Some o' \<Rightarrow> pg_from o') in
      case (if token = [] then Some 0 else Atoi token) of
        None \<Rightarrow> Some (Inl (ErrAtoi token))
      | Some from \<Rightarrow>
         (case (if from \<le> int (length matches) then slice_from matches from else Some matches) of
            None \<Rightarrow> None
          | Some matches \<Rightarrow>
             (let to = (case options of None \<Rightarrow> 0 | Some o' \<Rightarrow> pg_size o') in
              if to \<noteq> 0 \<and> to < int (length matches) then
                map_option (\<lambda>page. Inr \<lparr>mi_records = page, mi_token = Itoa (wrap64 (from + to))\<rparr>)
                  (slice_to matches to)
              else Some (Inr \<lparr>mi_records = matches, mi_token = []\<rparr>))))"

definition mem_Read :: "'a memory_backend \<Rightarrow> string \<Rightarrow> read_filter \<Rightarrow>
    (store_err, mem_iter) result option" where
  "mem_Read s store flt = mem_read s store flt None"

definition mem_ReadPage :: "string ctx \<Rightarrow> 'a memory_backend \<Rightarrow> string \<Rightarrow> read_filter \<Rightarrow> pagination \<Rightarrow>
    (store_err, pb_tuple list \<times> string) result option" where
  "mem_ReadPage ctx s store flt options =
     (case mem_read s store flt (Some options) of None \<Rightarrow> None
      | Some (Inl err) \<Rightarrow> Some (Inl err)
      | Some (Inr it) \<Rightarrow> ToArray ctx it)"

fun ReadUserTuple_loop :: "read_filter \<Rightarrow> tuple_record list \<Rightarrow> (store_err, pb_tuple) result" where
  "ReadUserTuple_loop flt [] = Inl ErrNotFound"
| "ReadUserTuple_loop flt (t # ts) =
     (if match t (NewTupleKey (rf_Object flt) (rf_Relation flt) (rf_User flt)) then
        (if rf_Conditions flt \<noteq> [] \<and> rec_ConditionName t \<notin> set (rf_Conditions flt) then
           ReadUserTuple_loop flt ts
         else Inr (AsTuple t))
      else ReadUserTuple_loop flt ts)"

definition mem_ReadUserTuple :: "'a memory_backend \<Rightarrow> string \<Rightarrow> read_filter \<Rightarrow>
    (store_err, pb_tuple) result" where
  "mem_ReadUserTuple s store flt = ReadUserTuple_loop flt (mb_tuples s store)"

text \<open>
  The loop body of \<open>ReadUsersetTuples\<close>: how often it appends the record. The inner \<open>continue\<close>
  goes on with the next restriction, and the last test has nothing left to skip.
\<close>

definition usersets_appended :: "usersets_filter \<Rightarrow> tuple_record \<Rightarrow> nat" where
  "usersets_appended flt t =
     (if match t (NewTupleKey (uf_Object flt) (uf_Relation flt) []) \<and>
         GetUserTypeFromUser (rec_User t) = UserSet then
        (if uf_AllowedUserTypeRestrictions flt = [] then 1
         else let userType = GetType (rec_User t);
                  userRelation = snd (SplitObjectRelation (rec_User t))
              in length (filter (\<lambda>allowedType. rr_type allowedType = userType \<and>
                                   rr_GetRelation allowedType = userRelation)
                          (uf_AllowedUserTypeRestrictions flt)))
      else 0)"

definition mem_ReadUsersetTuples :: "'a memory_backend \<Rightarrow> string \<Rightarrow> usersets_filter \<Rightarrow>
    (store_err, mem_iter) result" where
  "mem_ReadUsersetTuples s store flt =
     Inr \<lparr>mi_records = concat (map (\<lambda>t. replicate (usersets_appended flt t) t) (mb_tuples s store)),
          mi_token = []\<rparr>"

definition starting_appended :: "starting_filter \<Rightarrow> tuple_record \<Rightarrow> nat" where
  "starting_appended flt t =
     (if rec_ObjectType t \<noteq> sf_ObjectType flt then 0
      else if rec_Relation t \<noteq> sf_Relation flt then 0
      else if (case sf_ObjectIDs flt of None \<Rightarrow> False | Some ids \<Rightarrow> rec_ObjectID t \<notin> set ids) then 0
      else if sf_Conditions flt \<noteq> [] \<and> rec_ConditionName t \<notin> set (sf_Conditions flt) then 0
      else length (filter (\<lambda>userFilter.
             (if or_relation userFilter \<noteq> [] then GetObjectRelationAsString userFilter
              else or_object userFilter) = rec_User t) (sf_UserFilter flt)))"

text \<open>
  \<open>sort.Slice\<close> is not stable: the order of records with the same object ID is not specified, so
  the sorting function is an argument, any that orders by \<open>ObjectID\<close>.
\<close>

definition sorts_by :: "('a \<Rightarrow> string) \<Rightarrow> ('a list \<Rightarrow> 'a list) \<Rightarrow> bool" where
  "sorts_by key srt \<longleftrightarrow> (\<forall>xs. mset (srt xs) = mset xs \<and> sorted (map key (srt xs)))"

definition mem_ReadStartingWithUser :: "(tuple_record list \<Rightarrow> tuple_record list) \<Rightarrow>
    'a memory_backend \<Rightarrow> string \<Rightarrow> starting_filter \<Rightarrow> (store_err, mem_iter) result" where
  "mem_ReadStartingWithUser srt s store flt =
     Inr \<lparr>mi_records =
            srt (concat (map (\<lambda>t. replicate (starting_appended flt t) t) (mb_tuples s store))),
          mi_token = []\<rparr>"

subsection \<open>The changelog\<close>

text \<open>
  The loop of \<open>ReadChanges\<close>: \<open>break\<close> at the first change of the type that is after the horizon,
  \<open>continue\<close> for a change on the wrong side of the token.
\<close>

fun changes_loop :: "string \<Rightarrow> int \<Rightarrow> nat option \<Rightarrow> bool \<Rightarrow> tuple_change_rec list \<Rightarrow>
    tuple_change_rec list" where
  "changes_loop objectType horizon from sortDesc [] = []"
| "changes_loop objectType horizon from sortDesc (c # cs) =
     (if objectType = [] \<or> HasPrefix (tk_object (ch_tuple (cr_change c))) (objectType @ '':'') then
        (if int (ch_timestamp (cr_change c)) > horizon then []
         else if (case from of None \<Rightarrow> False
                  | Some u \<Rightarrow> (\<not> sortDesc \<and> cr_ulid c \<le> u) \<or> (sortDesc \<and> cr_ulid c \<ge> u)) then
           changes_loop objectType horizon from sortDesc cs
         else c # changes_loop objectType horizon from sortDesc cs)
      else changes_loop objectType horizon from sortDesc cs)"

definition mem_ReadChanges :: "(string \<Rightarrow> nat option) \<Rightarrow> (nat \<Rightarrow> string) \<Rightarrow> int \<Rightarrow> 'a memory_backend \<Rightarrow>
    string \<Rightarrow> changes_filter \<Rightarrow> pagination \<Rightarrow> bool \<Rightarrow>
    (store_err, tuple_change list \<times> string) result" where
  "mem_ReadChanges ulid_parse ulid_string now s store flt options sortDesc =
     (case (if pg_from options = [] then Some None else map_option Some (ulid_parse (pg_from options))) of
        None \<Rightarrow> Inl ErrInvalidContinuationToken
      | Some from \<Rightarrow>
         (let allChanges = changes_loop (cf_ObjectType flt) (now - cf_HorizonOffset flt) from sortDesc
                (mb_changes s store) in
          if allChanges = [] then Inl ErrNotFound
          else
           (let pageSize = (if pg_size options > 0 then pg_size options else DefaultPageSize);
                allChanges = (if sortDesc then rev allChanges else allChanges);
                to = (if int (length allChanges) < pageSize then int (length allChanges) else pageSize)
            in if to = 0 then Inl ErrNotFound
               else let page = take (nat to) allChanges
                    in Inr (map cr_change page, ulid_string (cr_ulid (last page))))))"

subsection \<open>Writing tuples\<close>

text \<open>
  \<open>sanitizeTuplesWriteDelete\<close> returns the indexes of the deletes and writes to ignore. In the
  second loop \<open>record.ConditionContext.String()\<close> is the argument \<open>ctx_string\<close>.
\<close>

fun sanitize_deletes :: "tuple_record list \<Rightarrow> write_options \<Rightarrow> nat \<Rightarrow> tuple_key list \<Rightarrow>
    (store_err, nat list) result" where
  "sanitize_deletes records opts i [] = Inr []"
| "sanitize_deletes records opts i (tk # deletes) =
     (if find_record records (TupleKeyWithoutConditionToTupleKey tk) = None then
        (if wo_OnMissingDelete opts = OnMissingDeleteIgnore then
           rbind (sanitize_deletes records opts (Suc i) deletes) (\<lambda>is. Inr (i # is))
         else Inl (ErrInvalidWriteInput tk OpDelete))
      else sanitize_deletes records opts (Suc i) deletes)"

fun sanitize_writes :: "(pb_struct option \<Rightarrow> string) \<Rightarrow> tuple_record list \<Rightarrow> write_options \<Rightarrow> nat \<Rightarrow>
    tuple_key list \<Rightarrow> (store_err, nat list) result" where
  "sanitize_writes ctx_string records opts i [] = Inr []"
| "sanitize_writes ctx_string records opts i (tk # writes) =
     (case find_record records tk of
        None \<Rightarrow> sanitize_writes ctx_string records opts (Suc i) writes
      | Some record' \<Rightarrow>
         (if wo_OnDuplicateInsert opts = OnDuplicateInsertIgnore then
            (if rec_ConditionName record' = get_cond_name tk \<and>
                ctx_string (rec_ConditionContext record') = ctx_string (get_cond_context tk) then
               rbind (sanitize_writes ctx_string records opts (Suc i) writes) (\<lambda>is. Inr (i # is))
             else Inl (ErrTupleConditionConflict tk))
          else Inl (ErrInvalidWriteInput tk OpWrite)))"

definition sanitizeTuplesWriteDelete :: "(pb_struct option \<Rightarrow> string) \<Rightarrow> tuple_record list \<Rightarrow>
    tuple_key list \<Rightarrow> tuple_key list \<Rightarrow> write_options \<Rightarrow> (store_err, nat list \<times> nat list) result" where
  "sanitizeTuplesWriteDelete ctx_string records deletes writes opts =
     rbind (sanitize_deletes records opts 0 deletes) (\<lambda>duplicateDeletes.
       rbind (sanitize_writes ctx_string records opts 0 writes) (\<lambda>duplicateWrites.
         Inr (duplicateDeletes, duplicateWrites)))"

text \<open>The inner loop over the deletes: does it reach \<open>continue Delete\<close>?\<close>

fun delete_matched :: "tuple_record \<Rightarrow> nat list \<Rightarrow> nat \<Rightarrow> tuple_key list \<Rightarrow> bool" where
  "delete_matched tr duplicateDeletes i [] = False"
| "delete_matched tr duplicateDeletes i (k # deletes) =
     (if match tr (TupleKeyWithoutConditionToTupleKey k) then
        (if i \<in> set duplicateDeletes then delete_matched tr duplicateDeletes (Suc i) deletes else True)
      else delete_matched tr duplicateDeletes (Suc i) deletes)"

text \<open>
  The two loops of \<open>Write\<close>, over the records and over the writes. \<open>n\<close> counts the ULIDs made; they
  return the records, the changes appended to the log, and \<open>n\<close>.
\<close>

fun Write_deletes :: "(nat \<Rightarrow> nat) \<Rightarrow> nat \<Rightarrow> tuple_key list \<Rightarrow> nat list \<Rightarrow> nat \<Rightarrow> tuple_record list \<Rightarrow>
    tuple_record list \<times> tuple_change_rec list \<times> nat" where
  "Write_deletes mk now deletes duplicateDeletes n [] = ([], [], n)"
| "Write_deletes mk now deletes duplicateDeletes n (tr # trs) =
     (if delete_matched tr duplicateDeletes 0 deletes then
        (let tk = tup_key (AsTuple tr);
             change = \<lparr>cr_change = \<lparr>ch_tuple = NewTupleKey (tk_object tk) (tk_relation tk) (tk_user tk),
                          ch_operation = OpDelete, ch_timestamp = now\<rparr>,
                       cr_ulid = mk n\<rparr>;
             (records, changes, n') = Write_deletes mk now deletes duplicateDeletes (Suc n) trs
         in (records, change # changes, n'))
      else
        (let (records, changes, n') = Write_deletes mk now deletes duplicateDeletes n trs
         in (tr # records, changes, n')))"

definition new_record :: "(nat \<Rightarrow> nat) \<Rightarrow> nat \<Rightarrow> string \<Rightarrow> nat \<Rightarrow> tuple_key \<Rightarrow> tuple_record" where
  "new_record mk now store n t =
     (let (objectType, objectID) = SplitObject (tk_object t) in
      \<lparr>rec_Store = store, rec_ObjectType = objectType, rec_ObjectID = objectID,
       rec_Relation = tk_relation t, rec_User = tk_user t,
       rec_UserObjectType = [], rec_UserObjectID = [], rec_UserRelation = [],
       rec_ConditionName = get_cond_name t, rec_ConditionContext = get_cond_context t,
       rec_Ulid = mk n, rec_InsertedAt = now\<rparr>)"

definition write_change :: "(nat \<Rightarrow> nat) \<Rightarrow> nat \<Rightarrow> nat \<Rightarrow> tuple_key \<Rightarrow> tuple_change_rec" where
  "write_change mk now n t =
     (let (objectType, objectID) = SplitObject (tk_object t) in
      \<lparr>cr_change = \<lparr>ch_tuple = NewTupleKeyWithCondition (BuildObject objectType objectID)
                      (tk_relation t) (tk_user t) (get_cond_name t) (get_cond_context t),
                   ch_operation = OpWrite, ch_timestamp = now\<rparr>,
       cr_ulid = mk n\<rparr>)"

fun Write_writes :: "(nat \<Rightarrow> nat) \<Rightarrow> nat \<Rightarrow> string \<Rightarrow> nat \<Rightarrow> tuple_record list \<Rightarrow> tuple_key list \<Rightarrow>
    tuple_record list \<times> tuple_change_rec list" where
  "Write_writes mk now store n records [] = (records, [])"
| "Write_writes mk now store n records (t # writes) =
     (if find_record records t \<noteq> None then Write_writes mk now store n records writes
      else
        (let (records', changes) = Write_writes mk now store (n + 2)
               (records @ [new_record mk now store n t]) writes
         in (records', write_change mk now (Suc n) t # changes)))"

definition mem_Write :: "(pb_struct option \<Rightarrow> string) \<Rightarrow> (nat \<Rightarrow> nat) \<Rightarrow> nat \<Rightarrow> string \<Rightarrow> tuple_key list \<Rightarrow>
    tuple_key list \<Rightarrow> (write_options \<Rightarrow> write_options) list \<Rightarrow> 'a memory_backend \<Rightarrow>
    (store_err, unit) result \<times> 'a memory_backend" where
  "mem_Write ctx_string mk now store deletes writes opts s =
     (case sanitizeTuplesWriteDelete ctx_string (mb_tuples s store) deletes writes
             (NewTupleWriteOptions opts) of
        Inl err \<Rightarrow> (Inl err, s)
      | Inr (duplicateDeletes, _) \<Rightarrow>
         (let (records, deleted, n) =
                Write_deletes mk now deletes duplicateDeletes 0 (mb_tuples s store);
              (records', written) = Write_writes mk now store n records writes
          in (Inr (), s\<lparr>mb_changes := (mb_changes s)(store := mb_changes s store @ deleted @ written),
                        mb_tuples := (mb_tuples s)(store := records')\<rparr>)))"

subsection \<open>Authorization models\<close>

fun find_latest :: "(string \<times> model_entry) list \<Rightarrow> authorization_model option" where
  "find_latest [] = None"
| "find_latest ((_, entry) # es) = (if me_latest entry then Some (me_model entry) else find_latest es)"

definition findAuthorizationModelByID :: "string \<Rightarrow> (string \<times> model_entry) list \<Rightarrow>
    authorization_model option" where
  "findAuthorizationModelByID ident configurations =
     (if ident \<noteq> [] then map_option me_model (map_of configurations ident) else find_latest configurations)"

definition mem_ReadAuthorizationModel :: "'a memory_backend \<Rightarrow> string \<Rightarrow> string \<Rightarrow>
    (store_err, authorization_model) result" where
  "mem_ReadAuthorizationModel s store ident =
     (case mb_models s store of None \<Rightarrow> Inl ErrNotFound
      | Some tm \<Rightarrow> (case findAuthorizationModelByID ident tm of
          Some model \<Rightarrow> if am_typeDefinitions model = [] then Inl ErrNotFound else Inr model
        | None \<Rightarrow> Inl ErrNotFound))"

text \<open>The ids of a store's models are distinct, so sorting them down by ident has one outcome.\<close>

definition mem_ReadAuthorizationModels :: "'a memory_backend \<Rightarrow> string \<Rightarrow> pagination \<Rightarrow>
    (store_err, authorization_model list \<times> string) result" where
  "mem_ReadAuthorizationModels s store options =
     (let models = rev (sort_key am_id (map (me_model \<circ> snd)
            (case mb_models s store of None \<Rightarrow> [] | Some tm \<Rightarrow> tm)));
          pageSize = (if pg_size options > 0 then pg_size options else DefaultPageSize)
      in case (if pg_from options = [] then Some 0 else Atoi (pg_from options)) of
           None \<Rightarrow> Inl (ErrAtoi (pg_from options))
         | Some from \<Rightarrow>
            (let from = max 0 (min from (int (length models)));
                 to = min (int (length models)) (from + pageSize);
                 res = drop (nat from) (take (nat to) models)
             in Inr (res, if to \<noteq> int (length models) then Itoa to else [])))"

definition mem_FindLatestAuthorizationModel :: "'a memory_backend \<Rightarrow> string \<Rightarrow>
    (store_err, authorization_model) result" where
  "mem_FindLatestAuthorizationModel s store =
     (case mb_models s store of None \<Rightarrow> Inl ErrNotFound
      | Some tm \<Rightarrow> (case findAuthorizationModelByID [] tm of
          None \<Rightarrow> Inl ErrNotFound | Some nsc \<Rightarrow> Inr nsc))"

definition mem_WriteAuthorizationModel :: "string \<Rightarrow> authorization_model \<Rightarrow> 'a memory_backend \<Rightarrow>
    'a memory_backend" where
  "mem_WriteAuthorizationModel store model s =
     (let entries = (case mb_models s store of None \<Rightarrow> [] | Some tm \<Rightarrow> tm);
          entries = map (\<lambda>(id, entry). (id, entry\<lparr>me_latest := False\<rparr>)) entries;
          entries = AList.update (am_id model) \<lparr>me_model = model, me_latest = True\<rparr> entries
      in s\<lparr>mb_models := (mb_models s)(store := Some entries)\<rparr>)"

subsection \<open>Stores and assertions\<close>

definition mem_CreateStore :: "nat \<Rightarrow> fga_store \<Rightarrow> 'a memory_backend \<Rightarrow>
    (store_err, fga_store) result \<times> 'a memory_backend" where
  "mem_CreateStore now newStore s =
     (case map_of (mb_stores s) (store_id newStore) of
        Some _ \<Rightarrow> (Inl ErrCollision, s)
      | None \<Rightarrow>
         (let st = \<lparr>store_id = store_id newStore, store_name = store_name newStore,
                    store_created_at = now, store_updated_at = now\<rparr>
          in (Inr st, s\<lparr>mb_stores := AList.update (store_id newStore) st (mb_stores s)\<rparr>)))"

definition mem_DeleteStore :: "string \<Rightarrow> 'a memory_backend \<Rightarrow> 'a memory_backend" where
  "mem_DeleteStore ident s = s\<lparr>mb_stores := AList.delete ident (mb_stores s)\<rparr>"

definition mem_GetStore :: "'a memory_backend \<Rightarrow> string \<Rightarrow> (store_err, fga_store) result" where
  "mem_GetStore s storeID =
     (case map_of (mb_stores s) storeID of None \<Rightarrow> Inl ErrNotFound | Some st \<Rightarrow> Inr st)"

definition mem_ListStores :: "'a memory_backend \<Rightarrow> string list \<Rightarrow> string \<Rightarrow> pagination \<Rightarrow>
    (store_err, fga_store list \<times> string) result" where
  "mem_ListStores s ids name options =
     (let stores = map snd (mb_stores s);
          stores = (if ids \<noteq> [] then
              concat (map (\<lambda>storeID. filter (\<lambda>st. store_id st = storeID) stores) ids) else stores);
          stores = (if name \<noteq> [] then filter (\<lambda>st. store_name st = name) stores else stores);
          stores = sort_key store_id stores;
          pageSize = (if pg_size options > 0 then pg_size options else DefaultPageSize)
      in case (if pg_from options = [] then Some 0 else Atoi (pg_from options)) of
           None \<Rightarrow> Inl (ErrAtoi (pg_from options))
         | Some from \<Rightarrow>
            (let from = max 0 (min (int (length stores)) from);
                 to = min (int (length stores)) (from + pageSize);
                 res = drop (nat from) (take (nat to) stores)
             in if res = [] then Inr ([], [])
                else Inr (res, if to \<noteq> int (length stores) then Itoa to else [])))"

definition mem_WriteAssertions :: "string \<Rightarrow> string \<Rightarrow> 'a list \<Rightarrow> 'a memory_backend \<Rightarrow>
    'a memory_backend" where
  "mem_WriteAssertions store modelID assertions s =
     s\<lparr>mb_assertions := (mb_assertions s)(store @ ''|'' @ modelID := Some assertions)\<rparr>"

definition mem_ReadAssertions :: "'a memory_backend \<Rightarrow> string \<Rightarrow> string \<Rightarrow> 'a list" where
  "mem_ReadAssertions s store modelID =
     (case mb_assertions s (store @ ''|'' @ modelID) of None \<Rightarrow> [] | Some as \<Rightarrow> as)"

definition mem_IsReady :: "'a memory_backend \<Rightarrow> bool" where
  "mem_IsReady s = True"

section \<open>Keys\<close>

text \<open>
  What the lemmas say of keys: a full key names one tuple (the handlers of the API let no other
  reach \<open>Write\<close>); \<open>same_key\<close> compares all but the condition; \<open>normal_key\<close> is the key as the record
  made from it gives it back.
\<close>

definition full_user :: "string \<Rightarrow> bool" where
  "full_user u \<longleftrightarrow> u \<noteq> [] \<and> fst (snd (ToUserParts u)) \<noteq> []"

definition full_object :: "string \<Rightarrow> bool" where
  "full_object ob \<longleftrightarrow> CHR '':'' \<in> set ob \<and> snd (SplitObject ob) \<noteq> []"

definition full_key :: "tuple_key \<Rightarrow> bool" where
  "full_key tk \<longleftrightarrow> full_object (tk_object tk) \<and> tk_relation tk \<noteq> [] \<and> full_user (tk_user tk)"

definition same_key :: "tuple_key \<Rightarrow> tuple_key \<Rightarrow> bool" where
  "same_key a b \<longleftrightarrow> tk_object a = tk_object b \<and> tk_relation a = tk_relation b \<and> tk_user a = tk_user b"

definition normal_key :: "tuple_key \<Rightarrow> tuple_key" where
  "normal_key tk = NewTupleKeyWithCondition (tk_object tk) (tk_relation tk) (tk_user tk)
     (get_cond_name tk) (get_cond_context tk)"

definition wf_record :: "tuple_record \<Rightarrow> bool" where
  "wf_record r \<longleftrightarrow> CHR '':'' \<notin> set (rec_ObjectType r) \<and> rec_ObjectID r \<noteq> [] \<and>
     rec_Relation r \<noteq> [] \<and> full_user (rec_User r)"

abbreviation stored_key :: "tuple_record \<Rightarrow> tuple_key" where
  "stored_key r \<equiv> tup_key (AsTuple r)"

lemma stored_key_simps [simp]:
  assumes "wf_record r"
  shows "tk_object (stored_key r) = BuildObject (rec_ObjectType r) (rec_ObjectID r)"
    and "tk_relation (stored_key r) = rec_Relation r"
    and "tk_user (stored_key r) = rec_User r"
  using assms by (simp_all add: AsTuple_def Let_def NewTupleKeyWithCondition_def wf_record_def full_user_def)

lemma SplitObject_full:
  assumes "full_object ob"
  obtains t i where "ob = BuildObject t i" and "CHR '':'' \<notin> set t" and "i \<noteq> []"
    and "SplitObject ob = (t, i)"
proof -
  from assms obtain t i where ob: "ob = t @ CHR '':'' # i" "CHR '':'' \<notin> set t"
    unfolding full_object_def by (meson split_list_first)
  then have b: "ob = BuildObject t i" by (simp add: BuildObject_def)
  from ob(2) have "SplitObject ob = (t, i)" unfolding b by simp
  with b ob assms that show thesis by (simp add: full_object_def)
qed

lemma BuildObject_inj:
  "CHR '':'' \<notin> set t \<Longrightarrow> CHR '':'' \<notin> set t' \<Longrightarrow>
     BuildObject t i = BuildObject t' i' \<longleftrightarrow> t = t' \<and> i = i'"
  by (metis SplitObject_BuildObject prod.inject)

lemma match_full:
  assumes "full_key tk" and "wf_record r"
  shows "match r tk \<longleftrightarrow> same_key (stored_key r) tk"
proof -
  from assms(1) obtain t i where ob: "tk_object tk = BuildObject t i" "CHR '':'' \<notin> set t" "i \<noteq> []"
      "SplitObject (tk_object tk) = (t, i)"
    unfolding full_key_def by (metis SplitObject_full)
  obtain ut uid ur where u: "ToUserParts (tk_user tk) = (ut, uid, ur)" by (cases "ToUserParts (tk_user tk)")
  have ne: "tk_object tk \<noteq> []" "tk_relation tk \<noteq> []" "tk_user tk \<noteq> []" "uid \<noteq> []"
    using assms(1) u ob by (auto simp: full_key_def full_user_def BuildObject_def)
  have "CHR '':'' \<notin> set (rec_ObjectType r)" using assms(2) by (simp add: wf_record_def)
  then show ?thesis
    using ne ob(2) ob(3) by (auto simp: match_def same_key_def assms(2) ob(4) u BuildObject_inj ob(1))
qed

lemma match_without_condition [simp]:
  "match r (TupleKeyWithoutConditionToTupleKey tk) = match r tk"
  by (simp add: match_def TupleKeyWithoutConditionToTupleKey_def NewTupleKey_def)

lemma find_record_None: "find_record rs tk = None \<longleftrightarrow> (\<forall>r \<in> set rs. \<not> match r tk)"
  by (induction rs) auto

lemma find_record_Some: "find_record rs tk = Some r \<Longrightarrow> r \<in> set rs \<and> match r tk"
  by (induction rs) (auto split: if_splits)

lemma new_record_key [simp]:
  assumes "full_key tk"
  shows "stored_key (new_record mk now store n tk) = normal_key tk"
    and "wf_record (new_record mk now store n tk)"
    and "ch_tuple (cr_change (write_change mk now n tk)) = normal_key tk"
    and "ch_operation (cr_change (write_change mk now n tk)) = OpWrite"
proof -
  from assms obtain t i where ob: "tk_object tk = BuildObject t i" "CHR '':'' \<notin> set t" "i \<noteq> []"
      "SplitObject (tk_object tk) = (t, i)"
    unfolding full_key_def by (metis SplitObject_full)
  show "stored_key (new_record mk now store n tk) = normal_key tk"
      and "wf_record (new_record mk now store n tk)"
      and "ch_tuple (cr_change (write_change mk now n tk)) = normal_key tk"
      and "ch_operation (cr_change (write_change mk now n tk)) = OpWrite"
    using assms ob by (auto simp: new_record_def write_change_def AsTuple_def Let_def normal_key_def
        full_key_def full_user_def wf_record_def)
qed

lemma normal_key_simps [simp]:
  "tk_object (normal_key tk) = tk_object tk" "tk_relation (normal_key tk) = tk_relation tk"
  "tk_user (normal_key tk) = tk_user tk"
  "same_key a (normal_key tk) = same_key a tk" "same_key (normal_key tk) a = same_key tk a"
  by (simp_all add: normal_key_def NewTupleKeyWithCondition_def same_key_def)

lemma same_key_sym: "same_key a b \<longleftrightarrow> same_key b a"
  by (auto simp: same_key_def)

lemma same_key_trans: "same_key a b \<Longrightarrow> same_key b c \<Longrightarrow> same_key a c"
  by (simp add: same_key_def)

lemma same_key_refl [simp]: "same_key a a"
  by (simp add: same_key_def)

section \<open>The iterator\<close>

interpretation memory_iter: iterator mem_Next mem_Head "\<lambda>s. map AsTuple (mi_records s)"
  "\<lambda>_. ErrIteratorDone"
  by unfold_locales (auto simp: mem_Next_def mem_Head_def split: list.splits)

lemma ToArray_loop_spec:
  "n \<le> length (mi_records s) \<Longrightarrow>
     ToArray_loop None n s res = Some (Inr (res @ map AsTuple (take n (mi_records s)), mi_token s))"
proof (induction n arbitrary: s res)
  case (Suc n)
  then obtain r rs where "mi_records s = r # rs" by (cases "mi_records s") auto
  with Suc show ?case by (simp add: mem_Next_def)
qed simp

lemma ToArray_spec [simp]: "ToArray None s = Some (Inr (map AsTuple (mi_records s), mi_token s))"
  by (simp add: ToArray_def ToArray_loop_spec)

section \<open>Writing\<close>

definition stored :: "'a memory_backend \<Rightarrow> string \<Rightarrow> tuple_key list" where
  "stored s store = map stored_key (mb_tuples s store)"

text \<open>The tuples that a reader of the changelog arrives at.\<close>

fun replay :: "tuple_key list \<Rightarrow> tuple_change list \<Rightarrow> tuple_key list" where
  "replay ts [] = ts"
| "replay ts (c # cs) =
     replay (case ch_operation c of OpDelete \<Rightarrow> filter (\<lambda>t. \<not> same_key t (ch_tuple c)) ts
             | OpWrite \<Rightarrow> ts @ [ch_tuple c]) cs"

lemma replay_append [simp]: "replay ts (as @ bs) = replay (replay ts as) bs"
  by (induction as arbitrary: ts) auto

text \<open>The writes that add a tuple: the first of each key that is not among the tuples kept.\<close>

fun fresh_writes :: "tuple_key list \<Rightarrow> tuple_key list \<Rightarrow> tuple_key list" where
  "fresh_writes ts [] = []"
| "fresh_writes ts (w # ws) =
     (if \<exists>t \<in> set ts. same_key t w then fresh_writes ts ws
      else normal_key w # fresh_writes (ts @ [normal_key w]) ws)"

definition is_deleted :: "tuple_key list \<Rightarrow> tuple_key \<Rightarrow> bool" where
  "is_deleted deletes t \<longleftrightarrow> (\<exists>d \<in> set deletes. same_key t d)"

lemma sanitize_deletes_indexes:
  "sanitize_deletes records opts i deletes = Inr is \<Longrightarrow> j < length deletes \<Longrightarrow> i + j \<in> set is \<Longrightarrow>
     find_record records (TupleKeyWithoutConditionToTupleKey (deletes ! j)) = None"
proof (induction deletes arbitrary: i "is" j)
  case (Cons tk deletes)
  have later: "\<forall>n \<in> set ns. Suc i \<le> n" if "sanitize_deletes records opts (Suc i) deletes = Inr ns" for ns
    using that
  proof (induction deletes arbitrary: i ns)
    case (Cons tk' ds)
    show ?case
    proof
      fix n assume n: "n \<in> set ns"
      with Cons.prems Cons.IH [of "Suc i"] show "Suc i \<le> n"
        by (fastforce split: if_splits)
    qed
  qed simp
  show ?case
  proof (cases j)
    case 0
    with Cons.prems later show ?thesis by (fastforce split: if_splits)
  next
    case (Suc j')
    with Cons.prems Cons.IH [of "Suc i" _ j'] show ?thesis by (fastforce split: if_splits)
  qed
qed simp

lemma delete_matched_iff:
  "delete_matched tr dups i deletes \<longleftrightarrow>
     (\<exists>j < length deletes. match tr (deletes ! j) \<and> i + j \<notin> set dups)"
proof (induction deletes arbitrary: i)
  case (Cons k ks)
  show ?case unfolding delete_matched.simps Cons.IH by (auto simp: Ex_less_Suc2)
qed simp

text \<open>After the sanitising, no record is spared by a duplicate delete.\<close>

lemma delete_matched_sanitized:
  assumes "sanitize_deletes records opts 0 deletes = Inr dups" and "tr \<in> set records"
    and "wf_record tr" and "\<forall>d \<in> set deletes. full_key d"
  shows "delete_matched tr dups 0 deletes \<longleftrightarrow> is_deleted deletes (stored_key tr)"
proof -
  have "match tr (deletes ! j) \<longleftrightarrow> same_key (stored_key tr) (deletes ! j)" if "j < length deletes" for j
    using that assms by (simp add: match_full)
  moreover have "j \<notin> set dups" if "j < length deletes" "match tr (deletes ! j)" for j
    using sanitize_deletes_indexes [OF assms(1), of j] that assms(2) by (auto simp: find_record_None)
  moreover have "is_deleted deletes (stored_key tr) \<longleftrightarrow>
      (\<exists>j < length deletes. same_key (stored_key tr) (deletes ! j))"
    unfolding is_deleted_def by (metis in_set_conv_nth)
  ultimately show ?thesis unfolding delete_matched_iff add_0 by blast
qed

lemma Write_deletes_spec:
  assumes "Write_deletes mk now deletes dups n trs = (records, changes, n')"
    and "\<forall>tr \<in> set trs. delete_matched tr dups 0 deletes \<longleftrightarrow> P tr"
  shows "records = filter (\<lambda>tr. \<not> P tr) trs \<and>
    map (\<lambda>c. ch_operation (cr_change c)) changes = replicate (length changes) OpDelete \<and>
    list_all2 (\<lambda>c tr. same_key (ch_tuple (cr_change c)) (stored_key tr)) changes (filter P trs)"
  using assms
proof (induction trs arbitrary: n records changes n')
  case (Cons tr trs)
  show ?case
  proof (cases "P tr")
    case True
    with Cons.prems obtain cs where w: "Write_deletes mk now deletes dups (Suc n) trs = (records, cs, n')"
      and c: "changes = \<lparr>cr_change = \<lparr>ch_tuple = NewTupleKey (tk_object (stored_key tr))
          (tk_relation (stored_key tr)) (tk_user (stored_key tr)), ch_operation = OpDelete,
          ch_timestamp = now\<rparr>, cr_ulid = mk n\<rparr> # cs"
      by (auto simp: Let_def split: prod.splits)
    from Cons.IH [OF w] Cons.prems(2) True show ?thesis
      by (simp add: c NewTupleKey_def same_key_def)
  next
    case False
    with Cons.prems obtain rs where w: "Write_deletes mk now deletes dups n trs = (rs, changes, n')"
      and r: "records = tr # rs"
      by (auto split: prod.splits)
    from Cons.IH [OF w] Cons.prems(2) False r show ?thesis by simp
  qed
qed simp

lemma replay_deletes:
  assumes "map (\<lambda>c. ch_operation (cr_change c)) changes = replicate (length changes) OpDelete"
    and "list_all2 (\<lambda>c tr. same_key (ch_tuple (cr_change c)) (stored_key tr)) changes trs"
  shows "replay ts (map cr_change changes) = filter (\<lambda>t. \<not> (\<exists>tr \<in> set trs. same_key t (stored_key tr))) ts"
  using assms(2,1)
proof (induction arbitrary: ts rule: list_all2_induct)
  case (Cons c cs tr trs)
  have "same_key t (ch_tuple (cr_change c)) = same_key t (stored_key tr)" for t
    using Cons.hyps by (auto simp: same_key_def)
  with Cons show ?case by (simp add: filter_filter conj_commute)
qed simp

definition key_id :: "tuple_key \<Rightarrow> string \<times> string \<times> string" where
  "key_id t = (tk_object t, tk_relation t, tk_user t)"

lemma same_key_iff: "same_key a b \<longleftrightarrow> key_id a = key_id b"
  by (auto simp: same_key_def key_id_def)

lemma find_record_full:
  assumes "full_key w" and "\<forall>r \<in> set records. wf_record r"
  shows "find_record records w \<noteq> None \<longleftrightarrow> (\<exists>t \<in> set (map stored_key records). same_key t w)"
  using assms by (auto simp: find_record_None match_full)

lemma Write_writes_spec:
  assumes "Write_writes mk now store n records writes = (records', changes)"
    and "\<forall>w \<in> set writes. full_key w" and "\<forall>r \<in> set records. wf_record r"
  shows "map stored_key records' =
      map stored_key records @ fresh_writes (map stored_key records) writes \<and>
    (\<forall>r \<in> set records'. wf_record r) \<and>
    replay ts (map cr_change changes) = ts @ fresh_writes (map stored_key records) writes"
  using assms
proof (induction writes arbitrary: n records records' changes ts)
  case (Cons w ws)
  show ?case
  proof (cases "find_record records w = None")
    case False
    with Cons.prems have "Write_writes mk now store n records ws = (records', changes)" by simp
    moreover have "full_key w" using Cons.prems by simp
    with False have "\<exists>t \<in> set (map stored_key records). same_key t w"
      using find_record_full [of w records] Cons.prems(3) by blast
    ultimately show ?thesis using Cons.IH [of n records records' changes ts] Cons.prems by simp
  next
    case True
    with Cons.prems obtain cs where
        w: "Write_writes mk now store (n + 2) (records @ [new_record mk now store n w]) ws = (records', cs)"
      and c: "changes = write_change mk now (Suc n) w # cs"
      by (auto split: prod.splits)
    have full: "full_key w" using Cons.prems by simp
    with True have "\<not> (\<exists>t \<in> set (map stored_key records). same_key t w)"
      using find_record_full [of w records] Cons.prems(3) by blast
    then have fresh: "fresh_writes (map stored_key records) (w # ws) =
        normal_key w # fresh_writes (map stored_key records @ [normal_key w]) ws" by simp
    have "\<forall>w \<in> set ws. full_key w" "\<forall>r \<in> set (records @ [new_record mk now store n w]). wf_record r"
      using Cons.prems(2,3) full by auto
    from Cons.IH [OF w this, of "ts @ [normal_key w]"] show ?thesis
      unfolding fresh by (simp add: c full)
  qed
qed simp

lemma fresh_writes_distinct:
  "distinct (map key_id ts) \<Longrightarrow> distinct (map key_id (ts @ fresh_writes ts ws))"
proof (induction ws arbitrary: ts)
  case (Cons w ws)
  show ?case
  proof (cases "\<exists>t \<in> set ts. same_key t w")
    case False
    then have "distinct (map key_id (ts @ [normal_key w]))"
      using Cons.prems by (auto simp: same_key_iff) (metis normal_key_simps(4) same_key_iff)
    from Cons.IH [OF this] False show ?thesis by simp
  qed (use Cons in simp)
qed simp

section \<open>What \<open>Write\<close> does\<close>

definition log_of :: "'a memory_backend \<Rightarrow> string \<Rightarrow> tuple_change list" where
  "log_of s store = map cr_change (mb_changes s store)"

definition tuples_ok :: "'a memory_backend \<Rightarrow> string \<Rightarrow> bool" where
  "tuples_ok s store \<longleftrightarrow> (\<forall>r \<in> set (mb_tuples s store). wf_record r) \<and>
     distinct (map key_id (stored s store)) \<and> replay [] (log_of s store) = stored s store"

definition write_conflict :: "(pb_struct option \<Rightarrow> string) \<Rightarrow> write_options \<Rightarrow> tuple_record list \<Rightarrow>
    tuple_key \<Rightarrow> bool" where
  "write_conflict ctx_string opts records w \<longleftrightarrow> (case find_record records w of None \<Rightarrow> False
     | Some r \<Rightarrow> wo_OnDuplicateInsert opts = OnDuplicateInsertError \<or>
         rec_ConditionName r \<noteq> get_cond_name w \<or>
         ctx_string (rec_ConditionContext r) \<noteq> ctx_string (get_cond_context w))"

lemma sanitize_deletes_ok:
  "is_ok (sanitize_deletes records opts i deletes) \<longleftrightarrow>
     (\<forall>d \<in> set deletes. wo_OnMissingDelete opts = OnMissingDeleteIgnore \<or> find_record records d \<noteq> None)"
proof (induction deletes arbitrary: i)
  case (Cons d ds)
  have "find_record records (TupleKeyWithoutConditionToTupleKey d) = None \<longleftrightarrow> find_record records d = None"
    by (simp add: find_record_None)
  with Cons [of "Suc i"] show ?case
    by (cases "sanitize_deletes records opts (Suc i) ds") auto
qed simp

lemma sanitize_writes_ok:
  "is_ok (sanitize_writes ctx_string records opts i writes) \<longleftrightarrow>
     (\<forall>w \<in> set writes. \<not> write_conflict ctx_string opts records w)"
proof (induction writes arbitrary: i)
  case (Cons w ws)
  have rec: "is_ok (rbind (sanitize_writes ctx_string records opts (Suc i) ws) (\<lambda>is. Inr (i # is))) \<longleftrightarrow>
      is_ok (sanitize_writes ctx_string records opts (Suc i) ws)"
    by (cases "sanitize_writes ctx_string records opts (Suc i) ws") auto
  show ?case
  proof (cases "find_record records w")
    case None
    then have "\<not> write_conflict ctx_string opts records w" by (simp add: write_conflict_def)
    with None show ?thesis by (simp add: Cons)
  next
    case (Some r)
    then show ?thesis
      using rec Cons [of "Suc i"] by (cases "wo_OnDuplicateInsert opts") (auto simp: write_conflict_def)
  qed
qed simp

lemma Write_ok_iff:
  "is_ok (fst (mem_Write ctx_string mk now store deletes writes opts s)) \<longleftrightarrow>
     (\<forall>d \<in> set deletes. wo_OnMissingDelete (NewTupleWriteOptions opts) = OnMissingDeleteIgnore \<or>
        find_record (mb_tuples s store) d \<noteq> None) \<and>
     (\<forall>w \<in> set writes. \<not> write_conflict ctx_string (NewTupleWriteOptions opts) (mb_tuples s store) w)"
  using sanitize_deletes_ok [of "mb_tuples s store" "NewTupleWriteOptions opts" 0 deletes]
    sanitize_writes_ok [of ctx_string "mb_tuples s store" "NewTupleWriteOptions opts" 0 writes]
  by (auto simp: mem_Write_def sanitizeTuplesWriteDelete_def is_ok_iff split: sum.splits prod.splits)

lemma Write_failed:
  "\<not> is_ok (fst (mem_Write ctx_string mk now store deletes writes opts s)) \<Longrightarrow>
     snd (mem_Write ctx_string mk now store deletes writes opts s) = s"
  by (auto simp: mem_Write_def split: sum.splits prod.splits)

lemma Write_other:
  "store' \<noteq> store \<Longrightarrow> mb_tuples (snd (mem_Write ctx_string mk now store deletes writes opts s)) store' =
       mb_tuples s store' \<and>
     mb_changes (snd (mem_Write ctx_string mk now store deletes writes opts s)) store' = mb_changes s store'"
  by (auto simp: mem_Write_def split: sum.splits prod.splits)

lemma Write_others:
  "mb_models (snd (mem_Write ctx_string mk now store deletes writes opts s)) = mb_models s"
  "mb_stores (snd (mem_Write ctx_string mk now store deletes writes opts s)) = mb_stores s"
  "mb_assertions (snd (mem_Write ctx_string mk now store deletes writes opts s)) = mb_assertions s"
  by (auto simp: mem_Write_def split: sum.splits prod.splits)

definition write_result :: "tuple_key list \<Rightarrow> tuple_key list \<Rightarrow> tuple_key list \<Rightarrow> tuple_key list" where
  "write_result deletes writes ts =
     (let kept = filter (\<lambda>t. \<not> is_deleted deletes t) ts in kept @ fresh_writes kept writes)"

text \<open>
  Whatever the deletes are, the records that they match are gone, and the log says so; full keys delete
  the tuples that they name.
\<close>

lemma Write_kept:
  assumes "fst (mem_Write ctx_string mk now store deletes writes opts s) = Inr ()"
    and "snd (mem_Write ctx_string mk now store deletes writes opts s) = s'"
    and "\<forall>k \<in> set writes. full_key k" and "tuples_ok s store"
  obtains dups where "sanitize_deletes (mb_tuples s store) (NewTupleWriteOptions opts) 0 deletes = Inr dups"
    and "stored s' store = (let kept = map stored_key (filter (\<lambda>r. \<not> delete_matched r dups 0 deletes) (mb_tuples s store))
      in kept @ fresh_writes kept writes)" and "tuples_ok s' store"
proof -
  let ?rs = "mb_tuples s store" and ?o = "NewTupleWriteOptions opts"
  from assms(1) obtain dups wr where
      san: "sanitizeTuplesWriteDelete ctx_string ?rs deletes writes ?o = Inr (dups, wr)"
    by (auto simp: mem_Write_def split: sum.splits prod.splits)
  then have sd: "sanitize_deletes ?rs ?o 0 deletes = Inr dups"
    by (auto simp: sanitizeTuplesWriteDelete_def)
  obtain rs deleted n where d: "Write_deletes mk now deletes dups 0 ?rs = (rs, deleted, n)"
    by (cases "Write_deletes mk now deletes dups 0 ?rs")
  obtain rs' written where w: "Write_writes mk now store n rs writes = (rs', written)"
    by (cases "Write_writes mk now store n rs writes")
  have s': "mb_tuples s' store = rs'" "mb_changes s' store = mb_changes s store @ deleted @ written"
    using assms(2) san d w by (auto simp: mem_Write_def)
  have wf: "\<forall>r \<in> set ?rs. wf_record r" and keys: "distinct (map (key_id \<circ> stored_key) ?rs)"
    using assms(4) by (simp_all add: tuples_ok_def stored_def)
  define P where "P r \<longleftrightarrow> delete_matched r dups 0 deletes" for r
  have ds: "rs = filter (\<lambda>r. \<not> P r) ?rs \<and>
      map (\<lambda>c. ch_operation (cr_change c)) deleted = replicate (length deleted) OpDelete \<and>
      list_all2 (\<lambda>c tr. same_key (ch_tuple (cr_change c)) (stored_key tr)) deleted (filter P ?rs)"
    by (rule Write_deletes_spec [OF d]) (simp add: P_def)
  let ?kept = "map stored_key (filter (\<lambda>r. \<not> P r) ?rs)"
  have gone: "replay (stored s store) (map cr_change deleted) = ?kept"
  proof -
    have "(\<exists>tr \<in> set (filter P ?rs). same_key (stored_key r) (stored_key tr)) \<longleftrightarrow> P r" if r: "r \<in> set ?rs" for r
    proof
      assume "\<exists>tr \<in> set (filter P ?rs). same_key (stored_key r) (stored_key tr)"
      then obtain tr where tr: "tr \<in> set ?rs" "P tr" "key_id (stored_key r) = key_id (stored_key tr)"
        by (auto simp: same_key_def key_id_def)
      with keys r have "r = tr" by (auto simp: distinct_map inj_on_def)
      with tr(2) show "P r" by simp
    qed (use r in \<open>auto simp: same_key_def\<close>)
    then have "filter (\<lambda>r. \<not> (\<exists>tr \<in> set (filter P ?rs). same_key (stored_key r) (stored_key tr))) ?rs =
        filter (\<lambda>r. \<not> P r) ?rs" by (intro filter_cong) auto
    moreover have "replay (stored s store) (map cr_change deleted) = map stored_key
        (filter (\<lambda>r. \<not> (\<exists>tr \<in> set (filter P ?rs). same_key (stored_key r) (stored_key tr))) ?rs)"
      using ds by (simp only: replay_deletes [where trs = "filter P ?rs"] stored_def filter_map o_def)
    ultimately show ?thesis by simp
  qed
  have ws: "map stored_key rs' = ?kept @ fresh_writes ?kept writes \<and> (\<forall>r \<in> set rs'. wf_record r) \<and>
      replay ?kept (map cr_change written) = ?kept @ fresh_writes ?kept writes"
    using Write_writes_spec [OF w, of ?kept] assms(3) wf ds by simp
  then have st: "stored s' store = (let kept = ?kept in kept @ fresh_writes kept writes)"
    by (simp add: stored_def s' Let_def)
  have "distinct (map key_id ?kept)"
    using keys by (simp add: distinct_map_filter)
  from fresh_writes_distinct [OF this] have "tuples_ok s' store"
    using ws gone assms(4) unfolding tuples_ok_def st by (simp add: s' log_of_def Let_def)
  with st show thesis unfolding P_def by (rule that [OF sd])
qed

lemma Write_succeeded:
  assumes "fst (mem_Write ctx_string mk now store deletes writes opts s) = Inr ()"
    and "snd (mem_Write ctx_string mk now store deletes writes opts s) = s'"
    and "\<forall>k \<in> set (deletes @ writes). full_key k" and "tuples_ok s store"
  shows "stored s' store = write_result deletes writes (stored s store)"
proof -
  have "\<forall>k \<in> set writes. full_key k" using assms(3) by simp
  from Write_kept [OF assms(1,2) this assms(4)] obtain dups where
      sd: "sanitize_deletes (mb_tuples s store) (NewTupleWriteOptions opts) 0 deletes = Inr dups"
    and st: "stored s' store = (let kept = map stored_key (filter (\<lambda>r. \<not> delete_matched r dups 0 deletes) (mb_tuples s store))
      in kept @ fresh_writes kept writes)" .
  have "\<forall>r \<in> set (mb_tuples s store). delete_matched r dups 0 deletes \<longleftrightarrow> is_deleted deletes (stored_key r)"
    using delete_matched_sanitized [OF sd] assms(3,4) by (simp add: tuples_ok_def)
  then have "filter (\<lambda>r. \<not> delete_matched r dups 0 deletes) (mb_tuples s store) =
      filter (\<lambda>r. \<not> is_deleted deletes (stored_key r)) (mb_tuples s store)" by (intro filter_cong) auto
  then show ?thesis
    unfolding st write_result_def by (simp add: stored_def filter_map o_def)
qed

lemma Write_tuples_ok:
  assumes "\<forall>k \<in> set writes. full_key k" and "tuples_ok s store'"
  shows "tuples_ok (snd (mem_Write ctx_string mk now store deletes writes opts s)) store'"
proof (cases "store' = store")
  case True
  show ?thesis
  proof (cases "is_ok (fst (mem_Write ctx_string mk now store deletes writes opts s))")
    case ok: True
    with True have "fst (mem_Write ctx_string mk now store deletes writes opts s) = Inr ()" by (simp add: is_ok_iff)
    from Write_kept [OF this refl assms(1)] assms(2) True show ?thesis by blast
  next
    case False
    with assms(2) show ?thesis by (simp add: Write_failed)
  qed
next
  case False
  with assms(2) show ?thesis by (simp add: tuples_ok_def stored_def log_of_def Write_other)
qed

section \<open>The states of the backend\<close>

text \<open>A step is one method call that changes the backend; \<open>Write\<close> writes full keys, and may delete any.\<close>

inductive mem_step :: "(pb_struct option \<Rightarrow> string) \<Rightarrow> 'a memory_backend \<Rightarrow> 'a memory_backend \<Rightarrow> bool"
  for ctx_string where
  step_write: "\<forall>k \<in> set writes. full_key k \<Longrightarrow>
     mem_step ctx_string s (snd (mem_Write ctx_string mk now store deletes writes opts s))"
| step_model: "mem_step ctx_string s (mem_WriteAuthorizationModel store model s)"
| step_create: "mem_step ctx_string s (snd (mem_CreateStore now st s))"
| step_delete: "mem_step ctx_string s (mem_DeleteStore ident s)"
| step_assertions: "mem_step ctx_string s (mem_WriteAssertions store modelID assertions s)"

inductive mem_reachable :: "(pb_struct option \<Rightarrow> string) \<Rightarrow> 'a memory_backend \<Rightarrow> bool"
  for ctx_string where
  reach_new: "mem_reachable ctx_string
     (New [WithMaxTuplesPerWrite n, WithMaxTypesPerAuthorizationModel m])"
| reach_step: "mem_reachable ctx_string s \<Longrightarrow> mem_step ctx_string s s' \<Longrightarrow> mem_reachable ctx_string s'"

definition models_ok :: "(string \<times> model_entry) list \<Rightarrow> bool" where
  "models_ok tm \<longleftrightarrow> distinct (map fst tm) \<and> (\<forall>(ident, e) \<in> set tm. ident = am_id (me_model e)) \<and>
     (\<exists>!p. p \<in> set tm \<and> me_latest (snd p))"

definition stores_ok :: "(string \<times> fga_store) list \<Rightarrow> bool" where
  "stores_ok sts \<longleftrightarrow> distinct (map fst sts) \<and> (\<forall>(ident, st) \<in> set sts. ident = store_id st)"

definition backend_ok :: "'a memory_backend \<Rightarrow> bool" where
  "backend_ok s \<longleftrightarrow> (\<forall>store. tuples_ok s store) \<and>
     (\<forall>store tm. mb_models s store = Some tm \<longrightarrow> models_ok tm) \<and> stores_ok (mb_stores s)"

lemma set_AList_update:
  "distinct (map fst xs) \<Longrightarrow> set (AList.update k v xs) = insert (k, v) {p \<in> set xs. fst p \<noteq> k}"
  by (induction xs) (auto simp: image_iff)

lemma models_ok_update:
  assumes "distinct (map fst tm)" and "\<forall>(ident, e) \<in> set tm. ident = am_id (me_model e)"
  shows "models_ok (AList.update (am_id model) \<lparr>me_model = model, me_latest = True\<rparr>
    (map (\<lambda>(ident, entry). (ident, entry\<lparr>me_latest := False\<rparr>)) tm))"
proof -
  let ?tm = "map (\<lambda>(ident, entry). (ident, entry\<lparr>me_latest := False\<rparr>)) tm"
  let ?new = "AList.update (am_id model) \<lparr>me_model = model, me_latest = True\<rparr> ?tm"
  have fst: "map fst ?tm = map fst tm" by (induction tm) auto
  have set: "set ?new = insert (am_id model, \<lparr>me_model = model, me_latest = True\<rparr>)
      {p \<in> set ?tm. fst p \<noteq> am_id model}"
    by (rule set_AList_update) (simp only: fst assms(1))
  have "distinct (map fst ?tm)" by (simp only: fst assms(1))
  then have "distinct (map fst ?new)" by (rule distinct_update)
  moreover have "\<forall>(ident, e) \<in> set ?new. ident = am_id (me_model e)"
    using assms(2) unfolding set by fastforce
  moreover have "\<exists>!p. p \<in> set ?new \<and> me_latest (snd p)"
    unfolding set by (auto intro!: ex1I [of _ "(am_id model, \<lparr>me_model = model, me_latest = True\<rparr>)"])
  ultimately show ?thesis by (simp add: models_ok_def)
qed

lemma backend_ok_New: "backend_ok (New [WithMaxTuplesPerWrite n, WithMaxTypesPerAuthorizationModel m])"
  by (simp add: backend_ok_def New_def WithMaxTuplesPerWrite_def WithMaxTypesPerAuthorizationModel_def
      tuples_ok_def stored_def log_of_def stores_ok_def)

lemma backend_ok_step: "mem_step ctx_string s s' \<Longrightarrow> backend_ok s \<Longrightarrow> backend_ok s'"
proof (induction rule: mem_step.induct)
  case (step_write deletes writes s mk now store opts)
  then show ?case by (simp add: backend_ok_def Write_tuples_ok Write_others)
next
  case (step_model s store model)
  have "models_ok (AList.update (am_id model) \<lparr>me_model = model, me_latest = True\<rparr>
      (map (\<lambda>(ident, entry). (ident, entry\<lparr>me_latest := False\<rparr>))
        (case mb_models s store of None \<Rightarrow> [] | Some tm \<Rightarrow> tm)))"
    using step_model by (intro models_ok_update; cases "mb_models s store")
      (auto simp: backend_ok_def models_ok_def)
  with step_model show ?case
    by (auto simp: backend_ok_def mem_WriteAuthorizationModel_def Let_def tuples_ok_def stored_def
        log_of_def)
next
  case (step_create s now st)
  then show ?case
    by (auto simp: backend_ok_def mem_CreateStore_def Let_def tuples_ok_def stored_def log_of_def
        stores_ok_def distinct_update set_AList_update split: option.splits)
next
  case (step_delete s ident)
  then show ?case
    by (auto simp: backend_ok_def mem_DeleteStore_def tuples_ok_def stored_def log_of_def
        stores_ok_def AList.delete_eq distinct_map_filter)
next
  case (step_assertions s store modelID assertions)
  then show ?case
    by (simp add: backend_ok_def mem_WriteAssertions_def tuples_ok_def stored_def log_of_def)
qed

lemma backend_ok_reachable: "mem_reachable ctx_string s \<Longrightarrow> backend_ok s"
  by (induction rule: mem_reachable.induct) (auto intro: backend_ok_New backend_ok_step)

lemma find_latest_spec:
  assumes "models_ok tm"
  obtains ident e where "(ident, e) \<in> set tm" and "me_latest e" and "find_latest tm = Some (me_model e)"
proof -
  have "\<exists>p \<in> set tm. me_latest (snd p) \<Longrightarrow>
      \<exists>p \<in> set tm. me_latest (snd p) \<and> find_latest tm = Some (me_model (snd p))"
    by (induction tm rule: find_latest.induct) auto
  with assms that show thesis unfolding models_ok_def by fastforce
qed

section \<open>Pages\<close>

text \<open>A client that follows the tokens of \<open>ReadPage\<close>, for at most \<open>n\<close> pages.\<close>

fun follow_pages :: "nat \<Rightarrow> 'a memory_backend \<Rightarrow> string \<Rightarrow> read_filter \<Rightarrow> int \<Rightarrow> string \<Rightarrow>
    pb_tuple list option" where
  "follow_pages 0 s store flt psize token = None"
| "follow_pages (Suc n) s store flt psize token =
     (case mem_ReadPage None s store flt \<lparr>pg_size = psize, pg_from = token\<rparr> of
        Some (Inr (ts, token')) \<Rightarrow>
          if token' = [] then Some ts
          else map_option (\<lambda>rest. ts @ rest) (follow_pages n s store flt psize token')
      | _ \<Rightarrow> None)"

lemma ReadPage_spec:
  assumes "0 < psize" and "k \<le> length (read_matches s store flt)"
    and "int (length (read_matches s store flt)) < 2 ^ 63"
    and "token = [] \<and> k = 0 \<or> token = Itoa (int k)"
  shows "mem_ReadPage None s store flt \<lparr>pg_size = psize, pg_from = token\<rparr> =
    Some (Inr (map AsTuple (take (nat psize) (drop k (read_matches s store flt))),
               if k + nat psize < length (read_matches s store flt) then Itoa (int (k + nat psize)) else []))"
proof -
  have tok: "(if token = [] then Some 0 else Atoi token) = Some (int k)"
    using assms(2,3,4) by auto
  show ?thesis
    using assms(1,2,3)
    by (auto simp: mem_ReadPage_def mem_read_def Let_def tok slice_from_def slice_to_def)
qed

lemma follow_pages_spec:
  assumes "0 < psize" and "int (length (read_matches s store flt)) < 2 ^ 63"
    and "k \<le> length (read_matches s store flt)" and "length (read_matches s store flt) - k < n"
    and "token = [] \<and> k = 0 \<or> token = Itoa (int k)"
  shows "follow_pages n s store flt psize token = Some (map AsTuple (drop k (read_matches s store flt)))"
  using assms(3,4,5)
proof (induction n arbitrary: k token)
  case (Suc n)
  let ?ms = "read_matches s store flt" and ?k = "k + nat psize"
  show ?case
  proof (cases "?k < length ?ms")
    case True
    have "follow_pages n s store flt psize (Itoa (int ?k)) = Some (map AsTuple (drop ?k ?ms))"
      by (rule Suc.IH) (use True Suc.prems assms(1) in auto)
    moreover have "drop k ?ms = take (nat psize) (drop k ?ms) @ drop ?k ?ms"
      by (metis append_take_drop_id drop_drop add.commute)
    then have "map AsTuple (drop k ?ms) =
        map AsTuple (take (nat psize) (drop k ?ms)) @ map AsTuple (drop ?k ?ms)"
      by (metis map_append)
    ultimately show ?thesis
      using ReadPage_spec [OF assms(1) Suc.prems(1) assms(2) Suc.prems(3)] True by simp
  next
    case False
    then have "take (nat psize) (drop k ?ms) = drop k ?ms" by simp
    then show ?thesis
      using ReadPage_spec [OF assms(1) Suc.prems(1) assms(2) Suc.prems(3)] False by simp
  qed
qed simp

section \<open>Pages of the changelog\<close>

text \<open>The changes a reader may see: of the type, before the first that is after the horizon.\<close>

definition visible_changes :: "string \<Rightarrow> int \<Rightarrow> tuple_change_rec list \<Rightarrow> tuple_change_rec list" where
  "visible_changes objectType horizon cs =
     takeWhile (\<lambda>c. int (ch_timestamp (cr_change c)) \<le> horizon)
       (filter (\<lambda>c. objectType = [] \<or> HasPrefix (tk_object (ch_tuple (cr_change c))) (objectType @ '':'')) cs)"

lemma changes_loop_visible:
  "changes_loop objectType horizon from sortDesc cs =
     filter (\<lambda>c. \<not> (case from of None \<Rightarrow> False
                  | Some u \<Rightarrow> (\<not> sortDesc \<and> cr_ulid c \<le> u) \<or> (sortDesc \<and> cr_ulid c \<ge> u)))
       (visible_changes objectType horizon cs)"
  by (induction cs) (auto simp: visible_changes_def)

lemma filter_sorted_after:
  assumes "sorted_wrt (<) (map cr_ulid cs)" and "k < length cs"
  shows "filter (\<lambda>c. \<not> cr_ulid c \<le> cr_ulid (cs ! k)) cs = drop (Suc k) cs"
    and "filter (\<lambda>c. \<not> cr_ulid (cs ! k) \<le> cr_ulid c) cs = take k cs"
  using assms
proof (induction cs arbitrary: k)
  case (Cons c cs)
  { case 1
    show ?case
    proof (cases k)
      case 0
      with 1 show ?thesis by (auto simp: filter_id_conv)
    next
      case (Suc k')
      then have "cr_ulid c < cr_ulid (cs ! k')" using 1 by auto
      from less_imp_le [OF this] Suc 1 Cons.IH(1) [of k'] show ?thesis by (simp add: less_imp_le)
    qed
  next
    case 2
    show ?case
    proof (cases k)
      case 0
      with 2 show ?thesis by (auto simp: filter_empty_conv)
    next
      case (Suc k')
      then have "cr_ulid c < cr_ulid (cs ! k')" using 2 by auto
      then have "\<not> cr_ulid (cs ! k') \<le> cr_ulid c" by simp
      moreover have "filter (\<lambda>c. \<not> cr_ulid (cs ! k') \<le> cr_ulid c) cs = take k' cs"
        by (rule Cons.IH(2)) (use 2 Suc in auto)
      ultimately show ?thesis using Suc by (simp del: not_le)
    qed
  }
qed simp_all

text \<open>The ULIDs that \<open>Write\<close> logs are in the order it makes them.\<close>

lemma Write_deletes_ulids:
  "Write_deletes mk now deletes dups n trs = (records, changes, n') \<Longrightarrow>
     map cr_ulid changes = map mk [n..<n'] \<and> n \<le> n'"
proof (induction trs arbitrary: n records changes n')
  case (Cons tr trs)
  then show ?case
    by (fastforce simp: Let_def upt_conv_Cons split: if_splits prod.splits)
qed simp

lemma Write_writes_ulids:
  assumes "strict_mono mk" and "Write_writes mk now store n records writes = (records', changes)"
  shows "sorted_wrt (<) (map cr_ulid changes) \<and> (\<forall>c \<in> set changes. mk n < cr_ulid c)"
  using assms(2)
proof (induction writes arbitrary: n records records' changes)
  case (Cons w ws)
  have mono: "mk n < mk (Suc n)" "mk n < mk (n + 2)" "mk (Suc n) < mk (n + 2)"
    using assms(1) by (simp_all add: strict_mono_def)
  show ?case
  proof (cases "find_record records w = None")
    case True
    with Cons.prems obtain cs where
        w: "Write_writes mk now store (n + 2) (records @ [new_record mk now store n w]) ws = (records', cs)"
      and c: "changes = write_change mk now (Suc n) w # cs"
      by (auto split: prod.splits)
    have "cr_ulid (write_change mk now (Suc n) w) = mk (Suc n)"
      by (simp add: write_change_def split: prod.split)
    with Cons.IH [OF w] mono show ?thesis by (auto simp: c intro: less_trans)
  next
    case False
    with Cons show ?thesis by simp
  qed
qed simp

lemma sorted_three:
  assumes "sorted_wrt (<) (a :: nat list)" and "sorted_wrt (<) b" and "sorted_wrt (<) c"
    and "\<forall>x \<in> set a. \<forall>y \<in> set b \<union> set c. x < y" and "\<forall>x \<in> set b. \<forall>y \<in> set c. x < y"
  shows "sorted_wrt (<) (a @ b @ c)"
  using assms by (simp add: sorted_wrt_append)

lemma Write_ulids_increase:
  assumes "sorted_wrt (<) (map cr_ulid (mb_changes s store))" and "strict_mono mk"
    and "\<forall>c \<in> set (mb_changes s store). cr_ulid c < mk 0"
  shows "sorted_wrt (<) (map cr_ulid
    (mb_changes (snd (mem_Write ctx_string mk now store deletes writes opts s)) store))"
proof (cases "sanitizeTuplesWriteDelete ctx_string (mb_tuples s store) deletes writes
    (NewTupleWriteOptions opts)")
  case (Inr dw)
  obtain dups dupw where dw: "dw = (dups, dupw)" by (cases dw)
  obtain rs deleted n where d: "Write_deletes mk now deletes dups 0 (mb_tuples s store) = (rs, deleted, n)"
    by (cases "Write_deletes mk now deletes dups 0 (mb_tuples s store)")
  obtain rs' written where w: "Write_writes mk now store n rs writes = (rs', written)"
    by (cases "Write_writes mk now store n rs writes")
  have log: "mb_changes (snd (mem_Write ctx_string mk now store deletes writes opts s)) store =
      mb_changes s store @ deleted @ written"
    using Inr dw d w by (simp add: mem_Write_def)
  have del: "map cr_ulid deleted = map mk [0..<n]" using Write_deletes_ulids [OF d] by simp
  have le: "mk 0 \<le> mk i" for i using assms(2) by (simp add: strict_mono_less_eq)
  have lt: "i < n \<Longrightarrow> mk i < mk n" for i using assms(2) by (simp add: strict_mono_def)
  have old: "u < mk i" if "u \<in> cr_ulid ` set (mb_changes s store)" for u i
    using that assms(3) le less_le_trans by fastforce
  have new: "mk n < u" if "u \<in> cr_ulid ` set written" for u
    using Write_writes_ulids [OF assms(2) w] that by auto
  have "sorted_wrt (<) (map mk [0..<n])"
    using assms(2) by (simp add: sorted_wrt_map strict_mono_def sorted_wrt_mono_rel [OF _ sorted_wrt_upt])
  then have "sorted_wrt (<) (map cr_ulid (mb_changes s store) @ map mk [0..<n] @ map cr_ulid written)"
  proof (rule sorted_three [OF assms(1)])
    show "sorted_wrt (<) (map cr_ulid written)" using Write_writes_ulids [OF assms(2) w] by simp
    show "\<forall>x \<in> set (map cr_ulid (mb_changes s store)). \<forall>y \<in> set (map mk [0..<n]) \<union> set (map cr_ulid written). x < y"
    proof (intro ballI)
      fix x y assume x: "x \<in> set (map cr_ulid (mb_changes s store))"
        and y: "y \<in> set (map mk [0..<n]) \<union> set (map cr_ulid written)"
      from y consider i where "y = mk i" | "y \<in> cr_ulid ` set written" by auto
      then show "x < y"
        using old x new [of y] by cases (auto intro: less_trans)
    qed
    show "\<forall>x \<in> set (map mk [0..<n]). \<forall>y \<in> set (map cr_ulid written). x < y"
    proof (intro ballI)
      fix x y assume "x \<in> set (map mk [0..<n])" and "y \<in> set (map cr_ulid written)"
      then obtain i where "x = mk i" "i < n" and "mk n < y" using new by auto
      with lt [of i] show "x < y" by simp
    qed
  qed
  then show ?thesis unfolding log map_append del .
qed (simp add: mem_Write_def assms(1))

section \<open>Properties\<close>

definition sample_tuple :: tuple_key where
  "sample_tuple = NewTupleKey ''d:1'' ''r'' ''u:a''"

definition sample_backend :: "unit memory_backend" where
  "sample_backend = snd (mem_Write (\<lambda>_. []) (\<lambda>n. n) 7 ''s'' [] [sample_tuple] []
     (New [WithMaxTuplesPerWrite 10, WithMaxTypesPerAuthorizationModel 10]))"

lemma full_sample [simp]: "full_key sample_tuple"
  by code_simp

lemma reachable_sample: "mem_reachable (\<lambda>_. []) sample_backend"
  unfolding sample_backend_def
  by (rule reach_step [OF reach_new]) (rule step_write, simp)

lemma stored_sample: "stored sample_backend ''s'' = [sample_tuple]"
  by code_simp

text \<open>
  C16: In every state the memory backend can reach, a store holds at most one tuple per object,
  relation and user, a reader who replays the changelog from the start has exactly the stored
  tuples, their conditions included, and a store that has authorization models has exactly one
  that is marked as the latest.
\<close>

theorem memory_invariant:
  assumes "mem_reachable ctx_string s"
  shows "distinct (map key_id (stored s store)) \<and>
    replay [] (log_of s store) = stored s store \<and>
    (case mb_models s store of None \<Rightarrow> True
     | Some tm \<Rightarrow> \<exists>!p. p \<in> set tm \<and> me_latest (snd p))"
  using backend_ok_reachable [OF assms]
  by (auto simp: backend_ok_def tuples_ok_def models_ok_def split: option.split)

theorem memory_invariant_witness:
  "replay [] (log_of sample_backend ''s'') = [sample_tuple]"
  using memory_invariant [OF reachable_sample, of "''s''"] by (simp add: stored_sample)

text \<open>
  C17: \<open>Write\<close> with full keys succeeds exactly when every delete names a stored tuple (or missing
  deletes are ignored) and no write names a stored tuple (or duplicates are ignored and the
  stored tuple has the same condition name and context). A failed write changes nothing. One
  that succeeds removes the deleted tuples, keeps the others in their order, appends the writes
  that are new, each once, and leaves the other stores alone.
\<close>

theorem write_outcome:
  assumes "mem_reachable ctx_string s" and "\<forall>k \<in> set (deletes @ writes). full_key k"
    and "mem_Write ctx_string mk now store deletes writes opts s = (r, s')"
  shows "(is_ok r \<longleftrightarrow>
      (\<forall>d \<in> set deletes. wo_OnMissingDelete (NewTupleWriteOptions opts) = OnMissingDeleteIgnore \<or>
         (\<exists>t \<in> set (stored s store). same_key t d)) \<and>
      (\<forall>w \<in> set writes. \<not> write_conflict ctx_string (NewTupleWriteOptions opts) (mb_tuples s store) w)) \<and>
    (\<not> is_ok r \<longrightarrow> s' = s) \<and>
    (is_ok r \<longrightarrow> stored s' store = write_result deletes writes (stored s store)) \<and>
    (\<forall>store'. store' \<noteq> store \<longrightarrow> stored s' store' = stored s store')"
proof -
  have ok: "tuples_ok s store" using backend_ok_reachable [OF assms(1)] by (simp add: backend_ok_def)
  then have wf: "\<forall>r \<in> set (mb_tuples s store). wf_record r" by (simp add: tuples_ok_def)
  have r: "r = fst (mem_Write ctx_string mk now store deletes writes opts s)"
    and s': "s' = snd (mem_Write ctx_string mk now store deletes writes opts s)" using assms(3) by simp_all
  have find: "find_record (mb_tuples s store) d \<noteq> None \<longleftrightarrow> (\<exists>t \<in> set (stored s store). same_key t d)"
    if "d \<in> set deletes" for d
    using that assms(2) wf find_record_full [of d "mb_tuples s store"] by (simp add: stored_def)
  have "is_ok r \<longrightarrow> stored s' store = write_result deletes writes (stored s store)"
    unfolding r s' using assms(2) ok by (auto simp: is_ok_iff intro: Write_succeeded)
  moreover have "\<forall>store'. store' \<noteq> store \<longrightarrow> stored s' store' = stored s store'"
    unfolding s' by (simp add: stored_def Write_other)
  moreover have "\<not> is_ok r \<longrightarrow> s' = s"
    unfolding r s' by (intro impI) (rule Write_failed)
  moreover have "is_ok r \<longleftrightarrow>
      (\<forall>d \<in> set deletes. wo_OnMissingDelete (NewTupleWriteOptions opts) = OnMissingDeleteIgnore \<or>
         (\<exists>t \<in> set (stored s store). same_key t d)) \<and>
      (\<forall>w \<in> set writes. \<not> write_conflict ctx_string (NewTupleWriteOptions opts) (mb_tuples s store) w)"
    unfolding r Write_ok_iff using find by (simp only: cong: ball_cong)
  ultimately show ?thesis by (intro conjI) assumption+
qed

theorem write_outcome_witness:
  "fst (mem_Write (\<lambda>_. []) (\<lambda>n. n) 8 ''s'' [] [sample_tuple] [] sample_backend) =
      Inl (ErrInvalidWriteInput sample_tuple OpWrite) \<and>
   stored (snd (mem_Write (\<lambda>_. []) (\<lambda>n. n) 8 ''s'' [sample_tuple] [] [] sample_backend)) ''s'' = []"
proof -
  have "is_ok (fst (mem_Write (\<lambda>_. []) (\<lambda>n. n) 8 ''s'' [sample_tuple] [] [] sample_backend))"
    by code_simp
  then have "stored (snd (mem_Write (\<lambda>_. []) (\<lambda>n. n) 8 ''s'' [sample_tuple] [] [] sample_backend)) ''s'' =
      write_result [sample_tuple] [] [sample_tuple]"
    using write_outcome [OF reachable_sample, of "[sample_tuple]" "[]" "\<lambda>n. n" 8 "''s''" "[]"]
    by (cases "mem_Write (\<lambda>_. []) (\<lambda>n. n) 8 ''s'' [sample_tuple] [] [] sample_backend")
      (simp add: stored_sample)
  moreover have "write_result [sample_tuple] [] [sample_tuple] = []" by code_simp
  moreover have "fst (mem_Write (\<lambda>_. []) (\<lambda>n. n) 8 ''s'' [] [sample_tuple] [] sample_backend) =
      Inl (ErrInvalidWriteInput sample_tuple OpWrite)" by code_simp
  ultimately show ?thesis by simp
qed

text \<open>
  C25: A client that follows the continuation tokens of \<open>ReadPage\<close>, with any positive page size,
  ends, and has then read the tuples that the iterator of \<open>Read\<close> yields for the same filter, in
  the same order.
\<close>

theorem pages_are_the_listing:
  assumes "0 < psize" and "int (length (mb_tuples s store)) < 2 ^ 63"
  shows "\<exists>it ts. mem_Read s store flt = Some (Inr it) \<and>
    drain mem_Next None it = Some (ts, ErrIteratorDone) \<and>
    follow_pages (Suc (length (mb_tuples s store))) s store flt psize [] = Some ts"
proof -
  let ?ms = "read_matches s store flt"
  have len: "length ?ms \<le> length (mb_tuples s store)" by (simp add: read_matches_def)
  have "mem_Read s store flt = Some (Inr \<lparr>mi_records = ?ms, mi_token = []\<rparr>)"
    by (simp add: mem_Read_def mem_read_def slice_from_def)
  moreover have "drain mem_Next None \<lparr>mi_records = ?ms, mi_token = []\<rparr> =
      Some (map AsTuple ?ms, ErrIteratorDone)"
    by (simp add: memory_iter.drain_items)
  moreover have "follow_pages (Suc (length (mb_tuples s store))) s store flt psize [] =
      Some (map AsTuple (drop 0 ?ms))"
    by (rule follow_pages_spec) (use assms len in auto)
  ultimately show ?thesis by auto
qed

theorem pages_are_the_listing_witness:
  "\<exists>it ts. mem_Read sample_backend ''s'' \<lparr>rf_Object = [], rf_Relation = [], rf_User = [], rf_Conditions = []\<rparr>
      = Some (Inr it) \<and> drain mem_Next None it = Some (ts, ErrIteratorDone) \<and>
    follow_pages 2 sample_backend ''s'' \<lparr>rf_Object = [], rf_Relation = [], rf_User = [], rf_Conditions = []\<rparr>
      1 [] = Some ts"
proof -
  have "length (mb_tuples sample_backend ''s'') = 1" by code_simp
  then show ?thesis
    using pages_are_the_listing [of 1 sample_backend "''s''"
        "\<lparr>rf_Object = [], rf_Relation = [], rf_User = [], rf_Conditions = []\<rparr>"]
    by (simp add: numeral_2_eq_2)
qed

text \<open>
  C26: \<open>ReadChanges\<close> with the token of a change returns the page that follows that change: going
  up, the changes after it, going down, the ones before it, newest first; the new token is the
  ULID of the last change of the page, and at the end the answer is \<open>ErrNotFound\<close>. So a client
  that follows the tokens sees each visible change exactly once. The ULIDs of the log increase,
  and \<open>ulid.Parse\<close> undoes \<open>ULID.String\<close>.
\<close>

theorem changes_page:
  assumes "sorted_wrt (<) (map cr_ulid (mb_changes s store))"
    and "\<forall>u. ulid_parse (ulid_string u) = Some u" and "\<forall>u. ulid_string u \<noteq> []"
    and "vis = visible_changes (cf_ObjectType flt) (now - cf_HorizonOffset flt) (mb_changes s store)"
    and "k < length vis" and "0 < psize"
    and "rest = (if sortDesc then rev (take k vis) else drop (Suc k) vis)"
  shows "mem_ReadChanges ulid_parse ulid_string now s store flt
      \<lparr>pg_size = psize, pg_from = ulid_string (cr_ulid (vis ! k))\<rparr> sortDesc =
    (if rest = [] then Inl ErrNotFound
     else Inr (map cr_change (take (nat psize) rest),
               ulid_string (cr_ulid (last (take (nat psize) rest)))))"
proof -
  have "sorted_wrt (<) (map cr_ulid vis)"
    using sorted_wrt_filter [of "\<lambda>a b. cr_ulid a < cr_ulid b" "mb_changes s store"] assms(1)
    unfolding assms(4) visible_changes_def sorted_wrt_map
    by (metis (no_types, lifting) sorted_wrt_append takeWhile_dropWhile_id)
  note after = filter_sorted_after [OF this assms(5)]
  let ?all = "changes_loop (cf_ObjectType flt) (now - cf_HorizonOffset flt)
      (Some (cr_ulid (vis ! k))) sortDesc (mb_changes s store)"
  have loop: "?all = (if sortDesc then take k vis else drop (Suc k) vis)"
    using after by (simp add: changes_loop_visible assms(4) [symmetric])
  then have rest: "rest = (if sortDesc then rev ?all else ?all)"
    unfolding assms(7) by (cases sortDesc) simp_all
  then have empty: "?all = [] \<longleftrightarrow> rest = []" by simp
  have len: "length rest = length ?all" by (simp add: rest)
  have take: "take (nat (if int (length ?all) < psize then int (length ?all) else psize)) rest =
      take (nat psize) rest" by (simp add: len)
  show ?thesis
    using assms(2,3,6) take empty len
    by (auto simp: mem_ReadChanges_def Let_def rest [symmetric])
qed

theorem changes_page_witness:
  "mem_ReadChanges (\<lambda>x. Some (length x - 1)) (\<lambda>u. replicate (Suc u) (CHR ''x'')) 9 sample_backend ''s''
     \<lparr>cf_ObjectType = ''d'', cf_HorizonOffset = 0\<rparr>
     \<lparr>pg_size = 5, pg_from = replicate 2 (CHR ''x'')\<rparr> False = Inl ErrNotFound"
proof -
  let ?vis = "visible_changes ''d'' 9 (mb_changes sample_backend ''s'')"
  have vis: "map cr_ulid ?vis = [1]" "map cr_ulid (mb_changes sample_backend ''s'') = [1]" by code_simp+
  then obtain c where c: "?vis = [c]" "cr_ulid c = 1" by auto
  show ?thesis
    using changes_page [of sample_backend "''s''" "\<lambda>x. Some (length x - 1)"
        "\<lambda>u. replicate (Suc u) (CHR ''x'')" ?vis
        "\<lparr>cf_ObjectType = ''d'', cf_HorizonOffset = 0\<rparr>" 9 0 5 "[]" False]
    using vis(2) c by (simp add: numeral_2_eq_2)
qed



text \<open>
  \<open>ReadUsersetTuples\<close> of the memory backend does not look at the conditions of its filter:
  whatever they are, it returns the tuples it returns for the filter without them.
\<close>

theorem usersets_ignore_conditions:
  "mem_ReadUsersetTuples s store (flt\<lparr>uf_Conditions := conditions\<rparr>) = mem_ReadUsersetTuples s store flt"
proof -
  have "usersets_appended (flt\<lparr>uf_Conditions := conditions\<rparr>) t = usersets_appended flt t" for t
    by (cases flt) (simp add: usersets_appended_def)
  then show ?thesis by (simp add: mem_ReadUsersetTuples_def)
qed

end
