(* ===== verification/Check_Reducers.thy ===== *)
theory Check_Reducers
  imports Memory_Store
begin

text \<open>
  The set operators of the check engine, \<open>union\<close>, \<open>intersection\<close> and \<open>exclusion\<close> of
  \<open>internal/graph/check.go\<close>, and \<open>consumeDispatches\<close> of \<open>default_resolver.go\<close>. Each starts its
  handlers concurrently and reads their outcomes from a channel in the order they arrive.

  Concurrency is a schedule: for the node of the evaluation that runs the operator (its address
  in the tree of calls), what the \<open>select\<close> statement sees, one event per iteration. A handler's
  outcome is its result had it not been cancelled; what a cancelled handler does is never seen,
  since only the operator that has returned cancels it. A list of events that runs out is a
  \<open>select\<close> that blocks for ever (\<open>None\<close>).
\<close>

section \<open>Outcomes\<close>

datatype check_err =
    CE_Context "string iter_err"
  | CE_Panic string
  | CE_UnknownSetOperator
  | CE_Operands nat
  | CE_ResolutionDepthExceeded
  | CE_RelationUndefined string string
  | CE_TypeSystem ts_error
  | CE_Store store_err
  | CE_Iterator "string iter_err"

record check_response =
  rsp_Allowed :: bool
  rsp_CycleDetected :: bool

type_synonym outcome = "(check_err, check_response) result"

text \<open>The response is copied, so that a cached one is not shared.\<close>

definition response_clone :: "check_response \<Rightarrow> check_response" where
  "response_clone r =
     \<lparr>rsp_Allowed = rsp_Allowed r, rsp_CycleDetected = rsp_CycleDetected r\<rparr>"

text \<open>A handler that panics becomes an error.\<close>

datatype 'a ran = Returned 'a | Panicked string

definition runHandler :: "outcome ran \<Rightarrow> outcome" where
  "runHandler h = (case h of Returned r \<Rightarrow> r | Panicked msg \<Rightarrow> Inl (CE_Panic msg))"

section \<open>Events\<close>

datatype event = EvDone check_err | EvOutcome outcome | EvClosed

datatype exclusion_event =
    ExDone check_err
  | ExBase outcome
  | ExSub outcome
  | ExBaseClosed
  | ExSubClosed

text \<open>
  \<open>sc_err\<close> is \<open>ctx.Err()\<close> when the operator starts; the other fields give the events from the
  outcomes of the handlers. \<open>sc_end\<close> is \<open>ctx.Err()\<close> when \<open>consumeDispatches\<close> has left its loop.
\<close>

record schedule =
  sc_err :: "nat list \<Rightarrow> check_err option"
  sc_events :: "nat list \<Rightarrow> outcome list \<Rightarrow> event list"
  sc_exclusion :: "nat list \<Rightarrow> outcome \<Rightarrow> outcome \<Rightarrow> exclusion_event list"
  sc_end :: "nat list \<Rightarrow> check_err option"

section \<open>The loops\<close>

fun union_loop :: "nat \<Rightarrow> event list \<Rightarrow> check_err option \<Rightarrow> bool \<Rightarrow> outcome option" where
  "union_loop 0 evs finalErr cycle =
     Some (case finalErr of Some e \<Rightarrow> Inl e
           | None \<Rightarrow> Inr \<lparr>rsp_Allowed = False, rsp_CycleDetected = cycle\<rparr>)"
| "union_loop (Suc n) [] finalErr cycle = None"
| "union_loop (Suc n) (EvDone e # evs) finalErr cycle = Some (Inl e)"
| "union_loop (Suc n) (EvClosed # evs) finalErr cycle = union_loop n evs finalErr cycle"
| "union_loop (Suc n) (EvOutcome (Inl e) # evs) finalErr cycle = union_loop n evs (Some e) cycle"
| "union_loop (Suc n) (EvOutcome (Inr resp) # evs) finalErr cycle =
     (let cycle' = (if rsp_CycleDetected resp then True else cycle) in
      if rsp_Allowed resp then Some (Inr resp) else union_loop n evs finalErr cycle')"

fun intersection_loop :: "nat \<Rightarrow> event list \<Rightarrow> check_err option \<Rightarrow> outcome option" where
  "intersection_loop 0 evs finalErr =
     Some (case finalErr of Some e \<Rightarrow> Inl e
           | None \<Rightarrow> Inr \<lparr>rsp_Allowed = True, rsp_CycleDetected = False\<rparr>)"
| "intersection_loop (Suc n) [] finalErr = None"
| "intersection_loop (Suc n) (EvDone e # evs) finalErr = Some (Inl e)"
| "intersection_loop (Suc n) (EvClosed # evs) finalErr = intersection_loop n evs finalErr"
| "intersection_loop (Suc n) (EvOutcome (Inl e) # evs) finalErr =
     intersection_loop n evs (if finalErr = None then Some e else finalErr)"
| "intersection_loop (Suc n) (EvOutcome (Inr resp) # evs) finalErr =
     (if rsp_CycleDetected resp \<or> \<not> rsp_Allowed resp then
        Some (Inr \<lparr>rsp_Allowed = False, rsp_CycleDetected = rsp_CycleDetected resp\<rparr>)
      else intersection_loop n evs finalErr)"

text \<open>
  The loop of \<open>exclusion\<close>, until two results are received. A closed channel is set to nil, which
  takes its case out of the \<open>select\<close>.
\<close>

fun exclusion_loop :: "nat \<Rightarrow> exclusion_event list \<Rightarrow> check_err option \<Rightarrow> check_err option \<Rightarrow>
    outcome option" where
  "exclusion_loop 0 evs baseErr subErr =
     Some (case baseErr of Some e \<Rightarrow> Inl e
           | None \<Rightarrow> (case subErr of Some e \<Rightarrow> Inl e
               | None \<Rightarrow> Inr \<lparr>rsp_Allowed = True, rsp_CycleDetected = False\<rparr>))"
| "exclusion_loop (Suc n) [] baseErr subErr = None"
| "exclusion_loop (Suc n) (ExDone e # evs) baseErr subErr = Some (Inl e)"
| "exclusion_loop (Suc n) (ExBaseClosed # evs) baseErr subErr = exclusion_loop (Suc n) evs baseErr subErr"
| "exclusion_loop (Suc n) (ExSubClosed # evs) baseErr subErr = exclusion_loop (Suc n) evs baseErr subErr"
| "exclusion_loop (Suc n) (ExBase (Inl e) # evs) baseErr subErr = exclusion_loop n evs (Some e) subErr"
| "exclusion_loop (Suc n) (ExBase (Inr resp) # evs) baseErr subErr =
     (if rsp_CycleDetected resp \<or> \<not> rsp_Allowed resp then
        Some (Inr \<lparr>rsp_Allowed = False, rsp_CycleDetected = rsp_CycleDetected resp\<rparr>)
      else exclusion_loop n evs baseErr subErr)"
| "exclusion_loop (Suc n) (ExSub (Inl e) # evs) baseErr subErr = exclusion_loop n evs baseErr (Some e)"
| "exclusion_loop (Suc n) (ExSub (Inr resp) # evs) baseErr subErr =
     (if rsp_CycleDetected resp \<or> rsp_Allowed resp then
        Some (Inr \<lparr>rsp_Allowed = False, rsp_CycleDetected = rsp_CycleDetected resp\<rparr>)
      else exclusion_loop n evs baseErr subErr)"

text \<open>The consumer of dispatched checks reads until the channel is closed: (finalErr, finalResult).\<close>

fun consume_loop :: "event list \<Rightarrow> check_err option \<Rightarrow> check_response \<Rightarrow>
    (check_err option \<times> check_response) option" where
  "consume_loop [] finalErr finalResult = None"
| "consume_loop (EvDone e # evs) finalErr finalResult = Some (finalErr, finalResult)"
| "consume_loop (EvClosed # evs) finalErr finalResult = Some (finalErr, finalResult)"
| "consume_loop (EvOutcome (Inl e) # evs) finalErr finalResult = consume_loop evs (Some e) finalResult"
| "consume_loop (EvOutcome (Inr resp) # evs) finalErr finalResult =
     (let finalResult = (if rsp_CycleDetected resp then finalResult\<lparr>rsp_CycleDetected := True\<rparr>
                         else finalResult) in
      if rsp_Allowed resp then Some (None, resp) else consume_loop evs finalErr finalResult)"

section \<open>The operators\<close>

definition check_union :: "schedule \<Rightarrow> nat list \<Rightarrow> outcome ran list \<Rightarrow> outcome option" where
  "check_union \<sigma> p handlers =
     (case sc_err \<sigma> p of Some e \<Rightarrow> Some (Inl e)
      | None \<Rightarrow> union_loop (length handlers) (sc_events \<sigma> p (map runHandler handlers)) None False)"

definition check_intersection :: "schedule \<Rightarrow> nat list \<Rightarrow> outcome ran list \<Rightarrow> outcome option" where
  "check_intersection \<sigma> p handlers =
     (if length handlers < 2 then Some (Inl (CE_Operands (length handlers)))
      else case sc_err \<sigma> p of Some e \<Rightarrow> Some (Inl e)
      | None \<Rightarrow> intersection_loop (length handlers) (sc_events \<sigma> p (map runHandler handlers)) None)"

definition check_exclusion :: "schedule \<Rightarrow> nat list \<Rightarrow> outcome ran list \<Rightarrow> outcome option" where
  "check_exclusion \<sigma> p handlers =
     (case handlers of [base, sub] \<Rightarrow>
        (case sc_err \<sigma> p of Some e \<Rightarrow> Some (Inl e)
         | None \<Rightarrow> exclusion_loop 2 (sc_exclusion \<sigma> p (runHandler base) (runHandler sub)) None None)
      | _ \<Rightarrow> Some (Inl (CE_Operands (length handlers))))"

definition consumeDispatches :: "schedule \<Rightarrow> nat list \<Rightarrow> outcome list \<Rightarrow> outcome option" where
  "consumeDispatches \<sigma> p outcomes =
     (case consume_loop (sc_events \<sigma> p outcomes @ [EvClosed]) None
             \<lparr>rsp_Allowed = False, rsp_CycleDetected = False\<rparr> of
        None \<Rightarrow> None
      | Some (finalErr, finalResult) \<Rightarrow>
         (let finalErr = (case sc_end \<sigma> p of Some e \<Rightarrow> Some e | None \<Rightarrow> finalErr) in
          Some (case finalErr of Some e \<Rightarrow> Inl e | None \<Rightarrow> Inr finalResult)))"

section \<open>Live schedules\<close>

text \<open>
  While the request is not cancelled every outcome arrives, in some order, and nothing else is
  seen; the channels of \<open>exclusion\<close> may be seen closed after their outcome. \<open>cancelled_events\<close> are
  the events that a \<open>select\<close> may see when the context is cancelled while the operator runs: some
  of the outcomes, the channel closed, or the context done.
\<close>

definition live_exclusion :: "exclusion_event list \<Rightarrow> outcome \<Rightarrow> outcome \<Rightarrow> bool" where
  "live_exclusion evs base sub \<longleftrightarrow>
     (\<exists>xs ys zs. set xs \<union> set ys \<union> set zs \<subseteq> {ExBaseClosed, ExSubClosed} \<and>
        (evs = xs @ [ExBase base] @ ys @ [ExSub sub] @ zs \<or>
         evs = xs @ [ExSub sub] @ ys @ [ExBase base] @ zs))"

definition live :: "schedule \<Rightarrow> bool" where
  "live \<sigma> \<longleftrightarrow> (\<forall>p. sc_err \<sigma> p = None \<and> sc_end \<sigma> p = None) \<and>
     (\<forall>p outs. mset (sc_events \<sigma> p outs) = mset (map EvOutcome outs)) \<and>
     (\<forall>p base sub. live_exclusion (sc_exclusion \<sigma> p base sub) base sub)"

definition in_order :: schedule where
  "in_order = \<lparr>sc_err = \<lambda>_. None, sc_events = \<lambda>_ outs. map EvOutcome outs,
     sc_exclusion = \<lambda>_ base sub. [ExBase base, ExSub sub], sc_end = \<lambda>_. None\<rparr>"

definition cancelled_events :: "outcome list \<Rightarrow> event list \<Rightarrow> bool" where
  "cancelled_events outs evs \<longleftrightarrow> length evs = length outs \<and>
     (\<exists>seen n. mset seen \<subseteq># mset outs \<and> evs = map EvOutcome seen @ replicate n EvClosed)"

lemma live_in_order: "live in_order"
proof -
  have "live_exclusion [ExBase b, ExSub s] b s" for b s
    unfolding live_exclusion_def by (intro exI [of _ "[]"]) simp
  then show ?thesis by (simp add: live_def in_order_def)
qed

definition allowing :: "outcome \<Rightarrow> bool" where
  "allowing out \<longleftrightarrow> (\<exists>resp. out = Inr resp \<and> rsp_Allowed resp)"

definition cyclic :: "outcome \<Rightarrow> bool" where
  "cyclic out \<longleftrightarrow> (\<exists>resp. out = Inr resp \<and> rsp_CycleDetected resp)"

lemma allowing_simps [simp]: "allowing (Inl e) = False" "allowing (Inr resp) = rsp_Allowed resp"
  and cyclic_simps [simp]: "cyclic (Inl e) = False" "cyclic (Inr resp) = rsp_CycleDetected resp"
  by (auto simp: allowing_def cyclic_def)

text \<open>
  What the operators return for a set of outcomes that have all arrived. In the lemmas on the
  loops, \<open>T\<close> are the outcomes that have been seen before.
\<close>

definition union_verdict :: "outcome set \<Rightarrow> outcome \<Rightarrow> bool" where
  "union_verdict S out \<longleftrightarrow>
     (if \<exists>x \<in> S. allowing x then out \<in> S \<and> allowing out
      else if \<exists>e. Inl e \<in> S then (\<exists>e. out = Inl e)
      else out = Inr \<lparr>rsp_Allowed = False, rsp_CycleDetected = (\<exists>x \<in> S. cyclic x)\<rparr>)"

definition refusing :: "outcome \<Rightarrow> bool" where
  "refusing out \<longleftrightarrow> (\<exists>resp. out = Inr resp \<and> (rsp_CycleDetected resp \<or> \<not> rsp_Allowed resp))"

definition intersection_verdict :: "outcome set \<Rightarrow> outcome \<Rightarrow> bool" where
  "intersection_verdict S out \<longleftrightarrow>
     (if \<exists>x \<in> S. refusing x then
        (\<exists>x \<in> S. refusing x \<and> out = Inr \<lparr>rsp_Allowed = False, rsp_CycleDetected = cyclic x\<rparr>)
      else if \<exists>e. Inl e \<in> S then (\<exists>e. out = Inl e)
      else out = Inr \<lparr>rsp_Allowed = True, rsp_CycleDetected = False\<rparr>)"

lemma refusing_simps [simp]: "refusing (Inl e) = False"
  "refusing (Inr resp) \<longleftrightarrow> rsp_CycleDetected resp \<or> \<not> rsp_Allowed resp"
  by (auto simp: refusing_def)

lemma union_loop_outcomes:
  assumes "finalErr \<noteq> None \<longleftrightarrow> (\<exists>e. Inl e \<in> T)" and "cycle \<longleftrightarrow> (\<exists>x \<in> T. cyclic x)"
    and "\<forall>x \<in> T. \<not> allowing x"
  shows "\<exists>out. union_loop (length outs) (map EvOutcome outs) finalErr cycle = Some out \<and>
    union_verdict (T \<union> set outs) out"
  using assms
proof (induction outs arbitrary: finalErr cycle T)
  case Nil
  then show ?case by (cases finalErr) (auto simp: union_verdict_def)
next
  case (Cons x outs)
  have T: "T \<union> set (x # outs) = insert x T \<union> set outs" by auto
  show ?case
  proof (cases "allowing x")
    case True
    then obtain resp where "x = Inr resp" "rsp_Allowed resp" by (auto simp: allowing_def)
    then show ?thesis by (auto simp: union_verdict_def)
  next
    case False
    have "\<exists>finalErr' cycle'. union_loop (length (x # outs)) (map EvOutcome (x # outs)) finalErr cycle =
        union_loop (length outs) (map EvOutcome outs) finalErr' cycle' \<and>
        (finalErr' \<noteq> None \<longleftrightarrow> (\<exists>e. Inl e \<in> insert x T)) \<and> (cycle' \<longleftrightarrow> (\<exists>x \<in> insert x T. cyclic x))"
      using Cons.prems False by (cases x) (auto simp: Let_def)
    with Cons.IH [of _ "insert x T"] Cons.prems(3) False show ?thesis unfolding T by force
  qed
qed

lemma intersection_loop_outcomes:
  assumes "finalErr \<noteq> None \<longleftrightarrow> (\<exists>e. Inl e \<in> T)" and "\<forall>x \<in> T. \<not> refusing x"
  shows "\<exists>out. intersection_loop (length outs) (map EvOutcome outs) finalErr = Some out \<and>
    intersection_verdict (T \<union> set outs) out"
  using assms
proof (induction outs arbitrary: finalErr T)
  case Nil
  then show ?case by (cases finalErr) (auto simp: intersection_verdict_def)
next
  case (Cons x outs)
  have T: "T \<union> set (x # outs) = insert x T \<union> set outs" by auto
  show ?case
  proof (cases "refusing x")
    case True
    then show ?thesis by (cases x) (auto simp: intersection_verdict_def)
  next
    case False
    have "\<exists>finalErr'. intersection_loop (length (x # outs)) (map EvOutcome (x # outs)) finalErr =
        intersection_loop (length outs) (map EvOutcome outs) finalErr' \<and>
        (finalErr' \<noteq> None \<longleftrightarrow> (\<exists>e. Inl e \<in> insert x T))"
      using Cons.prems False by (cases x) auto
    with Cons.IH [of _ "insert x T"] Cons.prems(2) False show ?thesis unfolding T by force
  qed
qed

lemma consume_loop_outcomes:
  assumes "finalErr \<noteq> None \<longleftrightarrow> (\<exists>e. Inl e \<in> T)" and "\<forall>x \<in> T. \<not> allowing x"
    and "res = \<lparr>rsp_Allowed = False, rsp_CycleDetected = (\<exists>x \<in> T. cyclic x)\<rparr>"
  shows "\<exists>fe fr. consume_loop (map EvOutcome outs @ [EvClosed]) finalErr res = Some (fe, fr) \<and>
    union_verdict (T \<union> set outs) (case fe of Some e \<Rightarrow> Inl e | None \<Rightarrow> Inr fr)"
  using assms
proof (induction outs arbitrary: finalErr res T)
  case Nil
  then show ?case by (cases finalErr) (auto simp: union_verdict_def)
next
  case (Cons x outs)
  have T: "T \<union> set (x # outs) = insert x T \<union> set outs" by auto
  show ?case
  proof (cases "allowing x")
    case True
    then obtain resp where "x = Inr resp" "rsp_Allowed resp" by (auto simp: allowing_def)
    then show ?thesis by (auto simp: union_verdict_def Let_def)
  next
    case False
    have "\<exists>finalErr' res'. consume_loop (map EvOutcome (x # outs) @ [EvClosed]) finalErr res =
        consume_loop (map EvOutcome outs @ [EvClosed]) finalErr' res' \<and>
        (finalErr' \<noteq> None \<longleftrightarrow> (\<exists>e. Inl e \<in> insert x T)) \<and>
        res' = \<lparr>rsp_Allowed = False, rsp_CycleDetected = (\<exists>x \<in> insert x T. cyclic x)\<rparr>"
      using Cons.prems False by (cases x) (auto simp: Let_def)
    with Cons.IH [of _ "insert x T"] Cons.prems(2) False show ?thesis unfolding T by force
  qed
qed

lemma exclusion_loop_closed:
  "set xs \<subseteq> {ExBaseClosed, ExSubClosed} \<Longrightarrow>
     exclusion_loop (Suc n) (xs @ evs) baseErr subErr = exclusion_loop (Suc n) evs baseErr subErr"
  by (induction xs) auto

definition exclusion_result :: "outcome \<Rightarrow> outcome \<Rightarrow> outcome \<Rightarrow> bool" where
  "exclusion_result base sub out \<longleftrightarrow>
    (let base_no = (case base of Inl _ \<Rightarrow> False | Inr r \<Rightarrow> rsp_CycleDetected r \<or> \<not> rsp_Allowed r);
         sub_yes = (case sub of Inl _ \<Rightarrow> False | Inr r \<Rightarrow> rsp_CycleDetected r \<or> rsp_Allowed r)
     in if base_no \<or> sub_yes then
          (\<exists>r. (base_no \<and> base = Inr r \<or> sub_yes \<and> sub = Inr r) \<and>
             out = Inr \<lparr>rsp_Allowed = False, rsp_CycleDetected = rsp_CycleDetected r\<rparr>)
        else (case base of Inl e \<Rightarrow> out = Inl e
              | Inr _ \<Rightarrow> (case sub of Inl e \<Rightarrow> out = Inl e
                  | Inr _ \<Rightarrow> out = Inr \<lparr>rsp_Allowed = True, rsp_CycleDetected = False\<rparr>)))"

lemma exclusion_loop_live:
  assumes "live_exclusion evs base sub"
  shows "\<exists>out. exclusion_loop 2 evs None None = Some out \<and> exclusion_result base sub out"
proof -
  from assms obtain xs ys zs where closed: "set xs \<subseteq> {ExBaseClosed, ExSubClosed}"
      "set ys \<subseteq> {ExBaseClosed, ExSubClosed}"
    and evs: "evs = xs @ [ExBase base] @ ys @ [ExSub sub] @ zs \<or>
      evs = xs @ [ExSub sub] @ ys @ [ExBase base] @ zs"
    unfolding live_exclusion_def by auto
  have two: "exclusion_loop 2 (xs @ rest) None None = exclusion_loop (Suc (Suc 0)) rest None None" for rest
    using exclusion_loop_closed [OF closed(1), of "Suc 0" rest] by (simp add: numeral_2_eq_2)
  note one = exclusion_loop_closed [OF closed(2), of 0]
  from evs show ?thesis
    by (elim disjE; cases base; cases sub)
       (auto simp: two one exclusion_result_def Let_def simp del: append.simps(2)
         simp: append_Cons [where xs = "[]"] append_Nil)
qed

text \<open>A live schedule lets every outcome arrive.\<close>

lemma arrival_order:
  assumes "mset evs = mset (map EvOutcome outs)"
  obtains outs' where "evs = map EvOutcome outs'" and "mset outs' = mset outs"
proof -
  let ?un = "\<lambda>e. case e of EvOutcome x \<Rightarrow> x | _ \<Rightarrow> undefined"
  have "set evs \<subseteq> range EvOutcome" using arg_cong [OF assms, of set_mset] by auto
  then have "map EvOutcome (map ?un evs) = evs" unfolding map_map by (intro map_idI) auto
  moreover have "mset (map ?un evs) = mset outs"
  proof -
    have "mset (map ?un evs) = image_mset ?un (mset (map EvOutcome outs))" by (simp only: mset_map assms)
    also have "\<dots> = mset outs" by (simp add: multiset.map_comp comp_def)
    finally show ?thesis .
  qed
  ultimately show ?thesis using that by metis
qed

lemma arrived:
  assumes "live \<sigma>"
  obtains outs' where "sc_events \<sigma> p outs = map EvOutcome outs'" and "set outs' = set outs"
    and "length outs' = length outs"
  using assms arrival_order [of "sc_events \<sigma> p outs" outs]
  by (metis live_def mset_eq_setD size_mset)

lemma runHandler_Returned [simp]: "map runHandler (map Returned outs) = outs"
  by (induction outs) (auto simp: runHandler_def)

lemma check_union_live:
  assumes "live \<sigma>"
  shows "\<exists>out. check_union \<sigma> p (map Returned outs) = Some out \<and> union_verdict (set outs) out"
proof -
  obtain outs' where o': "sc_events \<sigma> p outs = map EvOutcome outs'" "set outs' = set outs"
      "length outs' = length outs" using arrived [OF assms] .
  have "\<exists>out. union_loop (length outs') (map EvOutcome outs') None False = Some out \<and>
      union_verdict ({} \<union> set outs') out"
    by (rule union_loop_outcomes) auto
  with assms show ?thesis
    unfolding check_union_def runHandler_Returned length_map o'(1) by (simp add: live_def o'(2,3))
qed

lemma check_intersection_live:
  assumes "live \<sigma>" and "2 \<le> length outs"
  shows "\<exists>out. check_intersection \<sigma> p (map Returned outs) = Some out \<and>
    intersection_verdict (set outs) out"
proof -
  obtain outs' where o': "sc_events \<sigma> p outs = map EvOutcome outs'" "set outs' = set outs"
      "length outs' = length outs" using arrived [OF assms(1)] .
  have "\<exists>out. intersection_loop (length outs') (map EvOutcome outs') None = Some out \<and>
      intersection_verdict ({} \<union> set outs') out"
    by (rule intersection_loop_outcomes) auto
  with assms show ?thesis
    unfolding check_intersection_def runHandler_Returned length_map o'(1) by (simp add: live_def o'(2,3))
qed

lemma check_exclusion_live:
  assumes "live \<sigma>"
  shows "\<exists>out. check_exclusion \<sigma> p (map Returned [base, sub]) = Some out \<and> exclusion_result base sub out"
  using assms exclusion_loop_live [of "sc_exclusion \<sigma> p base sub" base sub]
  by (simp add: check_exclusion_def live_def runHandler_def)

lemma consumeDispatches_live:
  assumes "live \<sigma>"
  shows "\<exists>out. consumeDispatches \<sigma> p outs = Some out \<and> union_verdict (set outs) out"
proof -
  obtain outs' where o': "sc_events \<sigma> p outs = map EvOutcome outs'" "set outs' = set outs"
      "length outs' = length outs" using arrived [OF assms] .
  let ?res = "\<lparr>rsp_Allowed = False, rsp_CycleDetected = False\<rparr>"
  obtain fe fr where "consume_loop (map EvOutcome outs' @ [EvClosed]) None ?res = Some (fe, fr)"
      "union_verdict ({} \<union> set outs') (case fe of Some e \<Rightarrow> Inl e | None \<Rightarrow> Inr fr)"
    using consume_loop_outcomes [of None "{}" ?res outs'] by auto
  with assms show ?thesis
    unfolding consumeDispatches_def o'(1) by (simp add: live_def o'(2))
qed

section \<open>Whatever the schedule\<close>

text \<open>
  When the context is cancelled some outcomes are lost. A schedule invents none: an event carries an
  outcome of a handler, and each channel of \<open>exclusion\<close> carries one.
\<close>

definition invents_nothing :: "schedule \<Rightarrow> bool" where
  "invents_nothing \<sigma> \<longleftrightarrow>
     (\<forall>p outs x. EvOutcome x \<in> set (sc_events \<sigma> p outs) \<longrightarrow> x \<in> set outs) \<and>
     (\<forall>p b s. set (sc_exclusion \<sigma> p b s) \<subseteq> {ExBase b, ExSub s, ExBaseClosed, ExSubClosed} \<union> range ExDone \<and>
        count_list (sc_exclusion \<sigma> p b s) (ExBase b) \<le> 1 \<and> count_list (sc_exclusion \<sigma> p b s) (ExSub s) \<le> 1)"

lemma union_loop_allows:
  "union_loop n evs fe cyc = Some out \<Longrightarrow> allowing out \<Longrightarrow> EvOutcome out \<in> set evs"
  by (induction n evs fe cyc rule: union_loop.induct) (auto simp: Let_def split: option.splits if_splits)

lemma consume_loop_allows:
  "consume_loop evs fe res = Some (None, resp) \<Longrightarrow> rsp_Allowed resp \<Longrightarrow> \<not> rsp_Allowed res \<Longrightarrow>
     EvOutcome (Inr resp) \<in> set evs"
  by (induction evs fe res rule: consume_loop.induct) (auto simp: Let_def split: if_splits)

lemma exclusion_loop_allows:
  "exclusion_loop n evs be se = Some out \<Longrightarrow> allowing out \<Longrightarrow>
     set evs \<subseteq> {ExBase b, ExSub s, ExBaseClosed, ExSubClosed} \<union> range ExDone \<Longrightarrow>
     be = None \<and> se = None \<and> n \<le> (if allowing b \<and> \<not> cyclic b then count_list evs (ExBase b) else 0) +
       (if refusing s \<and> \<not> cyclic s then count_list evs (ExSub s) else 0)"
  by (induction n evs be se rule: exclusion_loop.induct)
     (auto simp: Let_def refusing_def split: option.splits if_splits)

text \<open>
  C37: whenever the request is cancelled and whatever order the outcomes arrive in, \<open>union\<close> and the
  consumer of dispatched checks allow only what a handler allowed, and \<open>exclusion\<close> only if its base
  was allowed and what is subtracted refused, neither in a cycle.
\<close>

theorem allowed_by_a_handler:
  assumes "invents_nothing \<sigma>"
  shows "(\<forall>hs out. check_union \<sigma> p hs = Some out \<longrightarrow> allowing out \<longrightarrow> (\<exists>h \<in> set hs. allowing (runHandler h))) \<and>
    (\<forall>outs out. consumeDispatches \<sigma> p outs = Some out \<longrightarrow> allowing out \<longrightarrow> (\<exists>x \<in> set outs. allowing x)) \<and>
    (\<forall>b s out. check_exclusion \<sigma> p [b, s] = Some out \<longrightarrow> allowing out \<longrightarrow>
      allowing (runHandler b) \<and> \<not> cyclic (runHandler b) \<and>
      runHandler s = Inr \<lparr>rsp_Allowed = False, rsp_CycleDetected = False\<rparr>)"
proof (intro conjI allI impI)
  have seen: "EvOutcome x \<in> set (sc_events \<sigma> p outs) \<Longrightarrow> x \<in> set outs" for x outs
    using assms unfolding invents_nothing_def by blast
  show "\<exists>h \<in> set hs. allowing (runHandler h)" if "check_union \<sigma> p hs = Some out" "allowing out" for hs out
    using that seen [of out "map runHandler hs"] union_loop_allows
    by (auto simp: check_union_def split: option.splits)
  show "\<exists>x \<in> set outs. allowing x" if "consumeDispatches \<sigma> p outs = Some out" "allowing out" for outs out
  proof -
    from that obtain resp where "consume_loop (sc_events \<sigma> p outs @ [EvClosed]) None
        \<lparr>rsp_Allowed = False, rsp_CycleDetected = False\<rparr> = Some (None, resp)" "rsp_Allowed resp"
      by (auto simp: consumeDispatches_def Let_def split: option.splits prod.splits)
    from consume_loop_allows [OF this] have "EvOutcome (Inr resp) \<in> set (sc_events \<sigma> p outs)" by simp
    with seen \<open>rsp_Allowed resp\<close> show ?thesis by force
  qed
  fix b s out assume ex: "check_exclusion \<sigma> p [b, s] = Some out" "allowing out"
  let ?b = "runHandler b" and ?s = "runHandler s" and ?evs = "sc_exclusion \<sigma> p (runHandler b) (runHandler s)"
  from ex have "exclusion_loop 2 ?evs None None = Some out"
    by (auto simp: check_exclusion_def split: option.splits)
  moreover have "set ?evs \<subseteq> {ExBase ?b, ExSub ?s, ExBaseClosed, ExSubClosed} \<union> range ExDone"
    and "count_list ?evs (ExBase ?b) \<le> 1" "count_list ?evs (ExSub ?s) \<le> 1"
    using assms unfolding invents_nothing_def by blast+
  ultimately have "allowing ?b \<and> \<not> cyclic ?b \<and> refusing ?s \<and> \<not> cyclic ?s"
    using exclusion_loop_allows [of 2 ?evs None None out ?b ?s] ex(2) by (auto split: if_splits)
  then show "allowing ?b" "\<not> cyclic ?b" "?s = Inr \<lparr>rsp_Allowed = False, rsp_CycleDetected = False\<rparr>"
    by (auto simp: refusing_def)
qed

theorem allowed_by_a_handler_witness:
  "consumeDispatches in_order [] [Inl CE_UnknownSetOperator, Inr \<lparr>rsp_Allowed = True, rsp_CycleDetected = False\<rparr>] =
     Some (Inr \<lparr>rsp_Allowed = True, rsp_CycleDetected = False\<rparr>) \<and>
   (\<exists>x \<in> {Inl CE_UnknownSetOperator, Inr \<lparr>rsp_Allowed = True, rsp_CycleDetected = False\<rparr>}. allowing x)"
proof -
  let ?outs = "[Inl CE_UnknownSetOperator, Inr \<lparr>rsp_Allowed = True, rsp_CycleDetected = False\<rparr>]"
  have "invents_nothing in_order" by (auto simp: invents_nothing_def in_order_def)
  from allowed_by_a_handler [OF this, of "[]"] have "\<forall>out. consumeDispatches in_order [] ?outs = Some out \<longrightarrow>
      allowing out \<longrightarrow> (\<exists>x \<in> set ?outs. allowing x)" by blast
  then show ?thesis by (simp add: consumeDispatches_def in_order_def)
qed

text \<open>
  C40: \<open>intersection\<close> is the exception. When its context is cancelled, the outcomes are lost and the
  channel of outcomes is closed; if the \<open>select\<close> statement sees the closed channel each time instead
  of the cancelled context, the answer is allowed, whatever the handlers answered.
\<close>

theorem cancelled_intersection_allows:
  assumes "2 \<le> length hs" and "sc_err \<sigma> p = None"
    and "sc_events \<sigma> p (map runHandler hs) = replicate (length hs) EvClosed"
  shows "cancelled_events (map runHandler hs) (sc_events \<sigma> p (map runHandler hs)) \<and>
    check_intersection \<sigma> p hs = Some (Inr \<lparr>rsp_Allowed = True, rsp_CycleDetected = False\<rparr>)"
proof -
  have "intersection_loop n (replicate n EvClosed) None =
      Some (Inr \<lparr>rsp_Allowed = True, rsp_CycleDetected = False\<rparr>)" for n
    by (induction n) auto
  with assms show ?thesis
    by (auto simp: check_intersection_def cancelled_events_def intro!: exI [of _ "[]"])
qed

theorem cancelled_intersection_allows_witness:
  "check_intersection (in_order\<lparr>sc_events := \<lambda>_ outs. map (\<lambda>_. EvClosed) outs\<rparr>) []
     [Returned (Inr \<lparr>rsp_Allowed = False, rsp_CycleDetected = False\<rparr>), Returned (Inl CE_UnknownSetOperator)] =
   Some (Inr \<lparr>rsp_Allowed = True, rsp_CycleDetected = False\<rparr>)"
  using cancelled_intersection_allows [of "[Returned (Inr \<lparr>rsp_Allowed = False, rsp_CycleDetected = False\<rparr>),
      Returned (Inl CE_UnknownSetOperator)]" "in_order\<lparr>sc_events := \<lambda>_ outs. map (\<lambda>_. EvClosed) outs\<rparr>" "[]"]
  by (simp add: in_order_def)

end
