(* ===== verification/Combined_Reader.thy ===== *)
theory Combined_Reader
  imports Memory_Store
begin

text \<open>
  The interface \<open>RelationshipTupleReader\<close> of \<open>pkg/storage/storage.go\<close> and its implementation that
  adds the contextual tuples of a request to a datastore,
  \<open>pkg/storage/storagewrappers/combinedtuplereader.go\<close>. A reader is a record of the interface's
  methods, for one state of its data; the contract that the check engine relies on is the locale
  \<open>tuple_reader\<close>, which the memory backend meets, and a combined reader over any reader that does.
\<close>

section \<open>The interface\<close>

text \<open>
  \<open>'i\<close> is the type of the iterators of \<open>Read\<close> and \<open>ReadUsersetTuples\<close>, \<open>'k\<close> of those of
  \<open>ReadStartingWithUser\<close>, whose option \<open>WithResultsSortedAscending\<close> is its first argument.
\<close>

record ('i, 'k) reader =
  rd_next :: "('i, string, pb_tuple) iter_call"
  rd_head :: "('i, string, pb_tuple) iter_call"
  rd_Read :: "string \<Rightarrow> read_filter \<Rightarrow> (store_err, 'i) result option"
  rd_ReadPage :: "string ctx \<Rightarrow> string \<Rightarrow> read_filter \<Rightarrow> pagination \<Rightarrow>
    (store_err, pb_tuple list \<times> string) result option"
  rd_ReadUserTuple :: "string \<Rightarrow> read_filter \<Rightarrow> (store_err, pb_tuple) result"
  rd_ReadUsersetTuples :: "string \<Rightarrow> usersets_filter \<Rightarrow> (store_err, 'i) result"
  rd_ReadStartingWithUser :: "bool \<Rightarrow> string \<Rightarrow> starting_filter \<Rightarrow> (store_err, 'k) result"

definition memory_reader :: "(tuple_record list \<Rightarrow> tuple_record list) \<Rightarrow> 'a memory_backend \<Rightarrow>
    (mem_iter, mem_iter) reader" where
  "memory_reader srt s =
     \<lparr>rd_next = mem_Next, rd_head = mem_Head, rd_Read = mem_Read s,
      rd_ReadPage = (\<lambda>ctx. mem_ReadPage ctx s), rd_ReadUserTuple = mem_ReadUserTuple s,
      rd_ReadUsersetTuples = mem_ReadUsersetTuples s,
      rd_ReadStartingWithUser = (\<lambda>_. mem_ReadStartingWithUser srt s)\<rparr>"

section \<open>The combined reader\<close>

text \<open>
  \<open>slices.SortFunc\<close> is not stable, so the sorting function is an argument. The two iterators that
  a combined iterator holds are an element of the sum of their types; \<open>either_call\<close> is the call
  through the interface.
\<close>

record ('i, 'k) combined_reader =
  cr_reader :: "('i, 'k) reader"
  cr_tuples :: "tuple_key list"

definition NewCombinedTupleReader :: "(tuple_key list \<Rightarrow> tuple_key list) \<Rightarrow> ('i, 'k) reader \<Rightarrow>
    tuple_key list \<Rightarrow> ('i, 'k) combined_reader" where
  "NewCombinedTupleReader srt ds contextualTuples =
     \<lparr>cr_reader = ds,
      cr_tuples = srt (map (\<lambda>t. NewTupleKeyWithCondition (tk_object t) (tk_relation t) (tk_user t)
        (get_cond_name t) (get_cond_context t)) contextualTuples)\<rparr>"

definition filterTuples :: "tuple_key list \<Rightarrow> string \<Rightarrow> string \<Rightarrow> string list \<Rightarrow> pb_tuple list" where
  "filterTuples tuples targetObject targetRelation targetUsers =
     map (\<lambda>tk. \<lparr>tup_key = tk, tup_timestamp = 0\<rparr>)
       (filter (\<lambda>tk. (targetObject = [] \<or> tk_object tk = targetObject) \<and>
                     (targetRelation = [] \<or> tk_relation tk = targetRelation) \<and>
                     (targetUsers = [] \<or> tk_user tk \<in> set targetUsers)) tuples)"

definition either_call :: "('a, 'e, 'x) iter_call \<Rightarrow> ('b, 'e, 'x) iter_call \<Rightarrow> ('a + 'b, 'e, 'x) iter_call" where
  "either_call f g ctx s =
     (case s of Inl a \<Rightarrow> map_option (\<lambda>(r, a'). (r, Inl a')) (f ctx a)
      | Inr b \<Rightarrow> map_option (\<lambda>(r, b'). (r, Inr b')) (g ctx b))"

datatype 'k starting_iter =
    Unsorted "(pb_tuple static_iter + 'k) combined_iter"
  | Sorted "(pb_tuple static_iter + 'k) ordered_iter"

definition combined_Read :: "('i, 'k) combined_reader \<Rightarrow> string \<Rightarrow> read_filter \<Rightarrow>
    (store_err, (pb_tuple static_iter + 'i) combined_iter) result option" where
  "combined_Read c storeID flt =
     (let iter1 = NewStaticIterator (filterTuples (cr_tuples c) (rf_Object flt) (rf_Relation flt) []) in
      case rd_Read (cr_reader c) storeID flt of None \<Rightarrow> None
      | Some (Inl err) \<Rightarrow> Some (Inl err)
      | Some (Inr iter2) \<Rightarrow> Some (Inr (NewCombinedIterator [Some (Inl iter1), Some (Inr iter2)])))"

definition combined_ReadPage :: "('i, 'k) combined_reader \<Rightarrow> string ctx \<Rightarrow> string \<Rightarrow> read_filter \<Rightarrow>
    pagination \<Rightarrow> (store_err, pb_tuple list \<times> string) result option" where
  "combined_ReadPage c ctx store flt options = rd_ReadPage (cr_reader c) ctx store flt options"

definition combined_ReadUserTuple :: "('i, 'k) combined_reader \<Rightarrow> string \<Rightarrow> read_filter \<Rightarrow>
    (store_err, pb_tuple) result" where
  "combined_ReadUserTuple c store flt =
     (case List.find (\<lambda>t. tk_user (tup_key t) = rf_User flt)
             (filterTuples (cr_tuples c) (rf_Object flt) (rf_Relation flt) [rf_User flt]) of
        Some t \<Rightarrow> Inr t
      | None \<Rightarrow> rd_ReadUserTuple (cr_reader c) store flt)"

definition restriction_matches :: "string \<Rightarrow> relation_reference \<Rightarrow> bool" where
  "restriction_matches tupleUser ref \<longleftrightarrow>
     (case rr_relationOrWildcard ref of
        Some (RR_Wildcard _) \<Rightarrow> IsTypedWildcard tupleUser \<and> GetType tupleUser = rr_type ref
      | Some (RR_Relation _) \<Rightarrow> IsObjectRelation tupleUser \<and> GetType tupleUser = rr_type ref \<and>
          GetRelation tupleUser = rr_GetRelation ref
      | None \<Rightarrow> False)"

definition tupleMatchesAllowedUserTypeRestrictions :: "pb_tuple \<Rightarrow> relation_reference list \<Rightarrow> bool" where
  "tupleMatchesAllowedUserTypeRestrictions t allowed =
     (let tupleUser = tk_user (tup_key t) in
      if GetUserTypeFromUser tupleUser \<noteq> UserSet then False
      else \<exists>ref \<in> set allowed. restriction_matches tupleUser ref)"

definition combined_ReadUsersetTuples :: "('i, 'k) combined_reader \<Rightarrow> string \<Rightarrow> usersets_filter \<Rightarrow>
    (store_err, (pb_tuple static_iter + 'i) combined_iter) result" where
  "combined_ReadUsersetTuples c store flt =
     (let usersetTuples = filter (\<lambda>t. tupleMatchesAllowedUserTypeRestrictions t
              (uf_AllowedUserTypeRestrictions flt))
            (filterTuples (cr_tuples c) (uf_Object flt) (uf_Relation flt) []);
          iter1 = NewStaticIterator usersetTuples in
      case rd_ReadUsersetTuples (cr_reader c) store flt of Inl err \<Rightarrow> Inl err
      | Inr iter2 \<Rightarrow> Inr (NewCombinedIterator [Some (Inl iter1), Some (Inr iter2)]))"

text \<open>
  A static iterator is ordered; \<open>ordered\<close> tells whether the datastore's iterator says that it is.
\<close>

definition combined_ReadStartingWithUser :: "('k \<Rightarrow> bool) \<Rightarrow> ('i, 'k) combined_reader \<Rightarrow> bool \<Rightarrow>
    string \<Rightarrow> starting_filter \<Rightarrow> (store_err, 'k starting_iter) result" where
  "combined_ReadStartingWithUser ordered c sortedAscending store flt =
     (let userFilters = map (\<lambda>u. if or_relation u \<noteq> [] then
              ToObjectRelationString (or_object u) (or_relation u) else or_object u) (sf_UserFilter flt);
          filteredTuples = filter (\<lambda>t. GetType (tk_object (tup_key t)) = sf_ObjectType flt)
            (filterTuples (cr_tuples c) [] (sf_Relation flt) userFilters);
          iter1 = NewStaticIterator filteredTuples in
      case rd_ReadStartingWithUser (cr_reader c) sortedAscending store flt of Inl err \<Rightarrow> Inl err
      | Inr iter2 \<Rightarrow>
          if sortedAscending then
            Inr (Sorted (NewOrderedCombinedIterator (\<lambda>i. case i of Inl _ \<Rightarrow> True | Inr k \<Rightarrow> ordered k)
              [Some (Inl iter1), Some (Inr iter2)]))
          else Inr (Unsorted (NewCombinedIterator [Some (Inl iter1), Some (Inr iter2)])))"

definition as_reader :: "('k \<Rightarrow> bool) \<Rightarrow> ('i, 'k) combined_reader \<Rightarrow>
    ((pb_tuple static_iter + 'i) combined_iter, 'k starting_iter) reader" where
  "as_reader ordered c =
     \<lparr>rd_next = combinedIterator_Next (either_call StaticIterator_Next (rd_next (cr_reader c))),
      rd_head = combinedIterator_Head (either_call StaticIterator_Head (rd_head (cr_reader c))),
      rd_Read = combined_Read c, rd_ReadPage = combined_ReadPage c,
      rd_ReadUserTuple = combined_ReadUserTuple c,
      rd_ReadUsersetTuples = combined_ReadUsersetTuples c,
      rd_ReadStartingWithUser = combined_ReadStartingWithUser ordered c\<rparr>"

section \<open>The contract\<close>

text \<open>
  A type restriction on usersets: a relation or the wildcard of a type, whose name has no \<open>#\<close>, as
  the API has it.
\<close>

definition userset_restriction :: "relation_reference \<Rightarrow> bool" where
  "userset_restriction ref \<longleftrightarrow> rr_type ref \<noteq> [] \<and> CHR ''#'' \<notin> set (rr_type ref) \<and>
     (case rr_relationOrWildcard ref of
        Some (RR_Relation r) \<Rightarrow> r \<noteq> []
      | Some (RR_Wildcard b) \<Rightarrow> b
      | None \<Rightarrow> False)"

text \<open>
  \<open>contents\<close> are the tuples a reader gives access to, in one store. The laws hold when the data is
  \<open>valid\<close>, for the full keys and the filters that the check engine asks with; they say what is
  returned when a call succeeds.
\<close>

locale tuple_reader = iterator "rd_next rd" "rd_head rd" items "\<lambda>_. ErrIteratorDone"
  for rd :: "('i, 'k) reader" and items :: "'i \<Rightarrow> pb_tuple list" +
  fixes valid :: bool and store :: string and contents :: "tuple_key set"
  assumes read_returns: "rd_Read rd store flt \<noteq> None"
    and read_law: "valid \<Longrightarrow> full_object ob \<Longrightarrow> r \<noteq> [] \<Longrightarrow>
      rd_Read rd store \<lparr>rf_Object = ob, rf_Relation = r, rf_User = [], rf_Conditions = []\<rparr> = Some (Inr it) \<Longrightarrow>
      tup_key ` set (items it) = {t \<in> contents. tk_object t = ob \<and> tk_relation t = r}"
    and user_law: "valid \<Longrightarrow> full_key (NewTupleKey ob r u) \<Longrightarrow>
      rd_ReadUserTuple rd store \<lparr>rf_Object = ob, rf_Relation = r, rf_User = u, rf_Conditions = []\<rparr> = Inr t \<Longrightarrow>
      tup_key t \<in> contents \<and> same_key (tup_key t) (NewTupleKey ob r u)"
    and no_user_law: "valid \<Longrightarrow> full_key (NewTupleKey ob r u) \<Longrightarrow>
      rd_ReadUserTuple rd store \<lparr>rf_Object = ob, rf_Relation = r, rf_User = u, rf_Conditions = []\<rparr> =
        Inl ErrNotFound \<Longrightarrow> tk \<in> contents \<Longrightarrow> \<not> same_key tk (NewTupleKey ob r u)"
    and usersets_law: "valid \<Longrightarrow> full_object ob \<Longrightarrow> r \<noteq> [] \<Longrightarrow> refs \<noteq> [] \<Longrightarrow>
      \<forall>ref \<in> set refs. userset_restriction ref \<Longrightarrow>
      rd_ReadUsersetTuples rd store \<lparr>uf_Object = ob, uf_Relation = r,
        uf_AllowedUserTypeRestrictions = refs, uf_Conditions = []\<rparr> = Inr it \<Longrightarrow>
      tup_key ` set (items it) =
        {t \<in> contents. tk_object t = ob \<and> tk_relation t = r \<and>
           (\<exists>ref \<in> set refs. restriction_matches (tk_user t) ref)}"
    and unique_law: "valid \<Longrightarrow> tk \<in> contents \<Longrightarrow> tk' \<in> contents \<Longrightarrow> same_key tk tk' \<Longrightarrow> tk = tk'"

section \<open>The memory backend meets the contract\<close>

lemma object_matches:
  assumes "wf_record rec" and "full_object ob" and "r \<noteq> []"
  shows "match rec (NewTupleKey ob r []) \<longleftrightarrow>
    tk_object (stored_key rec) = ob \<and> tk_relation (stored_key rec) = r"
proof -
  from assms(2) obtain t i where ob: "ob = BuildObject t i" "CHR '':'' \<notin> set t" "i \<noteq> []"
      "SplitObject ob = (t, i)" by (rule SplitObject_full)
  then have "ob \<noteq> []" by (simp add: BuildObject_def)
  moreover have "CHR '':'' \<notin> set (rec_ObjectType rec)" using assms(1) by (simp add: wf_record_def)
  ultimately show ?thesis
    using ob assms(3) by (auto simp: match_def NewTupleKey_def assms(1) BuildObject_inj)
qed

lemma SplitObject_typed:
  assumes "SplitObject u = (t, i)" and "t \<noteq> []"
  shows "u = BuildObject t i"
  using assms SplitObject_colon [of u t i] SplitObject_no_colon [of u]
  by (cases "CHR '':'' \<in> set u") auto

lemma typed_wildcard_parts:
  assumes "IsTypedWildcard u"
  shows "u = BuildObject (GetType u) Wildcard" and "GetType u \<noteq> []"
  using assms SplitObject_typed by (auto simp: IsTypedWildcard_def GetType_def split: prod.splits)

lemma userset_relation:
  assumes "IsObjectRelation u"
  shows "snd (SplitObjectRelation u) \<noteq> []"
  using assms free_of_no_hash_colon by (auto simp: IsObjectRelation_def IsValidUserset_iff)

lemma wildcard_no_relation:
  assumes "IsWildcard u" and "CHR ''#'' \<notin> set (GetType u)"
  shows "snd (SplitObjectRelation u) = []"
proof -
  have "CHR ''#'' \<notin> set (BuildObject (GetType u) Wildcard)" "CHR ''#'' \<notin> set Wildcard"
    using assms(2) by (auto simp: Wildcard_def BuildObject_def)
  then have "CHR ''#'' \<notin> set u"
    using assms(1) typed_wildcard_parts(1) [of u] unfolding IsWildcard_def by metis
  then show ?thesis by (simp add: SplitObjectRelation_no_hash)
qed

lemma wildcard_typed: "IsWildcard u \<Longrightarrow> GetType u \<noteq> [] \<Longrightarrow> IsTypedWildcard u"
  by (auto simp: IsWildcard_def Wildcard_def GetType_def SplitObject_no_colon)

lemma restriction_on_record:
  assumes "userset_restriction ref"
  shows "GetUserTypeFromUser u = UserSet \<and> rr_type ref = GetType u \<and>
      rr_GetRelation ref = snd (SplitObjectRelation u) \<longleftrightarrow> restriction_matches u ref"
proof -
  have w: "IsTypedWildcard u \<Longrightarrow> IsWildcard u" by (simp add: IsWildcard_def)
  show ?thesis
    using assms wildcard_no_relation [of u] userset_relation [of u] wildcard_typed [of u] w
    by (auto simp: userset_restriction_def restriction_matches_def rr_GetRelation_def
        GetUserTypeFromUser_def GetRelation_def split: option.splits relation_or_wildcard.splits if_splits)
qed

lemma usersets_on_record:
  assumes "wf_record rec" and "\<forall>ref \<in> set refs. userset_restriction ref" and "refs \<noteq> []"
    and "full_object ob" and "r \<noteq> []"
  shows "0 < usersets_appended \<lparr>uf_Object = ob, uf_Relation = r,
        uf_AllowedUserTypeRestrictions = refs, uf_Conditions = conds\<rparr> rec \<longleftrightarrow>
    tk_object (stored_key rec) = ob \<and> tk_relation (stored_key rec) = r \<and>
    (\<exists>ref \<in> set refs. restriction_matches (tk_user (stored_key rec)) ref)"
proof -
  have "(\<exists>ref \<in> set refs. restriction_matches (rec_User rec) ref) \<longleftrightarrow>
      GetUserTypeFromUser (rec_User rec) = UserSet \<and>
      (\<exists>ref \<in> set refs. rr_type ref = GetType (rec_User rec) \<and>
         rr_GetRelation ref = snd (SplitObjectRelation (rec_User rec)))"
    using assms(2) restriction_on_record by blast
  then show ?thesis
    using object_matches [OF assms(1,4,5)] assms(1,3)
    by (auto simp: usersets_appended_def Let_def filter_empty_conv)
qed

lemma find_user_tuple:
  assumes "\<forall>rec \<in> set recs. wf_record rec" and "full_key (NewTupleKey ob r u)"
  shows "ReadUserTuple_loop \<lparr>rf_Object = ob, rf_Relation = r, rf_User = u, rf_Conditions = []\<rparr> recs =
    (case List.find (\<lambda>rec. same_key (stored_key rec) (NewTupleKey ob r u)) recs of
       None \<Rightarrow> Inl ErrNotFound | Some rec \<Rightarrow> Inr (AsTuple rec))"
  using assms(1) match_full [OF assms(2)] by (induction recs) auto

lemma memory_reader_simps [simp]:
  "rd_next (memory_reader srt s) = mem_Next" "rd_head (memory_reader srt s) = mem_Head"
  "rd_Read (memory_reader srt s) = mem_Read s" "rd_ReadUserTuple (memory_reader srt s) = mem_ReadUserTuple s"
  "rd_ReadUsersetTuples (memory_reader srt s) = mem_ReadUsersetTuples s"
  by (simp_all add: memory_reader_def)

lemma mem_Read_records:
  "mem_Read s store flt = Some (Inr \<lparr>mi_records = read_matches s store flt, mi_token = []\<rparr>)"
  by (simp add: mem_Read_def mem_read_def slice_from_def)

interpretation memory: tuple_reader "memory_reader srt s" "\<lambda>it. map AsTuple (mi_records it)"
    "tuples_ok s store" store "set (stored s store)"
  for srt s store
proof (unfold_locales, goal_cases)
  case (1 it x xs) then show ?case using memory_iter.next_item by simp
next
  case (2 it) then show ?case using memory_iter.next_end by simp
next
  case (3 it x xs) then show ?case using memory_iter.head_item by simp
next
  case (4 it) then show ?case using memory_iter.head_end by simp
next
  case (5 flt) then show ?case by (simp add: mem_Read_records)
next
  case (6 ob r it)
  then have "set (mi_records it) = {rec \<in> set (mb_tuples s store). match rec (NewTupleKey ob r [])}"
    by (auto simp: mem_Read_records read_matches_def condition_listed_def)
  with 6 object_matches show ?case by (auto simp: stored_def tuples_ok_def)
next
  case (7 ob r u t)
  then have "\<forall>rec \<in> set (mb_tuples s store). wf_record rec" by (simp add: tuples_ok_def)
  from find_user_tuple [OF this 7(2)] 7(3) show ?case
    by (auto simp: mem_ReadUserTuple_def stored_def find_Some_iff split: option.splits)
next
  case (8 ob r u tk)
  then have "\<forall>rec \<in> set (mb_tuples s store). wf_record rec" by (simp add: tuples_ok_def)
  from find_user_tuple [OF this 8(2)] 8(3,4) show ?case
    by (auto simp: mem_ReadUserTuple_def stored_def find_None_iff split: option.splits)
next
  case (9 ob r refs it)
  let ?flt = "\<lparr>uf_Object = ob, uf_Relation = r, uf_AllowedUserTypeRestrictions = refs, uf_Conditions = []\<rparr>"
  have "set (mi_records it) = {rec \<in> set (mb_tuples s store). 0 < usersets_appended ?flt rec}"
    using 9(6) by (auto simp: mem_ReadUsersetTuples_def)
  also have "\<dots> = {rec \<in> set (mb_tuples s store). tk_object (stored_key rec) = ob \<and>
      tk_relation (stored_key rec) = r \<and>
      (\<exists>ref \<in> set refs. restriction_matches (tk_user (stored_key rec)) ref)}"
    using 9(1) usersets_on_record [OF _ 9(5,4,2,3)] unfolding tuples_ok_def by blast
  finally show ?case by (auto simp: stored_def)
next
  case (10 tk tk')
  then show ?case by (auto simp: tuples_ok_def distinct_map inj_on_def same_key_iff)
qed

section \<open>A combined reader meets the contract\<close>

text \<open>
  The contextual tuples of a request are full keys, and name no tuple twice, nor one of the
  datastore: of a stored and a contextual tuple of the same key \<open>ReadUserTuple\<close> returns the
  contextual one alone, and the other reads return both.
\<close>

definition contextual_ok :: "tuple_key list \<Rightarrow> tuple_key set \<Rightarrow> bool" where
  "contextual_ok tuples contents \<longleftrightarrow> (\<forall>tk \<in> set tuples. full_key tk) \<and> distinct (map key_id tuples) \<and>
     (\<forall>tk \<in> set tuples. \<forall>tk' \<in> contents. \<not> same_key tk tk')"

definition either_items :: "('i \<Rightarrow> pb_tuple list) \<Rightarrow> pb_tuple static_iter + 'i \<Rightarrow> pb_tuple list" where
  "either_items items x = (case x of Inl st \<Rightarrow> si_items st | Inr i \<Rightarrow> items i)"

definition both_items :: "('i \<Rightarrow> pb_tuple list) \<Rightarrow> (pb_tuple static_iter + 'i) combined_iter \<Rightarrow> pb_tuple list" where
  "both_items items it = comb_items (either_items items) (\<lambda>_. ErrIteratorDone :: string iter_err) (cb_pending it)"

lemma both_items_NewCombinedIterator:
  "both_items items (NewCombinedIterator [Some (Inl (NewStaticIterator ts)), Some (Inr i)]) = ts @ items i"
  by (simp add: both_items_def NewCombinedIterator_def either_items_def NewStaticIterator_def)

locale contextual_reader = tuple_reader rd items valid store contents
  for rd :: "('i, 'k) reader" and items valid store contents +
  fixes tuples :: "tuple_key list" and ordered :: "'k \<Rightarrow> bool"

sublocale contextual_reader \<subseteq> either: iterator_list
    "either_call StaticIterator_Next (rd_next rd)" "either_call StaticIterator_Head (rd_head rd)"
    "either_items items" "\<lambda>_. ErrIteratorDone"
proof (unfold_locales, goal_cases)
  case (1 x y ys)
  then show ?case
    using next_item static.next_item by (cases x) (fastforce simp: either_call_def either_items_def)+
next
  case (2 x)
  then show ?case
    using next_end static.next_end by (cases x) (fastforce simp: either_call_def either_items_def)+
next
  case (3 x y ys)
  then show ?case
    using head_item static.head_item by (cases x) (fastforce simp: either_call_def either_items_def)+
next
  case (4 x)
  then show ?case
    using head_end static.head_end by (cases x) (fastforce simp: either_call_def either_items_def)+
qed

lemma comb_fin_done [simp]: "comb_fin (\<lambda>_. ErrIteratorDone) xs = ErrIteratorDone"
  by (induction xs) auto

lemma set_filterTuples:
  "tup_key ` set (filterTuples tuples ob r us) =
     {tk \<in> set tuples. (ob = [] \<or> tk_object tk = ob) \<and> (r = [] \<or> tk_relation tk = r) \<and>
        (us = [] \<or> tk_user tk \<in> set us)}"
  by (simp add: filterTuples_def image_image)

lemma set_filter_filterTuples:
  "tup_key ` set (filter (\<lambda>t. P (tup_key t)) (filterTuples tuples ob r us)) =
     {tk \<in> tup_key ` set (filterTuples tuples ob r us). P tk}"
  by auto

lemma combined_user_tuple:
  assumes "full_key (NewTupleKey ob r u)"
  shows "combined_ReadUserTuple c store \<lparr>rf_Object = ob, rf_Relation = r, rf_User = u, rf_Conditions = []\<rparr> =
    (case List.find (\<lambda>t. same_key t (NewTupleKey ob r u)) (cr_tuples c) of
       Some t \<Rightarrow> Inr \<lparr>tup_key = t, tup_timestamp = 0\<rparr>
     | None \<Rightarrow> rd_ReadUserTuple (cr_reader c) store \<lparr>rf_Object = ob, rf_Relation = r, rf_User = u, rf_Conditions = []\<rparr>)"
proof -
  have "ob \<noteq> []" "r \<noteq> []" using assms by (auto simp: full_key_def full_object_def NewTupleKey_def)
  then have "List.find (\<lambda>t. tk_user (tup_key t) = u) (filterTuples tuples ob r [u]) =
      map_option (\<lambda>t. \<lparr>tup_key = t, tup_timestamp = 0\<rparr>)
        (List.find (\<lambda>t. same_key t (NewTupleKey ob r u)) tuples)" for tuples
    by (induction tuples) (auto simp: filterTuples_def same_key_def NewTupleKey_def)
  then show ?thesis by (simp add: combined_ReadUserTuple_def split: option.split)
qed

sublocale contextual_reader \<subseteq> combined: tuple_reader "as_reader ordered \<lparr>cr_reader = rd, cr_tuples = tuples\<rparr>"
    "both_items items" "valid \<and> contextual_ok tuples contents" store "set tuples \<union> contents"
proof (unfold_locales, goal_cases)
  case (1 it x xs)
  then show ?case using either.combined.next_item [of it x xs]
    by (simp add: both_items_def as_reader_def)
next
  case (2 it)
  then show ?case using either.combined.next_end [of it]
    by (simp add: both_items_def as_reader_def)
next
  case (3 it x xs)
  then show ?case using either.combined.head_item [of it x xs]
    by (simp add: both_items_def as_reader_def)
next
  case (4 it)
  then show ?case using either.combined.head_end [of it]
    by (simp add: both_items_def as_reader_def)
next
  case (5 flt)
  then show ?case using read_returns [of flt]
    by (auto simp: as_reader_def combined_Read_def Let_def split: option.splits sum.splits)
next
  case (6 ob r it)
  then obtain iter2 where inner: "rd_Read rd store \<lparr>rf_Object = ob, rf_Relation = r, rf_User = [],
      rf_Conditions = []\<rparr> = Some (Inr iter2)"
    and it: "it = NewCombinedIterator [Some (Inl (NewStaticIterator (filterTuples tuples ob r []))),
      Some (Inr iter2)]"
    by (auto simp: as_reader_def combined_Read_def Let_def split: option.splits sum.splits)
  from 6(2) have "ob \<noteq> []" by (auto simp: full_object_def)
  with read_law [OF _ 6(2,3) inner] 6(1,3) show ?case
    unfolding it both_items_NewCombinedIterator set_append image_Un set_filterTuples by auto
next
  case (7 ob r u t)
  let ?found = "List.find (\<lambda>t. same_key t (NewTupleKey ob r u)) tuples"
  from 7(3) have "(case ?found of Some t \<Rightarrow> Inr \<lparr>tup_key = t, tup_timestamp = 0\<rparr>
      | None \<Rightarrow> rd_ReadUserTuple rd store \<lparr>rf_Object = ob, rf_Relation = r, rf_User = u, rf_Conditions = []\<rparr>) = Inr t"
    by (simp add: as_reader_def combined_user_tuple [OF 7(2)] cong: option.case_cong)
  then show ?case
    using user_law [OF _ 7(2)] 7(1) by (cases ?found) (auto simp: find_Some_iff)
next
  case (8 ob r u tk)
  let ?found = "List.find (\<lambda>t. same_key t (NewTupleKey ob r u)) tuples"
  from 8(3) have "(case ?found of Some t \<Rightarrow> Inr \<lparr>tup_key = t, tup_timestamp = 0\<rparr>
      | None \<Rightarrow> rd_ReadUserTuple rd store \<lparr>rf_Object = ob, rf_Relation = r, rf_User = u, rf_Conditions = []\<rparr>) =
      Inl ErrNotFound"
    by (simp add: as_reader_def combined_user_tuple [OF 8(2)] cong: option.case_cong)
  then show ?case
    using no_user_law [OF _ 8(2)] 8(1,4) by (cases ?found) (auto simp: find_None_iff)
next
  case (9 ob r refs it)
  then obtain iter2 where inner: "rd_ReadUsersetTuples rd store \<lparr>uf_Object = ob, uf_Relation = r,
      uf_AllowedUserTypeRestrictions = refs, uf_Conditions = []\<rparr> = Inr iter2"
    and it: "it = NewCombinedIterator [Some (Inl (NewStaticIterator
      (filter (\<lambda>t. tupleMatchesAllowedUserTypeRestrictions t refs) (filterTuples tuples ob r [])))),
      Some (Inr iter2)]"
    by (auto simp: as_reader_def combined_ReadUsersetTuples_def Let_def split: sum.splits)
  from 9(2) have "ob \<noteq> []" by (auto simp: full_object_def)
  moreover have "tupleMatchesAllowedUserTypeRestrictions t refs \<longleftrightarrow>
      (\<exists>ref \<in> set refs. restriction_matches (tk_user (tup_key t)) ref)" for t
    using 9(5) restriction_on_record
    by (auto simp: tupleMatchesAllowedUserTypeRestrictions_def Let_def)
  ultimately show ?case
    using usersets_law [OF _ 9(2-5) inner] 9(1,3)
    unfolding it both_items_NewCombinedIterator set_append image_Un
    by (simp only: set_filter_filterTuples [where P = "\<lambda>tk. \<exists>ref \<in> set refs. restriction_matches (tk_user tk) ref"]
        set_filterTuples) auto
next
  case (10 tk tk')
  then show ?case
    using unique_law
    by (auto simp: contextual_ok_def distinct_map inj_on_def same_key_iff dest: sym)
qed

text \<open>The combined reader over the memory backend.\<close>

interpretation over_memory: contextual_reader "memory_reader srt s" "\<lambda>it. map AsTuple (mi_records it)"
    "tuples_ok s store" store "set (stored s store)" tuples ordered
  for srt s store tuples ordered
  by unfold_locales



end
