(* ===== verification/Conditions.thy ===== *)
theory Conditions
  imports Tuple_Validation Tuple_Iterators "HOL-Library.AList"
begin

text \<open>
  The conditions of relationship tuples: parameter types and their conversions
  (\<open>internal/condition/types\<close>), compiling and evaluating a condition
  (\<open>internal/condition/condition.go\<close>), inline expressions (\<open>inline.go\<close>) and the evaluation for a
  tuple (\<open>eval/eval.go\<close>, \<open>BuildTupleKeyConditionFilter\<close> of \<open>internal/checkutil\<close>).

  Expressions are compiled and run by the package cel-go, which is a parameter: the record \<open>cel\<close>.
  Parsing of durations, times, IP addresses and decimal numbers is the record \<open>go_lib\<close>.
\<close>

section \<open>Errors\<close>

text \<open>
  \<open>CErr\<close> is an error made of a text; \<open>CWrap\<close> one of a text and a wrapped error; \<open>CPanic\<close> is no error
  value, the code panics there.
\<close>

datatype cond_error =
    CErr string
  | CWrap string cond_error
  | CompilationError string cond_error
  | ParameterTypeError string cond_error
  | EvaluationError string cond_error
  | FatalError cond_error
  | CPanic string

fun as_ParameterTypeError :: "cond_error \<Rightarrow> bool" where
  "as_ParameterTypeError (ParameterTypeError _ _) = True"
| "as_ParameterTypeError (CWrap _ e) = as_ParameterTypeError e"
| "as_ParameterTypeError (CompilationError _ e) = as_ParameterTypeError e"
| "as_ParameterTypeError (EvaluationError _ e) = as_ParameterTypeError e"
| "as_ParameterTypeError (FatalError e) = as_ParameterTypeError e"
| "as_ParameterTypeError _ = False"

fun cond_Error :: "cond_error \<Rightarrow> string" where
  "cond_Error (CErr msg) = msg"
| "cond_Error (CWrap msg e) = msg @ '': '' @ cond_Error e"
| "cond_Error (CompilationError c e) =
     ''failed to compile expression on condition '' @ [CHR 0x27] @ c @ [CHR 0x27] @ '' - '' @ cond_Error e"
| "cond_Error (ParameterTypeError c e) =
     ''parameter type error on condition '' @ [CHR 0x27] @ c @ [CHR 0x27] @ '' - '' @ cond_Error e"
| "cond_Error (EvaluationError c e) =
     (if as_ParameterTypeError e then cond_Error e else [CHR 0x27] @ c @ [CHR 0x27] @ '' - '' @ cond_Error e)"
| "cond_Error (FatalError e) = cond_Error e"
| "cond_Error (CPanic msg) = msg"

section \<open>Values\<close>

text \<open>
  A value of type \<open>any\<close>: what \<open>structpb.Value.AsInterface\<close> returns, and what the conversions make of
  it. A \<open>float64\<close> is its bits; \<open>AnyExternal\<close> is a value of a library type (a time, an IP address).
\<close>

datatype 'x any =
    AnyNil
  | AnyBool bool
  | AnyFloat64 nat
  | AnyString string
  | AnySlice "'x any list"
  | AnyMap "(string \<times> 'x any) list"
  | AnyInt64 int
  | AnyUint64 nat
  | AnyExternal param_type_name 'x

fun AsInterface :: "pb_value \<Rightarrow> 'x any" where
  "AsInterface (NumberValue n) = AnyFloat64 n"
| "AsInterface (StringValue s) = AnyString s"
| "AsInterface (BoolValue b) = AnyBool b"
| "AsInterface (StructValue fs) = AnyMap (map (\<lambda>(k, v). (k, AsInterface v)) fs)"
| "AsInterface (ListValue vs) = AnySlice (map AsInterface vs)"
| "AsInterface _ = AnyNil"

text \<open>
  A \<open>big.Float\<close> is \<open>m * 2 ^ e\<close> or an infinity; \<open>big.NewFloat\<close> of a \<open>float64\<close>, which panics on a NaN,
  \<open>IsInt\<close>, and \<open>Int64\<close>, which truncates and saturates.
\<close>

datatype big_float = BigFinite int int | BigInf bool

definition NewFloat :: "nat \<Rightarrow> big_float option" where
  "NewFloat bits =
     (let negative = (bits div 2 ^ 63) mod 2 = 1; ex = (bits div 2 ^ 52) mod 2048; frac = bits mod 2 ^ 52;
          signed = (\<lambda>n. if negative then - int n else int n) in
      if ex = 2047 then (if frac = 0 then Some (BigInf negative) else None)
      else if ex = 0 then Some (BigFinite (signed frac) (- 1074))
      else Some (BigFinite (signed (2 ^ 52 + frac)) (int ex - 1075)))"

definition IsInt :: "big_float \<Rightarrow> bool" where
  "IsInt x = (case x of BigInf _ \<Rightarrow> False | BigFinite m e \<Rightarrow> 0 \<le> e \<or> 2 ^ nat (- e) dvd m)"

definition truncate_big :: "int \<Rightarrow> int \<Rightarrow> int" where
  "truncate_big m e = (if 0 \<le> e then m * 2 ^ nat e else sgn m * (\<bar>m\<bar> div 2 ^ nat (- e)))"

definition Int64 :: "big_float \<Rightarrow> int" where
  "Int64 x = (case x of BigInf negative \<Rightarrow> if negative then - (2 ^ 63) else 2 ^ 63 - 1
     | BigFinite m e \<Rightarrow> max (- (2 ^ 63)) (min (2 ^ 63 - 1) (truncate_big m e)))"

text \<open>
  \<open>lib_ParseFloat\<close> is \<open>big.ParseFloat(s, 10, 64, 0)\<close>, \<open>lib_Float64\<close> the \<open>float64\<close> that equals a
  \<open>big.Float\<close>, if there is one.
\<close>

record 'x go_lib =
  lib_ParseFloat :: "string \<Rightarrow> big_float option"
  lib_Float64 :: "big_float \<Rightarrow> nat option"
  lib_ParseDuration :: "string \<Rightarrow> 'x option"
  lib_ParseTime :: "string \<Rightarrow> 'x option"
  lib_ParseIPAddress :: "string \<Rightarrow> 'x option"

section \<open>Parameter types\<close>

text \<open>A parameter type: the converter and the CEL type are those registered for its name.\<close>

datatype parameter_type = ParameterType (pt_name: param_type_name) (pt_genericTypes: "parameter_type list")

definition paramTypeString :: "(param_type_name \<times> string) list" where
  "paramTypeString =
     [(TYPE_NAME_ANY, ''any''), (TYPE_NAME_BOOL, ''bool''), (TYPE_NAME_STRING, ''string''),
      (TYPE_NAME_INT, ''int''), (TYPE_NAME_UINT, ''uint''), (TYPE_NAME_DOUBLE, ''double''),
      (TYPE_NAME_DURATION, ''duration''), (TYPE_NAME_TIMESTAMP, ''timestamp''), (TYPE_NAME_MAP, ''map''),
      (TYPE_NAME_LIST, ''list''), (TYPE_NAME_IPADDRESS, ''ipaddress'')]"

definition typeNameFromString :: "(string \<times> param_type_name) list" where
  "typeNameFromString = map (\<lambda>(enum, str). (str, enum)) paramTypeString"

definition TypeNameFromString :: "string \<Rightarrow> param_type_name option" where
  "TypeNameFromString s = map_of typeNameFromString s"

text \<open>How many generic types a registered type takes; \<open>None\<close> for a name that is not registered.\<close>

definition genericTypeCount :: "param_type_name \<Rightarrow> nat option" where
  "genericTypeCount n = (case n of TYPE_NAME_UNSPECIFIED \<Rightarrow> None
     | TYPE_NAME_MAP \<Rightarrow> Some 1 | TYPE_NAME_LIST \<Rightarrow> Some 1 | _ \<Rightarrow> Some 0)"

fun DecodeParameterType :: "param_type_ref \<Rightarrow> (cond_error, parameter_type) result"
and decode_generics :: "param_type_ref list \<Rightarrow> (cond_error, parameter_type list) result" where
  "DecodeParameterType (TypeRef n gs) =
     (case genericTypeCount n of None \<Rightarrow> Inl (CErr ''unknown condition parameter type'')
      | Some count \<Rightarrow>
          if length gs \<noteq> count then Inl (CErr ''wrong number of generic types'')
          else (case decode_generics gs of Inl e \<Rightarrow> Inl e
            | Inr genericTypes \<Rightarrow> Inr (ParameterType n genericTypes)))"
| "decode_generics [] = Inr []"
| "decode_generics (g # gs) =
     (case DecodeParameterType g of Inl e \<Rightarrow> Inl e
      | Inr t \<Rightarrow> (case decode_generics gs of Inl e \<Rightarrow> Inl e | Inr ts \<Rightarrow> Inr (t # ts)))"

text \<open>The name of an enum value, which \<open>%s\<close> prints.\<close>

definition type_name_String :: "param_type_name \<Rightarrow> string" where
  "type_name_String n = (case n of
     TYPE_NAME_UNSPECIFIED \<Rightarrow> ''TYPE_NAME_UNSPECIFIED'' | TYPE_NAME_ANY \<Rightarrow> ''TYPE_NAME_ANY''
   | TYPE_NAME_BOOL \<Rightarrow> ''TYPE_NAME_BOOL'' | TYPE_NAME_STRING \<Rightarrow> ''TYPE_NAME_STRING''
   | TYPE_NAME_INT \<Rightarrow> ''TYPE_NAME_INT'' | TYPE_NAME_UINT \<Rightarrow> ''TYPE_NAME_UINT''
   | TYPE_NAME_DOUBLE \<Rightarrow> ''TYPE_NAME_DOUBLE'' | TYPE_NAME_DURATION \<Rightarrow> ''TYPE_NAME_DURATION''
   | TYPE_NAME_TIMESTAMP \<Rightarrow> ''TYPE_NAME_TIMESTAMP'' | TYPE_NAME_MAP \<Rightarrow> ''TYPE_NAME_MAP''
   | TYPE_NAME_LIST \<Rightarrow> ''TYPE_NAME_LIST'' | TYPE_NAME_IPADDRESS \<Rightarrow> ''TYPE_NAME_IPADDRESS'')"

fun join_strings :: "string list \<Rightarrow> string \<Rightarrow> string" where
  "join_strings [] sep = []"
| "join_strings [s] sep = s"
| "join_strings (s # ss) sep = s @ sep @ join_strings ss sep"

fun ParameterType_String :: "parameter_type \<Rightarrow> string" where
  "ParameterType_String (ParameterType n gs) =
     (if gs \<noteq> [] then
        type_name_String n @ ''<'' @ join_strings (map ParameterType_String gs) '', '' @ ''>''
      else (case map_of paramTypeString n of None \<Rightarrow> ''unknown'' | Some str \<Rightarrow> str))"

datatype cel_type =
    Cel_Any | Cel_Bool | Cel_String | Cel_Int | Cel_Uint | Cel_Double | Cel_Duration | Cel_Timestamp
  | Cel_Map cel_type cel_type | Cel_List cel_type | Cel_Object string

fun CelType :: "parameter_type \<Rightarrow> cel_type" where
  "CelType (ParameterType n gs) = (case n of
     TYPE_NAME_BOOL \<Rightarrow> Cel_Bool | TYPE_NAME_STRING \<Rightarrow> Cel_String | TYPE_NAME_INT \<Rightarrow> Cel_Int
   | TYPE_NAME_UINT \<Rightarrow> Cel_Uint | TYPE_NAME_DOUBLE \<Rightarrow> Cel_Double | TYPE_NAME_DURATION \<Rightarrow> Cel_Duration
   | TYPE_NAME_TIMESTAMP \<Rightarrow> Cel_Timestamp | TYPE_NAME_IPADDRESS \<Rightarrow> Cel_Object ''IPAddress''
   | TYPE_NAME_MAP \<Rightarrow> (case gs of [] \<Rightarrow> Cel_Any | g # _ \<Rightarrow> Cel_Map Cel_String (CelType g))
   | TYPE_NAME_LIST \<Rightarrow> (case gs of [] \<Rightarrow> Cel_Any | g # _ \<Rightarrow> Cel_List (CelType g))
   | _ \<Rightarrow> Cel_Any)"

section \<open>Converting values\<close>

text \<open>\<open>big.Float\<close> to the numeric types; the last case is the type switch's default.\<close>

definition convert_big :: "'x go_lib \<Rightarrow> param_type_name \<Rightarrow> big_float \<Rightarrow> (cond_error, 'x any) result" where
  "convert_big lib n bigFloat =
     (if n = TYPE_NAME_INT then
        (if \<not> IsInt bigFloat then Inl (CErr ''expected an int value'')
         else Inr (AnyInt64 (Int64 bigFloat)))
      else if n = TYPE_NAME_UINT then
        (if \<not> IsInt bigFloat then Inl (CErr ''expected a uint value'')
         else let numericValue = Int64 bigFloat in
           if numericValue < 0 then Inl (CErr ''expected a uint value'')
           else Inr (AnyUint64 (nat numericValue)))
      else if n = TYPE_NAME_DOUBLE then
        (case lib_Float64 lib bigFloat of None \<Rightarrow> Inl (CErr ''number cannot be represented as a float64'')
         | Some bits \<Rightarrow> Inr (AnyFloat64 bits))
      else Inl (CErr ''unsupported numeric type''))"

definition numericTypeConverterFunc :: "'x go_lib \<Rightarrow> param_type_name \<Rightarrow> 'x any \<Rightarrow>
    (cond_error, 'x any) result" where
  "numericTypeConverterFunc lib n value =
     (if (case value of AnyInt64 _ \<Rightarrow> n = TYPE_NAME_INT | AnyUint64 _ \<Rightarrow> n = TYPE_NAME_UINT
          | AnyFloat64 _ \<Rightarrow> n = TYPE_NAME_DOUBLE | _ \<Rightarrow> False) then Inr value
      else case value of
        AnyFloat64 bits \<Rightarrow> (case NewFloat bits of None \<Rightarrow> Inl (CPanic ''NaN'') | Some b \<Rightarrow> convert_big lib n b)
      | AnyString s \<Rightarrow> (case lib_ParseFloat lib s of None \<Rightarrow> Inl (CErr ''found invalid string value'')
          | Some b \<Rightarrow> convert_big lib n b)
      | _ \<Rightarrow> Inl (CErr ''expected a number''))"

definition external_converter :: "(string \<Rightarrow> 'x option) \<Rightarrow> param_type_name \<Rightarrow> string \<Rightarrow> 'x any \<Rightarrow>
    (cond_error, 'x any) result" where
  "external_converter parse n msg value =
     (case value of AnyString s \<Rightarrow>
        (case parse s of None \<Rightarrow> Inl (CErr msg) | Some d \<Rightarrow> Inr (AnyExternal n d))
      | _ \<Rightarrow> Inl (CErr msg))"

definition ipaddressTypeConverterFunc :: "'x go_lib \<Rightarrow> 'x any \<Rightarrow> (cond_error, 'x any) result" where
  "ipaddressTypeConverterFunc lib value =
     (case value of AnyExternal TYPE_NAME_IPADDRESS _ \<Rightarrow> Inr value
      | _ \<Rightarrow> external_converter (lib_ParseIPAddress lib) TYPE_NAME_IPADDRESS
          ''expected a well-formed IP address'' value)"

fun convert_items :: "('a \<Rightarrow> (cond_error, 'b) result) \<Rightarrow> 'a list \<Rightarrow> (cond_error, 'b list) result" where
  "convert_items f [] = Inr []"
| "convert_items f (x # xs) =
     (case f x of Inl e \<Rightarrow> Inl (CWrap ''found an invalid list item'' e)
      | Inr y \<Rightarrow> (case convert_items f xs of Inl e \<Rightarrow> Inl e | Inr ys \<Rightarrow> Inr (y # ys)))"

fun convert_entries :: "('a \<Rightarrow> (cond_error, 'b) result) \<Rightarrow> (string \<times> 'a) list \<Rightarrow>
    (cond_error, (string \<times> 'b) list) result" where
  "convert_entries f [] = Inr []"
| "convert_entries f ((key, item) # rest) =
     (case f item of Inl e \<Rightarrow> Inl (CWrap ''found an invalid value for key'' e)
      | Inr y \<Rightarrow> (case convert_entries f rest of Inl e \<Rightarrow> Inl e | Inr ys \<Rightarrow> Inr ((key, y) # ys)))"

fun ConvertValue :: "'x go_lib \<Rightarrow> parameter_type \<Rightarrow> 'x any \<Rightarrow> (cond_error, 'x any) result" where
  "ConvertValue lib (ParameterType n gs) value = (case n of
     TYPE_NAME_ANY \<Rightarrow> Inr value
   | TYPE_NAME_BOOL \<Rightarrow> (case value of AnyBool _ \<Rightarrow> Inr value | _ \<Rightarrow> Inl (CErr ''expected type value''))
   | TYPE_NAME_STRING \<Rightarrow> (case value of AnyString _ \<Rightarrow> Inr value | _ \<Rightarrow> Inl (CErr ''expected type value''))
   | TYPE_NAME_INT \<Rightarrow> numericTypeConverterFunc lib n value
   | TYPE_NAME_UINT \<Rightarrow> numericTypeConverterFunc lib n value
   | TYPE_NAME_DOUBLE \<Rightarrow> numericTypeConverterFunc lib n value
   | TYPE_NAME_DURATION \<Rightarrow> external_converter (lib_ParseDuration lib) n ''expected a duration string'' value
   | TYPE_NAME_TIMESTAMP \<Rightarrow>
       external_converter (lib_ParseTime lib) n ''expected RFC 3339 formatted timestamp string'' value
   | TYPE_NAME_IPADDRESS \<Rightarrow> ipaddressTypeConverterFunc lib value
   | TYPE_NAME_MAP \<Rightarrow> (case value of AnyMap v \<Rightarrow>
        (case gs of [] \<Rightarrow> (if v = [] then Inr (AnyMap []) else Inl (CPanic ''index out of range''))
         | g # _ \<Rightarrow> (case convert_entries (ConvertValue lib g) v of Inl e \<Rightarrow> Inl e
             | Inr converted \<Rightarrow> Inr (AnyMap converted)))
      | _ \<Rightarrow> Inl (CErr ''map requires a map''))
   | TYPE_NAME_LIST \<Rightarrow> (case value of AnySlice v \<Rightarrow>
        (case gs of [] \<Rightarrow> (if v = [] then Inr (AnySlice []) else Inl (CPanic ''index out of range''))
         | g # _ \<Rightarrow> (case convert_items (ConvertValue lib g) v of Inl e \<Rightarrow> Inl e
             | Inr converted \<Rightarrow> Inr (AnySlice converted)))
      | _ \<Rightarrow> Inl (CErr ''list requires a list''))
   | TYPE_NAME_UNSPECIFIED \<Rightarrow> Inl (CPanic ''nil converter''))"

section \<open>Evaluable conditions\<close>

datatype program_opt =
    OptPartialEval | OptTrackCost | CostLimit nat | InterruptCheckFrequency nat

text \<open>What CEL returns: unknown, or a value whose conversion to a native bool is given.\<close>

datatype cel_out = CelUnknown | CelValue "(string, bool option) result"

datatype cel_expr =
    Expr_Literal
  | Expr_Ident string
  | Expr_Select cel_expr
  | Expr_Call "cel_expr option" "cel_expr list"
  | Expr_List "cel_expr list"
  | Expr_Map "(cel_expr \<times> cel_expr) list"
  | Expr_Struct "cel_expr list"
  | Expr_Comprehension cel_expr string "string option" string cel_expr cel_expr cel_expr cel_expr

text \<open>
  cel-go: \<open>cel_Extend\<close> makes an environment from variables, \<open>cel_CompileSource\<close> an AST and its
  output type, \<open>cel_Program\<close> a program; \<open>cel_PartialVars\<close> gives the names that an activation
  resolves, \<open>cel_ContextEval\<close> the result and the cost; \<open>cel_Parse\<close> parses without checking.
\<close>

record ('e, 'a, 'p, 'x) cel =
  cel_Extend :: "(string \<times> cel_type) list \<Rightarrow> (string, 'e) result"
  cel_CompileSource :: "'e \<Rightarrow> string \<Rightarrow> string \<Rightarrow> (string, 'a \<times> cel_type) result"
  cel_Program :: "'e \<Rightarrow> 'a \<Rightarrow> program_opt list \<Rightarrow> (string, 'p) result"
  cel_PartialVars :: "'e \<Rightarrow> (string \<times> 'x any) list \<Rightarrow> (string, string list) result"
  cel_ContextEval :: "'p \<Rightarrow> 'e \<Rightarrow> (string \<times> 'x any) list \<Rightarrow> (string, cel_out \<times> nat option) result"
  cel_Parse :: "string \<Rightarrow> (string, cel_expr) result"
  cel_lib :: "'x go_lib"

record ('e, 'p) evaluable_condition =
  ec_Condition :: condition
  ec_celProgramOpts :: "program_opt list"
  ec_celEnv :: "'e option"
  ec_celProgram :: "'p option"
  ec_compileOnce :: bool

record evaluation_result =
  er_Cost :: nat
  er_ConditionMet :: bool
  er_MissingParameters :: "string list"

definition NewUncompiled :: "condition \<Rightarrow> ('e, 'p) evaluable_condition" where
  "NewUncompiled c = \<lparr>ec_Condition = c, ec_celProgramOpts = [], ec_celEnv = None,
     ec_celProgram = None, ec_compileOnce = False\<rparr>"

definition WithTrackEvaluationCost :: "('e, 'p) evaluable_condition \<Rightarrow> ('e, 'p) evaluable_condition" where
  "WithTrackEvaluationCost e = e\<lparr>ec_celProgramOpts := ec_celProgramOpts e @ [OptTrackCost]\<rparr>"

definition WithMaxEvaluationCost :: "nat \<Rightarrow> ('e, 'p) evaluable_condition \<Rightarrow>
    ('e, 'p) evaluable_condition" where
  "WithMaxEvaluationCost cost e = e\<lparr>ec_celProgramOpts := ec_celProgramOpts e @ [CostLimit cost]\<rparr>"

definition WithInterruptCheckFrequency :: "nat \<Rightarrow> ('e, 'p) evaluable_condition \<Rightarrow>
    ('e, 'p) evaluable_condition" where
  "WithInterruptCheckFrequency freq e =
     e\<lparr>ec_celProgramOpts := ec_celProgramOpts e @ [InterruptCheckFrequency freq]\<rparr>"

fun decode_parameters :: "(string \<times> param_type_ref) list \<Rightarrow>
    (cond_error, (string \<times> parameter_type) list) result" where
  "decode_parameters [] = Inr []"
| "decode_parameters ((paramName, ref) # rest) =
     (case DecodeParameterType ref of
        Inl e \<Rightarrow> Inl (CWrap (''failed to decode parameter type for parameter '' @ paramName) e)
      | Inr t \<Rightarrow> (case decode_parameters rest of Inl e \<Rightarrow> Inl e | Inr ts \<Rightarrow> Inr ((paramName, t) # ts)))"

text \<open>\<open>compile\<close> and the method \<open>Compile\<close>, whose \<open>sync.Once\<close> runs it once: (error, condition).\<close>

definition ec_compile :: "('e, 'a, 'p, 'x) cel \<Rightarrow> ('e, 'p) evaluable_condition \<Rightarrow>
    cond_error option \<times> ('e, 'p) evaluable_condition" where
  "ec_compile cel e =
     (let c = ec_Condition e; failed = (\<lambda>cause. Some (CompilationError (c_name c) cause)) in
      case decode_parameters (c_params c) of Inl err \<Rightarrow> (failed err, e)
      | Inr types \<Rightarrow> (case cel_Extend cel (map (\<lambda>(k, t). (k, CelType t)) types) of
          Inl err \<Rightarrow> (failed (CErr err), e)
        | Inr env \<Rightarrow> (case cel_CompileSource cel env (c_expression c) (c_name c) of
            Inl err \<Rightarrow> (failed (CErr err), e)
          | Inr (ast, outputType) \<Rightarrow>
             (let e = e\<lparr>ec_celProgramOpts := ec_celProgramOpts e @ [OptPartialEval]\<rparr> in
              case cel_Program cel env ast (ec_celProgramOpts e) of
                Inl err \<Rightarrow> (failed (CWrap ''condition expression construction'' (CErr err)), e)
              | Inr prg \<Rightarrow>
                  if outputType \<noteq> Cel_Bool then
                    (failed (CErr ''expected a bool condition expression output''), e)
                  else (None, e\<lparr>ec_celEnv := Some env, ec_celProgram := Some prg\<rparr>)))))"

definition ec_Compile :: "('e, 'a, 'p, 'x) cel \<Rightarrow> ('e, 'p) evaluable_condition \<Rightarrow>
    cond_error option \<times> ('e, 'p) evaluable_condition" where
  "ec_Compile cel e =
     (if ec_compileOnce e then (None, e) else ec_compile cel (e\<lparr>ec_compileOnce := True\<rparr>))"

definition NewCompiled :: "('e, 'a, 'p, 'x) cel \<Rightarrow> condition \<Rightarrow>
    (cond_error, ('e, 'p) evaluable_condition) result" where
  "NewCompiled cel c =
     (case ec_Compile cel (NewUncompiled c) of (Some err, _) \<Rightarrow> Inl err | (None, compiled) \<Rightarrow> Inr compiled)"

fun cast_parameters :: "'x go_lib \<Rightarrow> string \<Rightarrow> pb_struct \<Rightarrow> (string \<times> param_type_ref) list \<Rightarrow>
    (cond_error, (string \<times> 'x any) list) result" where
  "cast_parameters lib name contextMap [] = Inr []"
| "cast_parameters lib name contextMap ((parameterKey, ref) # rest) =
     (case map_of contextMap parameterKey of None \<Rightarrow> cast_parameters lib name contextMap rest
      | Some contextValue \<Rightarrow>
         (case DecodeParameterType ref of
            Inl err \<Rightarrow> Inl (ParameterTypeError name (CWrap ''failed to decode condition parameter type'' err))
          | Inr varType \<Rightarrow> (case ConvertValue lib varType (AsInterface contextValue) of
              Inl err \<Rightarrow> Inl (ParameterTypeError name
                (CWrap (''failed to convert context parameter '' @ parameterKey) err))
            | Inr convertedParam \<Rightarrow> (case cast_parameters lib name contextMap rest of Inl e \<Rightarrow> Inl e
                | Inr converted \<Rightarrow> Inr ((parameterKey, convertedParam) # converted)))))"

definition CastContextToTypedParameters :: "'x go_lib \<Rightarrow> condition \<Rightarrow> pb_struct \<Rightarrow>
    (cond_error, (string \<times> 'x any) list) result" where
  "CastContextToTypedParameters lib c contextMap =
     (if contextMap = [] then Inr []
      else if c_params c = [] then
        Inl (ParameterTypeError (c_name c) (CErr ''no parameters defined for the condition''))
      else cast_parameters lib (c_name c) contextMap (c_params c))"

definition merge_contexts :: "pb_struct option list \<Rightarrow> pb_struct" where
  "merge_contexts contextMaps =
     (let fields = (\<lambda>m. case m of None \<Rightarrow> [] | Some fs \<Rightarrow> fs) in
      fold (\<lambda>m acc. fold (\<lambda>(k, v). AList.update k v) (fields m) acc) (tl contextMaps)
        (fields (hd contextMaps)))"

text \<open>
  \<open>Evaluate\<close>. After a compilation that failed the program is nil, and the second call panics on it.
\<close>

definition ec_Evaluate :: "('e, 'a, 'p, 'x) cel \<Rightarrow> ('e, 'p) evaluable_condition \<Rightarrow>
    pb_struct option list \<Rightarrow>
    (cond_error, evaluation_result) result \<times> ('e, 'p) evaluable_condition" where
  "ec_Evaluate cel e contextMaps =
     (case ec_Compile cel e of (Some err, e) \<Rightarrow> (Inl (EvaluationError (c_name (ec_Condition e)) err), e)
      | (None, e) \<Rightarrow>
         (let name = c_name (ec_Condition e);
              clonedContextFields = merge_contexts contextMaps
          in (case CastContextToTypedParameters (cel_lib cel) (ec_Condition e) clonedContextFields of
                Inl err \<Rightarrow> Inl (EvaluationError name err)
              | Inr typedParams \<Rightarrow> (case (ec_celEnv e, ec_celProgram e) of
                  (Some env, Some program) \<Rightarrow>
                    (case cel_PartialVars cel env typedParams of
                       Inl err \<Rightarrow> Inl (EvaluationError name
                         (CWrap ''failed to construct condition partial vars'' (CErr err)))
                     | Inr names \<Rightarrow>
                        (let missing = sort (filter (\<lambda>key. key \<notin> set names)
                               (map fst (c_params (ec_Condition e)))) in
                         case cel_ContextEval cel program env typedParams of
                           Inl err \<Rightarrow> Inl (EvaluationError name
                             (CWrap ''failed to evaluate condition expression'' (CErr err)))
                         | Inr (out, details) \<Rightarrow>
                            (let cost = (case details of None \<Rightarrow> 0 | Some c \<Rightarrow> c) in
                             case out of
                               CelUnknown \<Rightarrow> Inr \<lparr>er_Cost = cost, er_ConditionMet = False,
                                 er_MissingParameters = missing\<rparr>
                             | CelValue (Inl err) \<Rightarrow> Inl (EvaluationError name
                                 (CWrap ''failed to convert condition output to bool'' (CErr err)))
                             | CelValue (Inr None) \<Rightarrow> Inl (EvaluationError name
                                 (CErr ''expected CEL type conversion to return native Go bool''))
                             | CelValue (Inr (Some conditionMet)) \<Rightarrow>
                                 Inr \<lparr>er_Cost = cost, er_ConditionMet = conditionMet,
                                   er_MissingParameters = missing\<rparr>)))
                | _ \<Rightarrow> Inl (CPanic ''nil pointer dereference''))), e))"

section \<open>Inline expressions\<close>

text \<open>\<open>strings.HasSuffix(typeStr, ">")\<close>; the recursion is on the text between the brackets.\<close>

function parseTypeRef :: "string \<Rightarrow> (cond_error, param_type_ref) result" where
  "parseTypeRef typeStr =
     (let open_pos = IndexByte typeStr (CHR ''<'') in
      if open_pos \<ge> 0 then
        (if typeStr = [] \<or> List.last typeStr \<noteq> CHR ''>'' then
           Inl (CErr ''malformed generic type: missing closing >'')
         else case TypeNameFromString (take (nat open_pos) typeStr) of
            None \<Rightarrow> Inl (CErr ''unknown parameter type'')
          | Some outerName \<Rightarrow>
              (case parseTypeRef (butlast (drop (nat open_pos + 1) typeStr)) of Inl err \<Rightarrow> Inl err
               | Inr innerRef \<Rightarrow> Inr (TypeRef outerName [innerRef])))
      else case TypeNameFromString typeStr of
        None \<Rightarrow> Inl (CErr ''unknown parameter type'')
      | Some typeName \<Rightarrow>
          (case DecodeParameterType (TypeRef typeName []) of
             Inl _ \<Rightarrow> Inl (CErr ''parameter type requires a generic element type'')
           | Inr _ \<Rightarrow> Inr (TypeRef typeName [])))"
  by pat_completeness auto
termination
  by (relation "measure length") auto

fun declared_types :: "(string \<times> pb_value) list \<Rightarrow> (string \<times> param_type_ref) list \<Rightarrow>
    (cond_error, (string \<times> param_type_ref) list) result" where
  "declared_types [] declaredParams = Inr declaredParams"
| "declared_types ((paramName, typeVal) # rest) declaredParams =
     (case parseTypeRef (case typeVal of StringValue s \<Rightarrow> s | _ \<Rightarrow> []) of
        Inl err \<Rightarrow> Inl (CWrap (''$expression: invalid parameter type for parameter '' @ paramName) err)
      | Inr typeRef \<Rightarrow> declared_types rest (AList.update paramName typeRef declaredParams))"

definition extractDeclaredParameters :: "pb_struct \<Rightarrow> (cond_error, (string \<times> param_type_ref) list) result" where
  "extractDeclaredParameters fs =
     (case map_of fs ''parameters'' of None \<Rightarrow> Inr []
      | Some (StructValue ps) \<Rightarrow> declared_types ps []
      | Some _ \<Rightarrow> Inl (CErr ''$expression: context field parameters must be a struct''))"

text \<open>
  \<open>extractIdents\<close>: the stack is a list with its top first. Children are pushed from the last to the
  first.
\<close>

definition ident_children :: "cel_expr \<Rightarrow> string set \<Rightarrow> (cel_expr \<times> string set) list" where
  "ident_children expr locals = (case expr of
     Expr_Select operand \<Rightarrow> [(operand, locals)]
   | Expr_Call target args \<Rightarrow> map (\<lambda>e. (e, locals)) ((case target of None \<Rightarrow> [] | Some t \<Rightarrow> [t]) @ args)
   | Expr_List elems \<Rightarrow> map (\<lambda>e. (e, locals)) elems
   | Expr_Map es \<Rightarrow> concat (map (\<lambda>(k, v). [(v, locals), (k, locals)]) es)
   | Expr_Struct vs \<Rightarrow> map (\<lambda>e. (e, locals)) vs
   | Expr_Comprehension iterRange iterVar iterVar2 accuVar accuInit loopCond loopStep result \<Rightarrow>
       (let innerLocals = locals \<union> {iterVar, accuVar} \<union> set_option iterVar2 in
        [(iterRange, locals), (accuInit, innerLocals), (loopCond, innerLocals), (loopStep, innerLocals),
         (result, innerLocals)])
   | _ \<Rightarrow> [])"

definition stack_weight :: "(cel_expr \<times> string set) list \<Rightarrow> nat" where
  "stack_weight stack = sum_list (map (\<lambda>(e, _). 6 * size e + 1) stack)"

lemma stack_weight_simps [simp]:
  "stack_weight [] = 0" "stack_weight ((e, l) # st) = 6 * size e + 1 + stack_weight st"
  "stack_weight (xs @ ys) = stack_weight xs + stack_weight ys"
  by (simp_all add: stack_weight_def)

lemma stack_weight_list: "stack_weight (map (\<lambda>e. (e, l)) es) \<le> 6 * size_list size es"
  by (induction es) auto

lemma stack_weight_entries:
  "stack_weight (concat (map (\<lambda>(k, v). [(v, l), (k, l)]) es)) \<le> 6 * size_list (size_prod size size) es"
  by (induction es) auto

lemma ident_children_weight: "stack_weight (ident_children expr l) < 6 * size expr + 1"
proof (cases expr)
  case (Expr_Call target args)
  then show ?thesis
    using stack_weight_list [of l args] by (cases target) (auto simp: ident_children_def)
next
  case (Expr_List es)
  then show ?thesis using stack_weight_list [of l es] by (auto simp: ident_children_def)
next
  case (Expr_Map es)
  then show ?thesis using stack_weight_entries [of l es] by (auto simp: ident_children_def)
next
  case (Expr_Struct es)
  then show ?thesis using stack_weight_list [of l es] by (auto simp: ident_children_def)
qed (auto simp: ident_children_def Let_def)

definition AsIdent :: "cel_expr \<Rightarrow> string option" where
  "AsIdent expr = (case expr of Expr_Ident name \<Rightarrow> Some name | _ \<Rightarrow> None)"

function extract_loop :: "(cel_expr \<times> string set) list \<Rightarrow> string list \<Rightarrow> string list" where
  "extract_loop [] results = results"
| "extract_loop ((expr, locals) # stack) results =
     (case AsIdent expr of
        Some name \<Rightarrow> extract_loop stack (if name \<in> locals then results else results @ [name])
      | None \<Rightarrow> extract_loop (ident_children expr locals @ stack) results)"
  by pat_completeness auto
termination
  by (relation "measure (stack_weight \<circ> fst)") (use ident_children_weight in auto)

definition extractIdents :: "cel_expr \<Rightarrow> string list" where
  "extractIdents expr = extract_loop [(expr, {})] []"

definition compileInlineExpression :: "('e, 'a, 'p, 'x) cel \<Rightarrow> nat \<Rightarrow> nat \<Rightarrow> pb_struct option \<Rightarrow>
    (cond_error, ('e, 'p) evaluable_condition) result" where
  "compileInlineExpression cel maxCost checkFrequency structCtx =
     (let fs = (case structCtx of None \<Rightarrow> [] | Some fs \<Rightarrow> fs) in
      case map_of fs ''expression'' of
        None \<Rightarrow> Inl (CErr ''$expression: missing required context field expression'')
      | Some exprVal \<Rightarrow>
         (let exprStr = (case exprVal of StringValue s \<Rightarrow> s | _ \<Rightarrow> []) in
          if exprStr = [] then Inl (CErr ''$expression: context field expression must be a non-empty string'')
          else case extractDeclaredParameters fs of Inl err \<Rightarrow> Inl err
          | Inr declaredParams \<Rightarrow> (case cel_Parse cel exprStr of
              Inl err \<Rightarrow> Inl (CWrap ''$expression: invalid CEL expression'' (CErr err))
            | Inr ast \<Rightarrow>
               (let declaredParams = fold (\<lambda>ident ps.
                      if map_of ps ident = None then ps @ [(ident, TypeRef TYPE_NAME_STRING [])] else ps)
                      (extractIdents ast) declaredParams;
                    ec = WithInterruptCheckFrequency checkFrequency (WithMaxEvaluationCost maxCost
                      (WithTrackEvaluationCost (NewUncompiled \<lparr>c_name = InlineExpressionName,
                        c_params = declaredParams, c_expression = exprStr\<rparr>)))
                in case ec_Compile cel ec of (Some err, _) \<Rightarrow> Inl err | (None, ec) \<Rightarrow> Inr ec))))"

definition FromInlineExpression :: "('e, 'a, 'p, 'x) cel \<Rightarrow> nat \<Rightarrow> nat \<Rightarrow> tuple_key \<Rightarrow>
    (cond_error, ('e, 'p) evaluable_condition) result" where
  "FromInlineExpression cel maxCost checkFrequency tk =
     compileInlineExpression cel maxCost checkFrequency (get_cond_context tk)"

section \<open>Evaluating the condition of a tuple\<close>

text \<open>
  \<open>MaxConditionEvaluationCost()\<close> and \<open>DefaultInterruptCheckFrequency\<close> are configuration.
\<close>

record cond_config =
  cc_maxCost :: nat
  cc_checkFrequency :: nat

definition EvaluateInlineExpression :: "('e, 'a, 'p, 'x) cel \<Rightarrow> cond_config \<Rightarrow> tuple_key \<Rightarrow>
    pb_struct option \<Rightarrow> (cond_error, bool) result" where
  "EvaluateInlineExpression cel cfg tk reqCtx =
     (if get_cond_name tk = [] then Inr True
      else if \<not> IsInlineExpression (get_cond_name tk) then
        Inl (FatalError (EvaluationError (get_cond_name tk) (CErr ''condition is not $expression'')))
      else case FromInlineExpression cel (cc_maxCost cfg) (cc_checkFrequency cfg) tk of
        Inl err \<Rightarrow> Inl (FatalError (EvaluationError InlineExpressionName err))
      | Inr ieCond \<Rightarrow>
         (let reqFields = (if c_params (ec_Condition ieCond) \<noteq> [] then reqCtx else None) in
          case fst (ec_Evaluate cel ieCond [reqFields]) of
            Inl err \<Rightarrow> Inl (FatalError err)
          | Inr result \<Rightarrow>
              if er_MissingParameters result \<noteq> [] then
                Inl (FatalError (EvaluationError InlineExpressionName (CErr ''missing required parameters'')))
              else Inr (er_ConditionMet result)))"

definition EvaluateTupleCondition :: "('e, 'a, 'p, 'x) cel \<Rightarrow> tuple_key \<Rightarrow>
    ('e, 'p) evaluable_condition option \<Rightarrow> pb_struct option \<Rightarrow> (cond_error, bool) result" where
  "EvaluateTupleCondition cel tupleKey evaluableCondition ctx_fields =
     (if get_cond_name tupleKey = [] then Inr True
      else case evaluableCondition of
        None \<Rightarrow> Inl (EvaluationError (get_cond_name tupleKey) (CErr ''condition was not found''))
      | Some ec \<Rightarrow>
          if get_cond_name tupleKey \<noteq> c_name (ec_Condition ec) then
            Inl (EvaluationError (get_cond_name tupleKey) (CErr ''condition was not found''))
          else
            (let contextFields = [case ctx_fields of None \<Rightarrow> Some [] | Some fs \<Rightarrow> Some fs] @
                   (case get_cond_context tupleKey of None \<Rightarrow> [] | Some fs \<Rightarrow> [Some fs])
             in case fst (ec_Evaluate cel ec contextFields) of Inl err \<Rightarrow> Inl err
             | Inr result \<Rightarrow>
                 if er_MissingParameters result \<noteq> [] then
                   Inl (EvaluationError (get_cond_name tupleKey) (CErr ''tuple is missing context parameters''))
                 else Inr (er_ConditionMet result)))"

text \<open>
  The filter of the checker. The conditions of a type system are evaluable conditions, made with the
  options of \<open>newWithoutGraphs\<close>; compiling one again gives what compiling it once gave, so each
  evaluation starts from the uncompiled one. An error of the type \<open>FatalError\<close> is the iterators' fatal
  error.
\<close>

definition evaluable :: "cond_config \<Rightarrow> condition \<Rightarrow> ('e, 'p) evaluable_condition" where
  "evaluable cfg c =
     WithInterruptCheckFrequency (cc_checkFrequency cfg) (WithMaxEvaluationCost (cc_maxCost cfg)
       (WithTrackEvaluationCost (NewUncompiled c)))"

definition filter_error :: "cond_error \<Rightarrow> string iter_err" where
  "filter_error e = (case e of FatalError _ \<Rightarrow> ErrFatal (cond_Error e) | _ \<Rightarrow> ErrOther (cond_Error e))"

definition BuildTupleKeyConditionFilter :: "('e, 'a, 'p, 'x) cel \<Rightarrow> cond_config \<Rightarrow> pb_struct option \<Rightarrow>
    type_system \<Rightarrow> tuple_key \<Rightarrow> (string iter_err, bool) result" where
  "BuildTupleKeyConditionFilter cel cfg reqCtx typesys t =
     (if IsInlineExpression (get_cond_name t) then
        (case EvaluateInlineExpression cel cfg t reqCtx of Inl err \<Rightarrow> Inl (filter_error (FatalError err))
         | Inr met \<Rightarrow> Inr met)
      else
        (case EvaluateTupleCondition cel t
            (map_option (evaluable cfg) (GetCondition typesys (get_cond_name t))) reqCtx of
           Inl err \<Rightarrow> Inl (filter_error err) | Inr met \<Rightarrow> Inr met))"

section \<open>Lemmas\<close>

subsection \<open>Free identifiers\<close>

text \<open>The variables of an expression that no comprehension around them binds.\<close>

inductive free_in :: "string \<Rightarrow> cel_expr \<Rightarrow> bool" where
  ident: "free_in x (Expr_Ident x)"
| select: "free_in x e \<Longrightarrow> free_in x (Expr_Select e)"
| target: "free_in x t \<Longrightarrow> free_in x (Expr_Call (Some t) args)"
| arg: "e \<in> set args \<Longrightarrow> free_in x e \<Longrightarrow> free_in x (Expr_Call t args)"
| elem: "e \<in> set es \<Longrightarrow> free_in x e \<Longrightarrow> free_in x (Expr_List es)"
| entry: "(k, v) \<in> set es \<Longrightarrow> free_in x k \<or> free_in x v \<Longrightarrow> free_in x (Expr_Map es)"
| field: "e \<in> set es \<Longrightarrow> free_in x e \<Longrightarrow> free_in x (Expr_Struct es)"
| range: "free_in x r \<Longrightarrow> free_in x (Expr_Comprehension r v v2 a i c s res)"
| body: "e \<in> {i, c, s, res} \<Longrightarrow> free_in x e \<Longrightarrow> x \<noteq> v \<Longrightarrow> v2 \<noteq> Some x \<Longrightarrow> x \<noteq> a \<Longrightarrow>
    free_in x (Expr_Comprehension r v v2 a i c s res)"

inductive_simps free_in_simps [simp]:
  "free_in x Expr_Literal" "free_in x (Expr_Ident y)" "free_in x (Expr_Select e)"
  "free_in x (Expr_Call t args)" "free_in x (Expr_List es)" "free_in x (Expr_Map es)"
  "free_in x (Expr_Struct es)" "free_in x (Expr_Comprehension r v v2 a i c s res)"

lemma pairs_children:
  "(\<exists>(c, l') \<in> set (concat (map (\<lambda>(k, v). [(v, l), (k, l)]) es)). P c l') \<longleftrightarrow>
     (\<exists>(k, v) \<in> set es. P k l \<or> P v l)"
proof (induction es)
  case (Cons e es)
  show ?case
    unfolding list.map concat.simps set_append bex_Un Cons.IH by (cases e) auto
qed simp

lemma free_in_children:
  assumes "AsIdent e = None"
  shows "free_in x e \<and> x \<notin> l \<longleftrightarrow> (\<exists>(c, l') \<in> set (ident_children e l). free_in x c \<and> x \<notin> l')"
proof (cases e)
  case (Expr_Map es)
  then show ?thesis
    using pairs_children [of l es "\<lambda>c l'. free_in x c \<and> x \<notin> l'"] by (auto simp: ident_children_def)
qed (use assms in \<open>auto simp: AsIdent_def ident_children_def Let_def split: option.splits\<close>)

lemma extract_loop_free:
  "set (extract_loop stack results) =
     set results \<union> {x. \<exists>(e, l) \<in> set stack. free_in x e \<and> x \<notin> l}"
proof (induction stack results rule: extract_loop.induct)
  case (2 expr l stack results)
  show ?case
  proof (cases "AsIdent expr")
    case None
    have "{x. \<exists>(e, l') \<in> set (ident_children expr l @ stack). free_in x e \<and> x \<notin> l'} =
        {x. \<exists>(e, l') \<in> set ((expr, l) # stack). free_in x e \<and> x \<notin> l'}"
      using free_in_children [OF None] by auto
    with 2(1) [OF None] None show ?thesis by simp
  next
    case (Some name)
    then have "expr = Expr_Ident name" by (auto simp: AsIdent_def split: cel_expr.splits)
    with 2(2) [OF Some] Some show ?thesis by auto
  qed
qed simp

subsection \<open>Conversions keep types\<close>

fun has_type :: "parameter_type \<Rightarrow> 'x any \<Rightarrow> bool" where
  "has_type (ParameterType n gs) v = (case n of
     TYPE_NAME_ANY \<Rightarrow> True
   | TYPE_NAME_BOOL \<Rightarrow> (\<exists>b. v = AnyBool b)
   | TYPE_NAME_STRING \<Rightarrow> (\<exists>s. v = AnyString s)
   | TYPE_NAME_INT \<Rightarrow> (\<exists>k. v = AnyInt64 k \<and> - (2 ^ 63) \<le> k \<and> k < 2 ^ 63)
   | TYPE_NAME_UINT \<Rightarrow> (\<exists>k. v = AnyUint64 k \<and> k < 2 ^ 64)
   | TYPE_NAME_DOUBLE \<Rightarrow> (\<exists>bits. v = AnyFloat64 bits)
   | TYPE_NAME_MAP \<Rightarrow> (\<exists>fs. v = AnyMap fs \<and> (case gs of [] \<Rightarrow> fs = [] | g # _ \<Rightarrow> \<forall>f \<in> set fs. has_type g (snd f)))
   | TYPE_NAME_LIST \<Rightarrow> (\<exists>vs. v = AnySlice vs \<and> (case gs of [] \<Rightarrow> vs = [] | g # _ \<Rightarrow> \<forall>x \<in> set vs. has_type g x))
   | TYPE_NAME_UNSPECIFIED \<Rightarrow> False
   | _ \<Rightarrow> (\<exists>x. v = AnyExternal n x))"

lemma convert_items_Inr:
  "convert_items f xs = Inr ys \<Longrightarrow> \<forall>y \<in> set ys. \<exists>x \<in> set xs. f x = Inr y"
  by (induction xs arbitrary: ys) (auto split: sum.splits)

lemma convert_entries_Inr:
  "convert_entries f xs = Inr ys \<Longrightarrow> map fst ys = map fst xs \<and> (\<forall>y \<in> set ys. \<exists>x \<in> set xs. f (snd x) = Inr (snd y))"
proof (induction xs arbitrary: ys)
  case (Cons a xs)
  then show ?case by (cases a) (auto split: sum.splits)
qed simp

lemma Int64_range: "- (2 ^ 63) \<le> Int64 b \<and> Int64 b < 2 ^ 63"
  by (auto simp: Int64_def split: big_float.split)

lemma convert_big_type:
  "n \<in> {TYPE_NAME_INT, TYPE_NAME_UINT, TYPE_NAME_DOUBLE} \<Longrightarrow> convert_big lib n b = Inr w \<Longrightarrow>
     has_type (ParameterType n gs) w"
  using Int64_range [of b] by (auto simp: convert_big_def Let_def split: if_splits option.splits)

text \<open>
  The values that enter a conversion: made from JSON, so that they hold no integer.
\<close>

fun json :: "'x any \<Rightarrow> bool" where
  "json (AnySlice vs) \<longleftrightarrow> (\<forall>v \<in> set vs. json v)"
| "json (AnyMap fs) \<longleftrightarrow> (\<forall>f \<in> set fs. json (snd f))"
| "json (AnyInt64 _) = False"
| "json (AnyUint64 _) = False"
| "json (AnyExternal _ _) = False"
| "json _ = True"

lemma json_AsInterface: "json (AsInterface v)"
  by (induction v) auto

lemma numeric_type:
  assumes "n \<in> {TYPE_NAME_INT, TYPE_NAME_UINT, TYPE_NAME_DOUBLE}" and "json v"
    and "numericTypeConverterFunc lib n v = Inr w"
  shows "has_type (ParameterType n gs) w"
  using assms convert_big_type [of n lib _ w gs]
  by (cases v) (auto simp: numericTypeConverterFunc_def split: if_splits option.splits)

lemma ConvertValue_type: "json v \<Longrightarrow> ConvertValue lib t v = Inr w \<Longrightarrow> has_type t w"
proof (induction t arbitrary: v w)
  case (ParameterType n gs)
  show ?case
  proof (cases n)
    case TYPE_NAME_MAP
    with ParameterType show ?thesis
      by (cases v; cases gs) (fastforce dest: convert_entries_Inr split: sum.splits if_splits)+
  next
    case TYPE_NAME_LIST
    with ParameterType show ?thesis
      by (cases v; cases gs) (fastforce dest: convert_items_Inr split: sum.splits if_splits)+
  qed (use ParameterType.prems numeric_type [of n v lib w gs] in
    \<open>auto simp: external_converter_def ipaddressTypeConverterFunc_def
       split: any.splits option.splits param_type_name.splits\<close>)
qed

subsection \<open>Type specifications\<close>

definition type_string :: "param_type_name \<Rightarrow> string" where
  "type_string n = (case map_of paramTypeString n of None \<Rightarrow> [] | Some str \<Rightarrow> str)"

text \<open>The text of a type, and the types that have one: generic names around a name that takes none.\<close>

fun ref_string :: "param_type_ref \<Rightarrow> string" where
  "ref_string (TypeRef n gs) =
     type_string n @ (case gs of [] \<Rightarrow> [] | g # _ \<Rightarrow> ''<'' @ ref_string g @ ''>'')"

fun nested_ref :: "param_type_ref \<Rightarrow> bool" where
  "nested_ref (TypeRef n gs) \<longleftrightarrow> n \<noteq> TYPE_NAME_UNSPECIFIED \<and>
     (case gs of [] \<Rightarrow> genericTypeCount n = Some 0 | [g] \<Rightarrow> nested_ref g | _ \<Rightarrow> False)"

lemma TypeNameFromString_iff:
  "TypeNameFromString s = Some n \<longleftrightarrow> n \<noteq> TYPE_NAME_UNSPECIFIED \<and> s = type_string n"
  by (cases n) (auto simp: TypeNameFromString_def typeNameFromString_def paramTypeString_def type_string_def)

lemma type_string_no_bracket: "CHR ''<'' \<notin> set (type_string n)"
  by (cases n) (auto simp: type_string_def paramTypeString_def)

lemma decode_leaf: "is_ok (DecodeParameterType (TypeRef n [])) \<longleftrightarrow> genericTypeCount n = Some 0"
  by (cases n) (auto simp: genericTypeCount_def)

declare parseTypeRef.simps [simp del]

lemma parseTypeRef_complete: "nested_ref ref \<Longrightarrow> parseTypeRef (ref_string ref) = Inr ref"
proof (induction ref)
  case (TypeRef n gs)
  have name: "TypeNameFromString (type_string n) = Some n"
    using TypeRef.prems by (simp add: TypeNameFromString_iff)
  show ?case
  proof (cases gs)
    case Nil
    then have "is_ok (DecodeParameterType (TypeRef n []))" using TypeRef.prems by (simp add: decode_leaf)
    then show ?thesis
      using name type_string_no_bracket [of n] Nil by (auto simp: parseTypeRef.simps IndexByte_not_in is_ok_iff)
  next
    case (Cons g rest)
    with TypeRef.prems have g: "rest = []" "nested_ref g" by (auto split: list.splits)
    have s: "ref_string (TypeRef n gs) = type_string n @ CHR ''<'' # ref_string g @ ''>''" using Cons by simp
    have "IndexByte (ref_string (TypeRef n gs)) (CHR ''<'') = int (length (type_string n))"
      unfolding s using type_string_no_bracket [of n] by (rule IndexByte_append)
    then show ?thesis
      unfolding s using TypeRef.IH [of g] name g Cons by (subst parseTypeRef.simps) (simp add: Let_def)
  qed
qed

lemma parseTypeRef_sound: "parseTypeRef s = Inr ref \<Longrightarrow> nested_ref ref \<and> s = ref_string ref"
proof (induction s arbitrary: ref rule: parseTypeRef.induct)
  case (1 s)
  show ?case
  proof (cases "CHR ''<'' \<in> set s")
    case False
    then show ?thesis
      using 1(2) by (auto simp: parseTypeRef.simps [of s] IndexByte_not_in TypeNameFromString_iff
          split: option.splits sum.splits if_splits)
  next
    case True
    then obtain a b where s: "s = a @ CHR ''<'' # b" "CHR ''<'' \<notin> set a" by (rule split_first_byte)
    then have i: "IndexByte s (CHR ''<'') = int (length a)" by (simp add: IndexByte_append)
    from 1(2) obtain n g where n: "List.last s = CHR ''>''" "TypeNameFromString a = Some n"
      and g: "parseTypeRef (butlast b) = Inr g" "ref = TypeRef n [g]"
      unfolding parseTypeRef.simps [of s] i Let_def using s(1)
      by (auto split: if_splits option.splits sum.splits)
    from n(1) s(1) have "b \<noteq> []" "List.last b = CHR ''>''" by (auto split: if_splits)
    then have b: "b = butlast b @ ''>''" by (metis append_butlast_last_id)
    have "nested_ref g \<and> butlast b = ref_string g"
      using 1(1) [of "IndexByte s CHR ''<''" n g] i s(1) n g(1) by simp
    then show ?thesis
      using n(2) b s(1) by (auto simp: g(2) TypeNameFromString_iff)
  qed
qed

subsection \<open>Casting a context\<close>

lemma cast_parameters_Inr:
  "cast_parameters lib name ctx params = Inr ps \<Longrightarrow>
     map fst ps = filter (\<lambda>k. map_of ctx k \<noteq> None) (map fst params) \<and>
     (\<forall>(k, w) \<in> set ps. \<exists>ref v t. (k, ref) \<in> set params \<and> map_of ctx k = Some v \<and>
        DecodeParameterType ref = Inr t \<and> ConvertValue lib t (AsInterface v) = Inr w)"
proof (induction params arbitrary: ps)
  case (Cons p params)
  obtain k ref where p: "p = (k, ref)" by (cases p)
  show ?case
  proof (cases "map_of ctx k")
    case None
    with Cons p show ?thesis by fastforce
  next
    case (Some v)
    from Cons.prems Some obtain t w rest where "DecodeParameterType ref = Inr t"
        "ConvertValue lib t (AsInterface v) = Inr w" "ps = (k, w) # rest"
        "cast_parameters lib name ctx params = Inr rest"
      unfolding p by (auto split: sum.splits)
    with Cons.IH [of rest] Some show ?thesis unfolding p by fastforce
  qed
qed simp

subsection \<open>Compiling and evaluating\<close>

lemma evaluable_simps [simp]:
  "ec_Condition (evaluable cfg c) = c" "ec_compileOnce (evaluable cfg c) = False"
  "ec_celProgramOpts (evaluable cfg c) = [OptTrackCost, CostLimit (cc_maxCost cfg),
     InterruptCheckFrequency (cc_checkFrequency cfg)]"
  by (simp_all add: evaluable_def NewUncompiled_def WithTrackEvaluationCost_def WithMaxEvaluationCost_def
      WithInterruptCheckFrequency_def)

lemma evaluable_record [simp]:
  "ec_Condition (e\<lparr>ec_compileOnce := b\<rparr>) = ec_Condition e"
  "ec_celProgramOpts (e\<lparr>ec_compileOnce := b\<rparr>) = ec_celProgramOpts e"
  by (cases e, simp)+

text \<open>What a successful compilation leaves in the condition.\<close>

lemma ec_compile_None:
  assumes "ec_compile cel e = (None, e')"
  obtains types env ast prg where "decode_parameters (c_params (ec_Condition e)) = Inr types"
    and "cel_Extend cel (map (\<lambda>(k, t). (k, CelType t)) types) = Inr env"
    and "cel_CompileSource cel env (c_expression (ec_Condition e)) (c_name (ec_Condition e)) = Inr (ast, Cel_Bool)"
    and "cel_Program cel env ast (ec_celProgramOpts e @ [OptPartialEval]) = Inr prg"
    and "ec_Condition e' = ec_Condition e" and "ec_celEnv e' = Some env" and "ec_celProgram e' = Some prg"
  using assms by (auto simp: ec_compile_def Let_def split: sum.splits if_splits)

lemma ec_compile_Some:
  "ec_compile cel e = (Some err, e') \<Longrightarrow>
     ec_Condition e' = ec_Condition e \<and> ec_celEnv e' = ec_celEnv e \<and> ec_compileOnce e' = ec_compileOnce e"
  by (cases e) (auto simp: ec_compile_def Let_def split: sum.splits if_splits)

lemma ec_Compile_fresh:
  "\<not> ec_compileOnce e \<Longrightarrow> ec_Compile cel e = ec_compile cel (e\<lparr>ec_compileOnce := True\<rparr>)"
  by (simp add: ec_Compile_def)

lemma ec_Evaluate_Inr:
  assumes "fst (ec_Evaluate cel e ctxs) = Inr res" and "er_ConditionMet res"
  obtains e' env prg params names cost where "ec_Compile cel e = (None, e')"
    and "ec_celEnv e' = Some env" and "ec_celProgram e' = Some prg"
    and "CastContextToTypedParameters (cel_lib cel) (ec_Condition e') (merge_contexts ctxs) = Inr params"
    and "cel_PartialVars cel env params = Inr names"
    and "er_MissingParameters res = sort (filter (\<lambda>k. k \<notin> set names) (map fst (c_params (ec_Condition e'))))"
    and "cel_ContextEval cel prg env params = Inr (CelValue (Inr (Some True)), cost)"
  using assms
  by (auto simp: ec_Evaluate_def Let_def split: prod.splits option.splits sum.splits cel_out.splits)

lemma EvaluateTupleCondition_Inr:
  assumes "EvaluateTupleCondition cel tk evaluableCondition reqCtx = Inr True" and "get_cond_name tk \<noteq> []"
  obtains ec res where "evaluableCondition = Some ec" and "c_name (ec_Condition ec) = get_cond_name tk"
    and "fst (ec_Evaluate cel ec (Some (case reqCtx of None \<Rightarrow> [] | Some fs \<Rightarrow> fs) #
        (case get_cond_context tk of None \<Rightarrow> [] | Some fs \<Rightarrow> [Some fs]))) = Inr res"
    and "er_MissingParameters res = []" and "er_ConditionMet res"
proof -
  have ctx: "[case reqCtx of None \<Rightarrow> Some [] | Some fs \<Rightarrow> Some fs] @ rest =
      Some (case reqCtx of None \<Rightarrow> [] | Some fs \<Rightarrow> fs) # rest" for rest
    by (simp split: option.split)
  show thesis
    using assms that unfolding EvaluateTupleCondition_def Let_def ctx
    by (cases evaluableCondition) (simp_all split: sum.splits if_splits)
qed

section \<open>Properties\<close>

text \<open>
  \<open>extractIdents\<close> ends on every expression and returns exactly the identifiers that occur in it
  outside the comprehensions that bind them.
\<close>

theorem extract_idents_free:
  "set (extractIdents expr) = {x. free_in x expr}"
  unfolding extractIdents_def extract_loop_free by simp

text \<open>
  \<open>parseTypeRef\<close> accepts exactly the texts of nested parameter types and returns the type whose
  text it was given: printing it gives the input back.
\<close>

theorem parse_type_ref_iff:
  "parseTypeRef s = Inr ref \<longleftrightarrow> nested_ref ref \<and> s = ref_string ref"
  using parseTypeRef_sound parseTypeRef_complete by blast

definition sample_cel :: "(unit, unit, unit, unit) cel" where
  "sample_cel = \<lparr>cel_Extend = \<lambda>_. Inr (), cel_CompileSource = \<lambda>_ _ _. Inr ((), Cel_Bool),
     cel_Program = \<lambda>_ _ _. Inr (), cel_PartialVars = \<lambda>_ ps. Inr (map fst ps),
     cel_ContextEval = \<lambda>_ _ ps. Inr (CelValue (Inr (Some (ps \<noteq> []))), None),
     cel_Parse = \<lambda>_. Inr Expr_Literal,
     cel_lib = \<lparr>lib_ParseFloat = \<lambda>_. Some (BigFinite 2 0), lib_Float64 = \<lambda>_. None, lib_ParseDuration = \<lambda>_. None,
       lib_ParseTime = \<lambda>_. None, lib_ParseIPAddress = \<lambda>_. None\<rparr>\<rparr>"






definition sample_condition_tuple :: tuple_key where
  "sample_condition_tuple =
     \<lparr>tk_object = ''d:1'', tk_relation = ''w'', tk_user = ''u:1'',
      tk_condition = Some \<lparr>cond_name = ''k'', cond_context = Some [(''x'', StringValue ''2'')]\<rparr>\<rparr>"


text \<open>
  When the compilation of a condition fails, its first evaluation returns the error; the
  compilation is not tried again, and a second evaluation with a context that can be cast
  dereferences the nil environment.
\<close>

theorem failed_compilation_panics:
  assumes "fst (ec_Compile cel (NewUncompiled c :: ('e, 'p) evaluable_condition)) = Some err"
    and "CastContextToTypedParameters (cel_lib cel) c (merge_contexts ctxs) = Inr params"
  shows "\<exists>e'. ec_Evaluate cel (NewUncompiled c :: ('e, 'p) evaluable_condition) ctxs =
      (Inl (EvaluationError (c_name c) err), e') \<and>
    fst (ec_Evaluate cel e' ctxs) = Inl (CPanic ''nil pointer dereference'')"
proof -
  let ?e = "(NewUncompiled c :: ('e, 'p) evaluable_condition)\<lparr>ec_compileOnce := True\<rparr>"
  obtain e' where e': "ec_compile cel ?e = (Some err, e')"
    using assms(1) by (cases "ec_compile cel ?e") (simp add: ec_Compile_fresh NewUncompiled_def)
  from ec_compile_Some [OF this] have "ec_Condition e' = c" "ec_celEnv e' = None" "ec_compileOnce e'"
    by (simp_all add: NewUncompiled_def)
  with assms(2) e' show ?thesis
    by (simp add: ec_Evaluate_def ec_Compile_def NewUncompiled_def)
qed

text \<open>A condition with an unknown parameter type.\<close>

theorem failed_compilation_panics_witness:
  "\<exists>e'. ec_Evaluate sample_cel
      (NewUncompiled \<lparr>c_name = ''k'', c_params = [(''x'', TypeRef TYPE_NAME_UNSPECIFIED [])], c_expression = ''x''\<rparr>)
      [None] = (Inl (EvaluationError ''k'' (CompilationError ''k''
        (CWrap ''failed to decode parameter type for parameter x'' (CErr ''unknown condition parameter type'')))), e') \<and>
    fst (ec_Evaluate sample_cel e' [None]) = Inl (CPanic ''nil pointer dereference'')"
proof -
  let ?c = "\<lparr>c_name = ''k'', c_params = [(''x'', TypeRef TYPE_NAME_UNSPECIFIED [])], c_expression = ''x''\<rparr>"
  have "fst (ec_Compile sample_cel (NewUncompiled ?c)) = Some (CompilationError ''k''
      (CWrap ''failed to decode parameter type for parameter x'' (CErr ''unknown condition parameter type'')))"
    by (simp add: ec_Compile_def NewUncompiled_def ec_compile_def genericTypeCount_def)
  moreover have "CastContextToTypedParameters (cel_lib sample_cel) ?c (merge_contexts [None]) = Inr []"
    by (simp add: CastContextToTypedParameters_def merge_contexts_def)
  ultimately show ?thesis using failed_compilation_panics [of sample_cel ?c _ "[None]" "[]"] by simp
qed

end
