(* ===== verification/Local_Checker.thy ===== *)
theory Local_Checker
  imports Check_Reducers Combined_Reader Conditions
begin

text \<open>
  The check engine of \<open>internal/graph\<close>: requests (\<open>resolve_check_request.go\<close>), the default strategy
  that dispatches one check per userset or parent object (\<open>default_resolver.go\<close>) and the local checker
  (\<open>check.go\<close>), whose \<open>ResolveCheck\<close> calls itself for a computed relation and a delegate for a
  dispatched check. The strategies for weighted graphs (\<open>weight_two_resolver.go\<close>,
  \<open>recursive_resolver.go\<close>) are left out: the planner is one that answers \<open>default\<close>, which is a
  candidate for every key.
\<close>

section \<open>Requests\<close>

datatype consistency = UNSPECIFIED | MINIMIZE_LATENCY | HIGHER_CONSISTENCY

text \<open>
  The counters of \<open>RequestMetadata\<close> are statistics, and left out. A zero time is 0. \<open>VisitedPaths\<close> is
  a set: every request that is not the root is a clone, which copies the map, so no two share one.
\<close>

record check_request =
  rq_StoreID :: string
  rq_AuthorizationModelID :: string
  rq_TupleKey :: tuple_key
  rq_ContextualTuples :: "tuple_key list"
  rq_Context :: "pb_struct option"
  rq_Depth :: nat
  rq_VisitedPaths :: "string set"
  rq_Consistency :: consistency
  rq_LastCacheInvalidationTime :: nat
  rq_SelectedStrategy :: string
  rq_invariantCacheKey :: nat
  rq_objectType :: string
  rq_userType :: string

record check_params =
  rp_StoreID :: string
  rp_TupleKey :: tuple_key
  rp_ContextualTuples :: "tuple_key list"
  rp_Context :: "pb_struct option"
  rp_Consistency :: consistency
  rp_LastCacheInvalidationTime :: nat
  rp_AuthorizationModelID :: string

text \<open>\<open>invariantKey\<close> is \<open>storage.InvariantCacheKey\<close>, a hash.\<close>

definition NewResolveCheckRequest :: "(string \<Rightarrow> string \<Rightarrow> pb_struct option \<Rightarrow> tuple_key list \<Rightarrow> nat) \<Rightarrow>
    check_params \<Rightarrow> (string, check_request) result" where
  "NewResolveCheckRequest invariantKey params =
     (if rp_AuthorizationModelID params = [] then Inl ''missing authorization_model_id''
      else if rp_StoreID params = [] then Inl ''missing store_id''
      else
        (let user = tk_user (rp_TupleKey params);
             userType = (if IsObjectRelation user then ToObjectRelationString (GetType user) (GetRelation user)
                         else GetType user)
         in Inr \<lparr>rq_StoreID = rp_StoreID params, rq_AuthorizationModelID = rp_AuthorizationModelID params,
              rq_TupleKey = rp_TupleKey params, rq_ContextualTuples = rp_ContextualTuples params,
              rq_Context = rp_Context params, rq_Depth = 0, rq_VisitedPaths = {},
              rq_Consistency = rp_Consistency params,
              rq_LastCacheInvalidationTime = rp_LastCacheInvalidationTime params, rq_SelectedStrategy = [],
              rq_invariantCacheKey = invariantKey (rp_StoreID params) (rp_AuthorizationModelID params)
                (rp_Context params) (rp_ContextualTuples params),
              rq_objectType = GetType (tk_object (rp_TupleKey params)), rq_userType = userType\<rparr>))"

definition request_clone :: "check_request \<Rightarrow> check_request" where
  "request_clone r =
     \<lparr>rq_StoreID = rq_StoreID r, rq_AuthorizationModelID = rq_AuthorizationModelID r,
      rq_TupleKey = rq_TupleKey r, rq_ContextualTuples = rq_ContextualTuples r, rq_Context = rq_Context r,
      rq_Depth = rq_Depth r, rq_VisitedPaths = rq_VisitedPaths r, rq_Consistency = rq_Consistency r,
      rq_LastCacheInvalidationTime = rq_LastCacheInvalidationTime r,
      rq_SelectedStrategy = rq_SelectedStrategy r, rq_invariantCacheKey = rq_invariantCacheKey r,
      rq_objectType = rq_objectType r, rq_userType = rq_userType r\<rparr>"

section \<open>The environment\<close>

text \<open>
  What a check finds in its context and in the checker: the type system with its path query, the
  reader, the filters for tuples, the answers of \<open>UsersetUseRecursiveResolver\<close>,
  \<open>UsersetUseWeight2Resolver\<close> and \<open>TTUUseWeight2Resolver\<close> or \<open>TTUUseRecursiveResolver\<close> (all false for
  a model without a weighted graph), the limit on the depth and the schedule.
\<close>

record ('i, 'k) check_env =
  ev_typesys :: type_system
  ev_PathExists :: "string \<Rightarrow> string \<Rightarrow> string \<Rightarrow> (ts_error, bool) result"
  ev_reader :: "('i, 'k) reader"
  ev_validTuple :: "tuple_key \<Rightarrow> bool"
  ev_condition :: "pb_struct option \<Rightarrow> tuple_key \<Rightarrow> (string iter_err, bool) result"
  ev_recursive :: "string \<Rightarrow> string \<Rightarrow> string \<Rightarrow> bool"
  ev_weight2 :: "string \<Rightarrow> string \<Rightarrow> string \<Rightarrow> relation_reference \<Rightarrow> bool"
  ev_ttuFast :: "string \<Rightarrow> string \<Rightarrow> string \<Rightarrow> tuple_to_userset option \<Rightarrow> bool"
  ev_maxDepth :: nat
  ev_schedule :: schedule

definition new_env :: "('e, 'a, 'p, 'x) cel \<Rightarrow> cond_config \<Rightarrow> ('g \<Rightarrow> string \<Rightarrow> string \<Rightarrow> (ts_error, bool) result) \<Rightarrow>
    'g \<Rightarrow> type_system \<Rightarrow> ('i, 'k) reader \<Rightarrow> nat \<Rightarrow> schedule \<Rightarrow> ('i, 'k) check_env" where
  "new_env cel cfg paths g t rd maxDepth \<sigma> =
     \<lparr>ev_typesys = t, ev_PathExists = PathExists paths g, ev_reader = rd,
      ev_validTuple = FilterInvalidTuples (\<lambda>c ctx. map_sum cond_Error (map fst)
        (CastContextToTypedParameters (cel_lib cel) c ctx)) t,
      ev_condition = (\<lambda>reqCtx. BuildTupleKeyConditionFilter cel cfg reqCtx t),
      ev_recursive = (\<lambda>_ _ _. False), ev_weight2 = (\<lambda>_ _ _ _. False),
      ev_ttuFast = (\<lambda>_ _ _ _. False),
      ev_maxDepth = maxDepth, ev_schedule = \<sigma>\<rparr>"

text \<open>
  A handler: its outcome or a panic; \<open>None\<close> where it does not return. A resolver gets the address of
  the node that calls it.
\<close>

type_synonym handled = "outcome ran option"

type_synonym resolver = "nat list \<Rightarrow> check_request \<Rightarrow> handled"

definition allowed_response :: "bool \<Rightarrow> check_response" where
  "allowed_response b = \<lparr>rsp_Allowed = b, rsp_CycleDetected = False\<rparr>"

section \<open>Filtered iterators\<close>

text \<open>
  \<open>NewConditionsFilteredTupleKeyIterator\<close> over \<open>NewFilteredTupleKeyIterator\<close> over
  \<open>NewTupleKeyIteratorFromTupleIterator\<close>, with the filters of the environment.
\<close>

type_synonym 'i filtered_iter = "('i wrapped_iter wrapped_iter, string) cond_iter"

definition filtered_iterator_of :: "'i \<Rightarrow> 'i filtered_iter" where
  "filtered_iterator_of it = NewConditionsFiltered (wrap_iter (wrap_iter it))"

definition filtered_next :: "('i, 'k) check_env \<Rightarrow> pb_struct option \<Rightarrow>
    ('i filtered_iter, string, tuple_key) iter_call" where
  "filtered_next env reqCtx =
     ConditionsFiltered_Next
       (filteredTupleKeyIterator_Next (tupleKeyIterator_Next (rd_next (ev_reader env))) (ev_validTuple env))
       (ev_condition env reqCtx)"

definition IteratorReadUsersetTuples :: "('i, 'k) check_env \<Rightarrow> check_request \<Rightarrow> relation_reference list \<Rightarrow>
    (store_err, 'i filtered_iter) result" where
  "IteratorReadUsersetTuples env req allowedUserTypeRestrictions =
     (case rd_ReadUsersetTuples (ev_reader env) (rq_StoreID req)
         \<lparr>uf_Object = tk_object (rq_TupleKey req), uf_Relation = tk_relation (rq_TupleKey req),
          uf_AllowedUserTypeRestrictions = allowedUserTypeRestrictions, uf_Conditions = []\<rparr> of
        Inl err \<Rightarrow> Inl err
      | Inr iter \<Rightarrow> Inr (filtered_iterator_of iter))"

section \<open>Dispatching\<close>

datatype dispatch_msg =
    DispatchErr "string iter_err"
  | DispatchShortCircuit
  | DispatchParams check_request tuple_key string

definition prepareChildRequest :: "check_request \<Rightarrow> tuple_key \<Rightarrow> string \<Rightarrow> check_request" where
  "prepareChildRequest parentReq tk strategy =
     (request_clone parentReq)\<lparr>rq_TupleKey := tk, rq_SelectedStrategy := strategy\<rparr>"

text \<open>
  The producers run through an iterator, here the keys that it yields and the error it ends with.
\<close>

definition end_message :: "string iter_err \<Rightarrow> dispatch_msg list" where
  "end_message err = (if IterIsDoneOrCancelled err then [] else [DispatchErr err])"

fun produceUsersetDispatches :: "type_system \<Rightarrow> check_request \<Rightarrow> string \<Rightarrow> tuple_key list \<Rightarrow>
    string iter_err \<Rightarrow> dispatch_msg list" where
  "produceUsersetDispatches typesys req selectedStrategy [] err = end_message err"
| "produceUsersetDispatches typesys req selectedStrategy (t # ts) err =
     (let reqUser = tk_user (rq_TupleKey req);
          (usersetObject, usersetRelation) = SplitObjectRelation (tk_user t) in
      if IsTypedWildcard usersetObject \<and> IsSchemaVersionSupported (ts_schemaVersion typesys) \<and>
         GetType reqUser = GetType usersetObject
      then [DispatchShortCircuit]
      else (if usersetRelation \<noteq> [] then
              [DispatchParams req (NewTupleKey usersetObject usersetRelation reqUser) selectedStrategy] else [])
           @ produceUsersetDispatches typesys req selectedStrategy ts err)"

fun produceTTUDispatches :: "type_system \<Rightarrow> string \<Rightarrow> check_request \<Rightarrow> string \<Rightarrow> tuple_key list \<Rightarrow>
    string iter_err \<Rightarrow> dispatch_msg list" where
  "produceTTUDispatches typesys computedRelation req selectedStrategy [] err = end_message err"
| "produceTTUDispatches typesys computedRelation req selectedStrategy (t # ts) err =
     (let (userObj, _) = SplitObjectRelation (tk_user t) in
      (case TypeSystem_GetRelation typesys (GetType userObj) computedRelation of
         Inl (RelationUndefinedError _ _) \<Rightarrow> []
       | _ \<Rightarrow> [DispatchParams req (NewTupleKey userObj computedRelation (tk_user (rq_TupleKey req)))
                selectedStrategy])
      @ produceTTUDispatches typesys computedRelation req selectedStrategy ts err)"

definition dispatch :: "resolver \<Rightarrow> nat list \<Rightarrow> check_request \<Rightarrow> handled" where
  "dispatch delegate p req = delegate p (req\<lparr>rq_Depth := Suc (rq_Depth req)\<rparr>)"

text \<open>\<open>processDispatches\<close>: the outcomes of the messages, the \<open>i\<close>-th at the address \<open>i # p\<close>.\<close>

fun processDispatches :: "resolver \<Rightarrow> nat list \<Rightarrow> nat \<Rightarrow> dispatch_msg list \<Rightarrow> outcome list option" where
  "processDispatches delegate p i [] = Some []"
| "processDispatches delegate p i (DispatchErr err # msgs) =
     map_option (\<lambda>outs. Inl (CE_Iterator err) # outs) (processDispatches delegate p (Suc i) msgs)"
| "processDispatches delegate p i (DispatchShortCircuit # msgs) = Some [Inr (allowed_response True)]"
| "processDispatches delegate p i (DispatchParams parentReq tk strategy # msgs) =
     (case dispatch delegate (i # p) (prepareChildRequest parentReq tk strategy) of None \<Rightarrow> None
      | Some h \<Rightarrow> map_option (\<lambda>outs. runHandler h # outs) (processDispatches delegate p (Suc i) msgs))"

definition run_dispatches :: "schedule \<Rightarrow> resolver \<Rightarrow> nat list \<Rightarrow> dispatch_msg list \<Rightarrow> handled" where
  "run_dispatches \<sigma> delegate p msgs =
     (case processDispatches delegate p 0 msgs of None \<Rightarrow> None
      | Some outs \<Rightarrow> map_option Returned (consumeDispatches \<sigma> p outs))"

definition defaultUserset :: "('i, 'k) check_env \<Rightarrow> resolver \<Rightarrow> nat list \<Rightarrow> check_request \<Rightarrow>
    'i filtered_iter \<Rightarrow> string \<Rightarrow> handled" where
  "defaultUserset env delegate p req iter selectedStrategy =
     (case drain (filtered_next env (rq_Context req)) None iter of None \<Rightarrow> None
      | Some (keys, err) \<Rightarrow>
          run_dispatches (ev_schedule env) delegate p
            (produceUsersetDispatches (ev_typesys env) req selectedStrategy keys err))"

definition defaultTTU :: "('i, 'k) check_env \<Rightarrow> resolver \<Rightarrow> nat list \<Rightarrow> check_request \<Rightarrow>
    string \<Rightarrow> 'i filtered_iter \<Rightarrow> string \<Rightarrow> handled" where
  "defaultTTU env delegate p req computedRelation iter selectedStrategy =
     (case drain (filtered_next env (rq_Context req)) None iter of None \<Rightarrow> None
      | Some (keys, err) \<Rightarrow>
          run_dispatches (ev_schedule env) delegate p
            (produceTTUDispatches (ev_typesys env) computedRelation req selectedStrategy keys err))"

section \<open>Direct relationships\<close>

definition shouldCheckDirectTuple :: "type_system \<Rightarrow> tuple_key \<Rightarrow> bool" where
  "shouldCheckDirectTuple typesys reqTupleKey =
     (case IsDirectlyRelated typesys
        (DirectRelationReference (GetType (tk_object reqTupleKey)) (tk_relation reqTupleKey))
        (DirectRelationReference (GetType (tk_user reqTupleKey)) (GetRelation (tk_user reqTupleKey))) of
        Inl _ \<Rightarrow> False | Inr b \<Rightarrow> b)"

definition shouldCheckPublicAssignable :: "type_system \<Rightarrow> tuple_key \<Rightarrow> bool" where
  "shouldCheckPublicAssignable typesys reqTupleKey =
     (if IsObjectRelation (tk_user reqTupleKey) then False
      else case IsPubliclyAssignable typesys
        (DirectRelationReference (GetType (tk_object reqTupleKey)) (tk_relation reqTupleKey))
        (GetType (tk_user reqTupleKey)) of Inl _ \<Rightarrow> False | Inr b \<Rightarrow> b)"

definition checkPublicAssignable :: "('i, 'k) check_env \<Rightarrow> check_request \<Rightarrow> handled" where
  "checkPublicAssignable env req =
     (case IteratorReadUsersetTuples env req
         [WildcardRelationReference (GetType (tk_user (rq_TupleKey req)))] of
        Inl err \<Rightarrow> Some (Returned (Inl (CE_Store err)))
      | Inr filteredIter \<Rightarrow>
         (case filtered_next env (rq_Context req) None filteredIter of None \<Rightarrow> None
          | Some (Inl err, _) \<Rightarrow>
              Some (Returned (if err = ErrIteratorDone then Inr (allowed_response False)
                              else Inl (CE_Iterator err)))
          | Some (Inr _, _) \<Rightarrow> Some (Returned (Inr (allowed_response True)))))"

definition checkDirectUserTuple :: "('i, 'k) check_env \<Rightarrow> check_request \<Rightarrow> handled" where
  "checkDirectUserTuple env req =
     (let k = rq_TupleKey req in
      Some (Returned
       (case rd_ReadUserTuple (ev_reader env) (rq_StoreID req)
           \<lparr>rf_Object = tk_object k, rf_Relation = tk_relation k, rf_User = tk_user k, rf_Conditions = []\<rparr> of
          Inl err \<Rightarrow> (if err = ErrNotFound then Inr (allowed_response False) else Inl (CE_Store err))
        | Inr t \<Rightarrow>
            if \<not> ev_validTuple env (tup_key t) then Inr (allowed_response False)
            else (case ev_condition env (rq_Context req) (tup_key t) of
                Inl err \<Rightarrow> Inl (CE_Iterator err)
              | Inr conditionMet \<Rightarrow> Inr (allowed_response conditionMet)))))"

definition directly_related_usersets :: "('i, 'k) check_env \<Rightarrow> check_request \<Rightarrow> relation_reference list" where
  "directly_related_usersets env req =
     (case DirectlyRelatedUsersets (ev_typesys env) (GetType (tk_object (rq_TupleKey req)))
         (tk_relation (rq_TupleKey req)) of Inl _ \<Rightarrow> [] | Inr refs \<Rightarrow> refs)"

text \<open>
  The planner has answered \<open>default\<close>: the loop over the userset types makes one handler for each type
  that the weight-two strategy could resolve, and one for the others together. \<open>those\<close> is the list of
  the outcomes when all handlers return.
\<close>

definition userset_handler :: "('i, 'k) check_env \<Rightarrow> resolver \<Rightarrow> nat list \<Rightarrow> check_request \<Rightarrow>
    relation_reference list \<Rightarrow> string \<Rightarrow> (store_err, handled) result" where
  "userset_handler env delegate p req usersets strategy =
     (case IteratorReadUsersetTuples env req usersets of Inl err \<Rightarrow> Inl err
      | Inr iter \<Rightarrow> Inr (defaultUserset env delegate p req iter strategy))"

fun userset_resolvers :: "('i, 'k) check_env \<Rightarrow> resolver \<Rightarrow> nat list \<Rightarrow> check_request \<Rightarrow> nat \<Rightarrow>
    relation_reference list \<Rightarrow> handled list \<Rightarrow> relation_reference list \<Rightarrow>
    (store_err, handled list) result" where
  "userset_resolvers env delegate p req i [] resolvers remainingUsersetTypes =
     (if remainingUsersetTypes \<noteq> [] then
        (case userset_handler env delegate (i # p) req remainingUsersetTypes [] of Inl err \<Rightarrow> Inl err
         | Inr h \<Rightarrow> Inr (resolvers @ [h]))
      else Inr resolvers)"
| "userset_resolvers env delegate p req i (userset # usersets) resolvers remainingUsersetTypes =
     (let k = rq_TupleKey req in
      if \<not> ev_weight2 env (GetType (tk_object k)) (tk_relation k) (GetType (tk_user k)) userset then
        userset_resolvers env delegate p req i usersets resolvers (remainingUsersetTypes @ [userset])
      else (case userset_handler env delegate (i # p) req [userset] ''default'' of Inl err \<Rightarrow> Inl err
        | Inr h \<Rightarrow> userset_resolvers env delegate p req (Suc i) usersets (resolvers @ [h])
                    remainingUsersetTypes))"

definition run_union :: "schedule \<Rightarrow> nat list \<Rightarrow> handled list \<Rightarrow> handled" where
  "run_union \<sigma> p handlers =
     (case those handlers of None \<Rightarrow> None | Some hs \<Rightarrow> map_option Returned (check_union \<sigma> p hs))"

definition checkDirectUsersetTuples :: "('i, 'k) check_env \<Rightarrow> resolver \<Rightarrow> nat list \<Rightarrow> check_request \<Rightarrow>
    handled" where
  "checkDirectUsersetTuples env delegate p req =
     (let k = rq_TupleKey req; objectType = GetType (tk_object k); relation = tk_relation k;
          userType = GetType (tk_user k);
          directlyRelatedUsersetTypes = directly_related_usersets env req;
          default = (\<lambda>strategy.
            case userset_handler env delegate p req directlyRelatedUsersetTypes strategy of
              Inl err \<Rightarrow> Some (Returned (Inl (CE_Store err))) | Inr h \<Rightarrow> h)
      in if IsObjectRelation (tk_user k) then default []
         else if ev_recursive env objectType relation userType then default ''default''
         else (case userset_resolvers env delegate p req 0 directlyRelatedUsersetTypes [] [] of
             Inl err \<Rightarrow> Some (Returned (Inl (CE_Store err)))
           | Inr resolvers \<Rightarrow> run_union (ev_schedule env) p resolvers))"

definition checkDirect :: "('i, 'k) check_env \<Rightarrow> resolver \<Rightarrow> nat list \<Rightarrow> check_request \<Rightarrow> handled" where
  "checkDirect env delegate p req =
     (let checkFuncs =
            (if shouldCheckDirectTuple (ev_typesys env) (rq_TupleKey req)
             then [checkDirectUserTuple env req] else []) @
            (if shouldCheckPublicAssignable (ev_typesys env) (rq_TupleKey req)
             then [checkPublicAssignable env req] else []) @
            (if directly_related_usersets env req \<noteq> []
             then [checkDirectUsersetTuples env delegate (0 # p) req] else [])
      in run_union (ev_schedule env) p checkFuncs)"

section \<open>Rewrites\<close>

definition checkComputedUserset :: "resolver \<Rightarrow> nat list \<Rightarrow> check_request \<Rightarrow> string \<Rightarrow> handled" where
  "checkComputedUserset self p req relation =
     (let k = rq_TupleKey req;
          childRequest = (request_clone req)\<lparr>rq_TupleKey := NewTupleKey (tk_object k) relation (tk_user k)\<rparr>
      in self (0 # p) childRequest)"

definition checkTTU :: "('i, 'k) check_env \<Rightarrow> resolver \<Rightarrow> nat list \<Rightarrow> check_request \<Rightarrow>
    tuple_to_userset option \<Rightarrow> handled" where
  "checkTTU env delegate p req rewrite =
     (case rd_Read (ev_reader env) (rq_StoreID req)
         \<lparr>rf_Object = tk_object (rq_TupleKey req), rf_Relation = ttu_GetTupleset rewrite, rf_User = [],
          rf_Conditions = []\<rparr> of
        None \<Rightarrow> Some (Panicked ''slice bounds out of range'')
      | Some (Inl err) \<Rightarrow> Some (Returned (Inl (CE_Store err)))
      | Some (Inr iter) \<Rightarrow>
          (let k = rq_TupleKey req;
               strategy = (if \<not> IsObjectRelation (tk_user k) \<and>
                 ev_ttuFast env (GetType (tk_object k)) (tk_relation k) (GetType (tk_user k)) rewrite
                 then ''default'' else [])
           in defaultTTU env delegate p req (ttu_GetComputed rewrite) (filtered_iterator_of iter) strategy))"

fun CheckRewrite :: "('i, 'k) check_env \<Rightarrow> resolver \<Rightarrow> resolver \<Rightarrow> nat list \<Rightarrow> check_request \<Rightarrow>
    userset \<Rightarrow> handled"
and check_children :: "('i, 'k) check_env \<Rightarrow> resolver \<Rightarrow> resolver \<Rightarrow> nat list \<Rightarrow> check_request \<Rightarrow> nat \<Rightarrow>
    userset list \<Rightarrow> outcome ran list option" where
  "CheckRewrite env self delegate p req Userset_Unset = Some (Returned (Inl CE_UnknownSetOperator))"
| "CheckRewrite env self delegate p req Userset_This = checkDirect env delegate p req"
| "CheckRewrite env self delegate p req (Userset_ComputedUserset relation) =
     checkComputedUserset self p req relation"
| "CheckRewrite env self delegate p req (Userset_TupleToUserset ttu) = checkTTU env delegate p req ttu"
| "CheckRewrite env self delegate p req (Userset_Union cs) =
     (case check_children env self delegate p req 0 cs of None \<Rightarrow> None
      | Some hs \<Rightarrow> map_option Returned (check_union (ev_schedule env) p hs))"
| "CheckRewrite env self delegate p req (Userset_Intersection cs) =
     (case check_children env self delegate p req 0 cs of None \<Rightarrow> None
      | Some hs \<Rightarrow> map_option Returned (check_intersection (ev_schedule env) p hs))"
| "CheckRewrite env self delegate p req (Userset_Difference base sub) =
     (case CheckRewrite env self delegate (0 # p) req base of None \<Rightarrow> None
      | Some b \<Rightarrow> (case CheckRewrite env self delegate (1 # p) req sub of None \<Rightarrow> None
        | Some s \<Rightarrow> map_option Returned (check_exclusion (ev_schedule env) p [b, s])))"
| "check_children env self delegate p req i [] = Some []"
| "check_children env self delegate p req i (c # cs) =
     (case CheckRewrite env self delegate (i # p) req c of None \<Rightarrow> None
      | Some h \<Rightarrow> map_option (\<lambda>hs. h # hs) (check_children env self delegate p req (Suc i) cs))"

section \<open>\<open>ResolveCheck\<close>\<close>

definition request_hasCycle :: "check_request \<Rightarrow> bool \<times> check_request" where
  "request_hasCycle req =
     (let key = TupleKeyToString (rq_TupleKey req) in
      if key \<in> rq_VisitedPaths req then (True, req)
      else (False, req\<lparr>rq_VisitedPaths := insert key (rq_VisitedPaths req)\<rparr>))"

definition ResolveCheck_step :: "('i, 'k) check_env \<Rightarrow> resolver \<Rightarrow> resolver \<Rightarrow> resolver" where
  "ResolveCheck_step env self delegate p req =
     (case sc_err (ev_schedule env) p of Some e \<Rightarrow> Some (Returned (Inl e))
      | None \<Rightarrow>
        if rq_Depth req = ev_maxDepth env then Some (Returned (Inl CE_ResolutionDepthExceeded))
        else
         (let (cycle, req) = request_hasCycle req in
          if cycle then Some (Returned (Inr \<lparr>rsp_Allowed = False, rsp_CycleDetected = True\<rparr>))
          else
           (let tupleKey = rq_TupleKey req; relation = tk_relation tupleKey in
            if IsSelfDefining tupleKey then Some (Returned (Inr (allowed_response True)))
            else
             (let objectType = fst (SplitObject (tk_object tupleKey)) in
              case TypeSystem_GetRelation (ev_typesys env) objectType relation of
                Inl _ \<Rightarrow> Some (Returned (Inl (CE_RelationUndefined relation objectType)))
              | Inr rel \<Rightarrow>
                 (case ev_PathExists env (tk_user tupleKey) relation objectType of
                    Inl err \<Rightarrow> Some (Returned (Inl (CE_TypeSystem err)))
                  | Inr hasPath \<Rightarrow>
                      if \<not> hasPath then Some (Returned (Inr (allowed_response False)))
                      else CheckRewrite env self delegate p req (rel_rewrite rel))))))"

text \<open>
  The local checker on its own, its own delegate. The fuel bounds the nesting of the calls of
  \<open>ResolveCheck\<close>.
\<close>

fun ResolveCheck :: "nat \<Rightarrow> ('i, 'k) check_env \<Rightarrow> resolver" where
  "ResolveCheck 0 env p req = None"
| "ResolveCheck (Suc n) env p req = ResolveCheck_step env (ResolveCheck n env) (ResolveCheck n env) p req"

end
