(* ===== verification/Check_Semantics.thy ===== *)
theory Check_Semantics
  imports Local_Checker
begin

text \<open>
  What a check means, and that the local checker decides it: a user has a relation to an object as
  the rewrites of the model and the usable tuples say. The operators of the engine combine outcomes
  the way the rewrites combine relations; the locale \<open>outcome_relation\<close> states what a relation between
  truth and outcome needs for that, and two relations meet it: a definite answer is the truth, and
  what is true is not refused.
\<close>

section \<open>Relations between truth and outcome\<close>

locale outcome_relation =
  fixes R :: "bool \<Rightarrow> outcome \<Rightarrow> bool" and exclusions :: bool
  assumes error_law: "R b (Inl e)"
    and answer_law: "R b (Inr (allowed_response b))"
    and union_law: "list_all2 R bs outs \<Longrightarrow> union_verdict (set outs) out \<Longrightarrow> R (\<exists>b \<in> set bs. b) out"
    and intersection_law: "list_all2 R bs outs \<Longrightarrow> intersection_verdict (set outs) out \<Longrightarrow>
      R (\<forall>b \<in> set bs. b) out"
    and exclusion_law: "exclusions \<Longrightarrow> R b o1 \<Longrightarrow> R c o2 \<Longrightarrow> exclusion_result o1 o2 out \<Longrightarrow>
      R (b \<and> \<not> c) out"
begin

lemma error_in_union:
  assumes "list_all2 R bs outs" and "union_verdict (insert (Inl e) (set outs)) out" and "\<exists>b \<in> set bs. b"
  shows "R True out"
proof -
  have "list_all2 R (False # bs) (Inl e # outs)" using assms(1) error_law by simp
  from union_law [OF this, of out] assms(2,3) show ?thesis by simp
qed

end

text \<open>A definite answer, one that is no error and not part of a cycle, is the truth.\<close>

definition agrees :: "bool \<Rightarrow> outcome \<Rightarrow> bool" where
  "agrees b out \<longleftrightarrow> (allowing out \<longrightarrow> b \<and> \<not> cyclic out) \<and>
     (\<not> allowing out \<and> \<not> cyclic out \<and> (\<nexists>e. out = Inl e) \<longrightarrow> \<not> b)"

text \<open>What is true is allowed, unless an error comes up.\<close>

definition granted :: "bool \<Rightarrow> outcome \<Rightarrow> bool" where
  "granted b out \<longleftrightarrow> (b \<longrightarrow> (\<exists>e. out = Inl e) \<or> allowing out) \<and> (allowing out \<longrightarrow> \<not> cyclic out)"

lemma list_all2_set1: "list_all2 P xs ys \<Longrightarrow> x \<in> set xs \<Longrightarrow> \<exists>y \<in> set ys. P x y"
  by (metis list_all2_conv_all_nth in_set_conv_nth)

lemma list_all2_set2: "list_all2 P xs ys \<Longrightarrow> y \<in> set ys \<Longrightarrow> \<exists>x \<in> set xs. P x y"
  by (metis list_all2_conv_all_nth in_set_conv_nth)

lemma outcome_cases: "(\<exists>e. out = Inl e) \<or> (\<exists>r. out = Inr r)" for out :: outcome
  by (cases out) auto

interpretation agreeing: outcome_relation agrees True
proof (unfold_locales, goal_cases)
  case (1 b e) then show ?case by (simp add: agrees_def)
next
  case (2 b) then show ?case by (simp add: agrees_def allowed_response_def)
next
  case (3 bs outs out)
  show ?case
  proof (cases "\<exists>x \<in> set outs. allowing x")
    case True
    with 3(2) have "out \<in> set outs" "allowing out" by (auto simp: union_verdict_def)
    with list_all2_set2 [OF 3(1)] show ?thesis by (fastforce simp: agrees_def)
  next
    case no: False
    show ?thesis
    proof (cases "\<exists>e. Inl e \<in> set outs")
      case True
      with no 3(2) show ?thesis by (auto simp: union_verdict_def agrees_def)
    next
      case False
      with no 3(2) have out: "out = Inr \<lparr>rsp_Allowed = False, rsp_CycleDetected = (\<exists>x \<in> set outs. cyclic x)\<rparr>"
        by (simp add: union_verdict_def)
      have "\<not> b" if "b \<in> set bs" "\<forall>x \<in> set outs. \<not> cyclic x" for b
        using list_all2_set1 [OF 3(1) that(1)] no False that(2) by (auto simp: agrees_def)
      then show ?thesis by (auto simp: out agrees_def)
    qed
  qed
next
  case (4 bs outs out)
  show ?case
  proof (cases "\<exists>x \<in> set outs. refusing x")
    case True
    with 4(2) obtain x where x: "x \<in> set outs" "refusing x"
        "out = Inr \<lparr>rsp_Allowed = False, rsp_CycleDetected = cyclic x\<rparr>"
      by (auto simp: intersection_verdict_def)
    from list_all2_set2 [OF 4(1) x(1)] obtain b where b: "b \<in> set bs" "agrees b x" by blast
    with x(2) have "\<not> cyclic x \<Longrightarrow> \<not> b" by (auto simp: agrees_def refusing_def)
    with b(1) x(3) show ?thesis by (auto simp: agrees_def)
  next
    case no: False
    show ?thesis
    proof (cases "\<exists>e. Inl e \<in> set outs")
      case True
      with no 4(2) show ?thesis by (auto simp: intersection_verdict_def agrees_def)
    next
      case False
      with no 4(2) have out: "out = Inr \<lparr>rsp_Allowed = True, rsp_CycleDetected = False\<rparr>"
        by (simp add: intersection_verdict_def)
      have b if "b \<in> set bs" for b
      proof -
        from list_all2_set1 [OF 4(1) that] obtain x where x: "x \<in> set outs" "agrees b x" by blast
        with no False have "allowing x" by (cases x) auto
        with x show b by (simp add: agrees_def)
      qed
      then show ?thesis by (auto simp: out agrees_def)
    qed
  qed
next
  case (5 b o1 c o2 out)
  then show ?case
    by (cases o1; cases o2) (auto simp: agrees_def exclusion_result_def Let_def split: if_splits)
qed

interpretation granting: outcome_relation granted False
proof (unfold_locales, goal_cases)
  case (1 b e) then show ?case by (simp add: granted_def)
next
  case (2 b) then show ?case by (simp add: granted_def allowed_response_def)
next
  case (3 bs outs out)
  show ?case
  proof (cases "\<exists>y \<in> set outs. allowing y")
    case True
    with 3(2) have "out \<in> set outs" "allowing out" by (auto simp: union_verdict_def)
    with list_all2_set2 [OF 3(1)] show ?thesis by (fastforce simp: granted_def)
  next
    case False
    with 3(2) have "\<not> allowing out" by (auto simp: union_verdict_def split: if_splits)
    moreover have "\<exists>e. out = Inl e" if "b \<in> set bs" b for b
    proof -
      from list_all2_set1 [OF 3(1) that(1)] that(2) False have "\<exists>e. Inl e \<in> set outs"
        by (auto simp: granted_def)
      with False 3(2) show ?thesis by (auto simp: union_verdict_def)
    qed
    ultimately show ?thesis by (auto simp: granted_def)
  qed
next
  case (4 bs outs out)
  from 4(2) have "\<not> allowing out \<or> \<not> cyclic out" by (auto simp: intersection_verdict_def split: if_splits)
  moreover have "(\<exists>e. out = Inl e) \<or> allowing out" if "\<forall>b \<in> set bs. b"
  proof -
    have "\<not> refusing x" if "x \<in> set outs" for x
      using list_all2_set2 [OF 4(1) that] \<open>\<forall>b \<in> set bs. b\<close> by (cases x) (auto simp: granted_def)
    with 4(2) show ?thesis by (auto simp: intersection_verdict_def split: if_splits)
  qed
  ultimately show ?case by (auto simp: granted_def)
qed auto

section \<open>What a relation means\<close>

text \<open>
  \<open>T\<close> are the tuples that count, \<open>u\<close> the user of the request. A tuple grants a relation to its user,
  to every user of the type of a wildcard that is no userset, and to those that have the relation of
  a userset. \<open>H ob r\<close> says that \<open>u\<close> has the relation \<open>r\<close> to \<open>ob\<close>.
\<close>

definition usable :: "('i, 'k) check_env \<Rightarrow> pb_struct option \<Rightarrow> tuple_key set \<Rightarrow> tuple_key set" where
  "usable env reqCtx contents =
     {tk \<in> contents. ev_validTuple env tk \<and> ev_condition env reqCtx tk = Inr True}"

definition grants_user :: "(string \<Rightarrow> string \<Rightarrow> bool) \<Rightarrow> string \<Rightarrow> string \<Rightarrow> bool" where
  "grants_user H u tupleUser \<longleftrightarrow>
     tupleUser = u \<or>
     (\<not> IsObjectRelation u \<and> tupleUser = TypedPublicWildcard (GetType u)) \<or>
     (IsObjectRelation tupleUser \<and>
      H (fst (SplitObjectRelation tupleUser)) (snd (SplitObjectRelation tupleUser)))"

text \<open>A parent counts unless its type is defined and has no such relation.\<close>

definition ttu_parent :: "type_system \<Rightarrow> string \<Rightarrow> string \<Rightarrow> bool" where
  "ttu_parent t parent computed \<longleftrightarrow>
     (case TypeSystem_GetRelation t (GetType parent) computed of
        Inl (RelationUndefinedError _ _) \<Rightarrow> False | _ \<Rightarrow> True)"

fun holds :: "type_system \<Rightarrow> tuple_key set \<Rightarrow> string \<Rightarrow> (string \<Rightarrow> string \<Rightarrow> bool) \<Rightarrow> string \<Rightarrow> string \<Rightarrow>
    userset \<Rightarrow> bool" where
  "holds t T u H ob r Userset_Unset = False"
| "holds t T u H ob r Userset_This =
     (\<exists>tk \<in> T. tk_object tk = ob \<and> tk_relation tk = r \<and> grants_user H u (tk_user tk))"
| "holds t T u H ob r (Userset_ComputedUserset relation) = H ob relation"
| "holds t T u H ob r (Userset_TupleToUserset ttu) =
     (\<exists>tk \<in> T. tk_object tk = ob \<and> tk_relation tk = ttu_GetTupleset ttu \<and>
        ttu_parent t (fst (SplitObjectRelation (tk_user tk))) (ttu_GetComputed ttu) \<and>
        H (fst (SplitObjectRelation (tk_user tk))) (ttu_GetComputed ttu))"
| "holds t T u H ob r (Userset_Union cs) = (\<exists>c \<in> set cs. holds t T u H ob r c)"
| "holds t T u H ob r (Userset_Intersection cs) = (\<forall>c \<in> set cs. holds t T u H ob r c)"
| "holds t T u H ob r (Userset_Difference base sub) =
     (holds t T u H ob r base \<and> \<not> holds t T u H ob r sub)"

definition holds_relation :: "type_system \<Rightarrow> tuple_key set \<Rightarrow> string \<Rightarrow> (string \<Rightarrow> string \<Rightarrow> bool) \<Rightarrow>
    string \<Rightarrow> string \<Rightarrow> bool" where
  "holds_relation t T u H ob r \<longleftrightarrow> IsSelfDefining (NewTupleKey ob r u) \<or>
     (\<exists>rel. TypeSystem_GetRelation t (GetType ob) r = Inr rel \<and> holds t T u H ob r (rel_rewrite rel))"

definition is_model :: "type_system \<Rightarrow> tuple_key set \<Rightarrow> string \<Rightarrow> (string \<Rightarrow> string \<Rightarrow> bool) \<Rightarrow> bool" where
  "is_model t T u H \<longleftrightarrow> (\<forall>ob r. H ob r \<longleftrightarrow> holds_relation t T u H ob r)"

text \<open>The difference operator; without it relations only grow with what others grant.\<close>

fun no_difference :: "userset \<Rightarrow> bool" where
  "no_difference (Userset_Union cs) \<longleftrightarrow> (\<forall>c \<in> set cs. no_difference c)"
| "no_difference (Userset_Intersection cs) \<longleftrightarrow> (\<forall>c \<in> set cs. no_difference c)"
| "no_difference (Userset_Difference _ _) = False"
| "no_difference _ = True"

section \<open>What the checker relies on\<close>

text \<open>
  The names of a model are as validation leaves them, stored users are objects or usersets, and a
  tuple that is valid for reading is admitted by a type restriction of its relation.
\<close>

fun ttu_nodes :: "userset \<Rightarrow> tuple_to_userset option list" where
  "ttu_nodes (Userset_TupleToUserset x) = [x]"
| "ttu_nodes (Userset_Union cs) = concat (map ttu_nodes cs)"
| "ttu_nodes (Userset_Intersection cs) = concat (map ttu_nodes cs)"
| "ttu_nodes (Userset_Difference b s) = ttu_nodes b @ ttu_nodes s"
| "ttu_nodes _ = []"

definition ref_named :: "relation_reference \<Rightarrow> bool" where
  "ref_named ref \<longleftrightarrow> rr_type ref \<noteq> [] \<and> CHR ''#'' \<notin> set (rr_type ref)"

definition names_ok :: "type_system \<Rightarrow> bool" where
  "names_ok t \<longleftrightarrow> (\<forall>ot r rel. TypeSystem_GetRelation t ot r = Inr rel \<longrightarrow> r \<noteq> [] \<and>
     (\<forall>ref \<in> set (rel_DirectlyRelatedUserTypes rel). ref_named ref) \<and>
     (\<forall>ttu \<in> set (ttu_nodes (rel_rewrite rel)). ttu_GetTupleset ttu \<noteq> []))"

definition tuples_admitted :: "('i, 'k) check_env \<Rightarrow> tuple_key set \<Rightarrow> bool" where
  "tuples_admitted env contents \<longleftrightarrow> (\<forall>tk \<in> contents.
     (IsValidObject (tk_user tk) \<or> IsValidUserset (tk_user tk)) \<and>
     (ev_validTuple env tk \<longrightarrow> (\<exists>rel ref.
        TypeSystem_GetRelation (ev_typesys env) (GetType (tk_object tk)) (tk_relation tk) = Inr rel \<and>
        ref \<in> set (rel_DirectlyRelatedUserTypes rel) \<and> ref_admits ref (tk_user tk))))"

definition checkable :: "('i, 'k) check_env \<Rightarrow> tuple_key set \<Rightarrow> bool" where
  "checkable env contents \<longleftrightarrow> live (ev_schedule env) \<and> names_ok (ev_typesys env) \<and>
     tuples_admitted env contents"

text \<open>A request of a check for the user.\<close>

definition request_ok :: "string \<Rightarrow> string \<Rightarrow> pb_struct option \<Rightarrow> nat \<Rightarrow> check_request \<Rightarrow> bool" where
  "request_ok store u reqCtx ik req \<longleftrightarrow> rq_StoreID req = store \<and> rq_Context req = reqCtx \<and>
     rq_invariantCacheKey req = ik \<and>
     tk_user (rq_TupleKey req) = u \<and> full_user u \<and> IsValidObject (tk_object (rq_TupleKey req))"

section \<open>The filtered iterators\<close>

sublocale tuple_reader \<subseteq> rd_keys: mapped_iterator "rd_next rd" "rd_head rd" items "\<lambda>_. ErrIteratorDone"
    "\<lambda>t. Inr (tup_key t)"
  by unfold_locales

sublocale tuple_reader \<subseteq> rd_valid: filtered_iterator "tupleKeyIterator_Next (rd_next rd)"
    "tupleKeyIterator_Head (rd_head rd)" "\<lambda>t. map tup_key (items (wi_inner t))" "\<lambda>_. ErrIteratorDone" flt
  for flt
  using rd_keys.mapped.iterator_axioms
  by (simp add: filtered_iterator_def tupleKeyIterator_Next_def tupleKeyIterator_Head_def)

sublocale tuple_reader \<subseteq> rd_checked: condition_iterator
    "filteredTupleKeyIterator_Next (tupleKeyIterator_Next (rd_next rd)) flt"
    "filteredTupleKeyIterator_Head (tupleKeyIterator_Next (rd_next rd)) (tupleKeyIterator_Head (rd_head rd)) flt"
    "\<lambda>f. filter flt (map tup_key (items (wi_inner (wi_inner f))))" "\<lambda>_. ErrIteratorDone" cond
  for flt cond
  unfolding condition_iterator_def by (rule rd_valid.filtered.iterator_axioms)

lemma cond_items_sub: "set (cond_items c ks) \<subseteq> {k \<in> set ks. c k = Inr True}"
  by (induction ks) (auto split: sum.splits)

lemma cond_fin_fatal:
  "k \<in> set ks \<Longrightarrow> c k = Inl e \<Longrightarrow> is_fatal e \<Longrightarrow> is_fatal (cond_fin c f v le ks)"
  by (induction ks arbitrary: v le) (auto split: sum.split)

lemma cond_items_all:
  assumes "\<not> is_fatal (cond_fin c f v le ks)"
  shows "set (cond_items c ks) = {k \<in> set ks. c k = Inr True}"
  using cond_items_filter [of ks c] cond_fin_fatal [of _ ks c _ f v le] assms by fastforce

context tuple_reader
begin

text \<open>What the handlers read: usable tuples, all of them unless the iteration ends with a fatal error.\<close>

lemma filtered_drain:
  assumes "ev_reader env = rd"
  shows "\<exists>keys err. drain (filtered_next env reqCtx) None (filtered_iterator_of it) = Some (keys, err) \<and>
    set keys \<subseteq> {k \<in> tup_key ` set (items it). ev_validTuple env k \<and> ev_condition env reqCtx k = Inr True} \<and>
    (is_fatal err \<or>
     set keys = {k \<in> tup_key ` set (items it). ev_validTuple env k \<and> ev_condition env reqCtx k = Inr True})"
proof -
  let ?c = "ev_condition env reqCtx"
  let ?ks = "filter (ev_validTuple env) (map tup_key (items it))"
  have "drain (filtered_next env reqCtx) None (filtered_iterator_of it) =
      Some (cond_items ?c ?ks, cond_fin ?c ErrIteratorDone False None ?ks)"
    unfolding filtered_next_def assms
    by (subst rd_checked.conditions.drain_items)
       (simp add: rd_checked.citems_def rd_checked.cfin_def filtered_iterator_of_def NewConditionsFiltered_def
          wrap_iter_def)
  then show ?thesis
    using cond_items_sub [of ?c ?ks] cond_items_all [of ?c ErrIteratorDone False None ?ks] by auto
qed

lemma filtered_first:
  assumes "ev_reader env = rd"
  shows "\<exists>res s'. filtered_next env reqCtx None (filtered_iterator_of it) = Some (res, s') \<and>
    (is_ok res \<longrightarrow> (\<exists>k \<in> tup_key ` set (items it). ev_validTuple env k \<and> ev_condition env reqCtx k = Inr True)) \<and>
    (res = Inl ErrIteratorDone \<longrightarrow>
      \<not> (\<exists>k \<in> tup_key ` set (items it). ev_validTuple env k \<and> ev_condition env reqCtx k = Inr True))"
proof -
  let ?c = "ev_condition env reqCtx"
  let ?ks = "filter (ev_validTuple env) (map tup_key (items it))"
  let ?f = "filtered_iterator_of it"
  have i: "rd_checked.citems (ev_validTuple env) ?c ?f = cond_items ?c ?ks"
    "rd_checked.cfin (ev_validTuple env) ?c ?f = cond_fin ?c ErrIteratorDone False None ?ks"
    by (simp_all add: rd_checked.citems_def rd_checked.cfin_def filtered_iterator_of_def
        NewConditionsFiltered_def wrap_iter_def)
  show ?thesis
  proof (cases ?f rule: rd_checked.conditions.next_cases [of "ev_validTuple env" ?c])
    case (elem x xs s')
    from elem(1) have "x \<in> set (cond_items ?c ?ks)" unfolding i(1) by simp
    with cond_items_sub [of ?c ?ks] elem(2) show ?thesis by (auto simp: filtered_next_def assms)
  next
    case (finished s')
    with i cond_items_all [of ?c ErrIteratorDone False None ?ks] show ?thesis
      by (auto simp: filtered_next_def assms is_fatal_def)
  qed
qed

end

section \<open>Handlers\<close>

text \<open>A handler that, when it returns, returns an outcome that is right for \<open>b\<close>.\<close>

definition handles :: "(bool \<Rightarrow> outcome \<Rightarrow> bool) \<Rightarrow> bool \<Rightarrow> handled \<Rightarrow> bool" where
  "handles R b h \<longleftrightarrow> (\<forall>x. h = Some x \<longrightarrow> (\<exists>out. x = Returned out \<and> R b out))"

definition resolves :: "(bool \<Rightarrow> outcome \<Rightarrow> bool) \<Rightarrow> (string \<Rightarrow> string \<Rightarrow> bool) \<Rightarrow> string \<Rightarrow> string \<Rightarrow>
    pb_struct option \<Rightarrow> nat \<Rightarrow> string set \<Rightarrow> resolver \<Rightarrow> bool" where
  "resolves R H store u reqCtx ik V res \<longleftrightarrow> (\<forall>p req. request_ok store u reqCtx ik req \<longrightarrow> rq_VisitedPaths req = V \<longrightarrow>
     handles R (H (tk_object (rq_TupleKey req)) (tk_relation (rq_TupleKey req))) (res p req))"

lemma handles_Some [simp]: "handles R b (Some (Returned out)) \<longleftrightarrow> R b out"
  by (simp add: handles_def)

lemma handles_None [simp]: "handles R b None"
  by (simp add: handles_def)

lemma those_handled:
  "list_all2 (handles R) bs hs \<Longrightarrow> those hs = Some xs \<Longrightarrow>
     \<exists>outs. xs = map Returned outs \<and> list_all2 R bs outs"
proof (induction hs arbitrary: bs xs)
  case Nil
  then show ?case by auto
next
  case (Cons h hs)
  from Cons.prems(2) obtain x ys where x: "h = Some x" "those hs = Some ys" "xs = x # ys"
    by (auto split: option.splits)
  from Cons.prems(1) obtain b bs' where b: "bs = b # bs'" "handles R b h" "list_all2 (handles R) bs' hs"
    by (auto simp: list_all2_Cons2)
  from Cons.IH [OF b(3) x(2)] obtain outs where "ys = map Returned outs" "list_all2 R bs' outs" by blast
  moreover from b(2) x(1) obtain out where "x = Returned out" "R b out" by (auto simp: handles_def)
  ultimately have "xs = map Returned (out # outs) \<and> list_all2 R bs (out # outs)" using x b by simp
  then show ?case by blast
qed

context outcome_relation
begin

lemma union_handles:
  assumes "live \<sigma>" and "list_all2 (handles R) bs hs"
  shows "handles R (\<exists>b \<in> set bs. b) (run_union \<sigma> p hs)"
proof (cases "those hs")
  case None
  then show ?thesis by (simp add: run_union_def)
next
  case (Some xs)
  then obtain outs where outs: "xs = map Returned outs" "list_all2 R bs outs"
    using those_handled [OF assms(2)] by blast
  from check_union_live [OF assms(1)] obtain out where "check_union \<sigma> p xs = Some out"
      "union_verdict (set outs) out" unfolding outs(1) by blast
  with union_law [OF outs(2)] Some show ?thesis by (simp add: run_union_def)
qed

text \<open>
  The dispatched checks of an iteration: \<open>child\<close> gives the key that is checked for a tuple. What is
  checked is the whole of \<open>b\<close>, or the iteration ends with an error.
\<close>

lemma process_dispatches_R:
  assumes "resolves R H store u reqCtx ik (rq_VisitedPaths req) delegate" and "request_ok store u reqCtx ik req"
    and "\<forall>tk \<in> set keys. tk_user (child tk) = u \<and> IsValidObject (tk_object (child tk))"
    and "processDispatches delegate p i
      (map (\<lambda>tk. DispatchParams req (child tk) strategy) keys @ end_message err) = Some outs"
  shows "\<exists>outs1. outs = outs1 @ (if IterIsDoneOrCancelled err then [] else [Inl (CE_Iterator err)]) \<and>
    list_all2 R (map (\<lambda>tk. H (tk_object (child tk)) (tk_relation (child tk))) keys) outs1"
  using assms(3,4)
proof (induction keys arbitrary: i outs)
  case Nil
  then show ?case by (auto simp: end_message_def split: if_splits)
next
  case (Cons tk keys)
  let ?child = "(prepareChildRequest req (child tk) strategy)\<lparr>rq_Depth :=
      Suc (rq_Depth (prepareChildRequest req (child tk) strategy))\<rparr>"
  have "request_ok store u reqCtx ik ?child" "rq_VisitedPaths ?child = rq_VisitedPaths req"
      "rq_TupleKey ?child = child tk"
    using assms(2) Cons.prems(1) by (simp_all add: request_ok_def prepareChildRequest_def request_clone_def)
  with assms(1) have handled: "handles R (H (tk_object (child tk)) (tk_relation (child tk))) (delegate (i # p) ?child)"
    unfolding resolves_def by metis
  from Cons.prems(2) obtain h outs' where h: "delegate (i # p) ?child = Some h" "outs = runHandler h # outs'"
      "processDispatches delegate p (Suc i)
        (map (\<lambda>tk. DispatchParams req (child tk) strategy) keys @ end_message err) = Some outs'"
    by (auto simp: dispatch_def split: option.splits)
  from handled h(1) obtain out where "h = Returned out" "R (H (tk_object (child tk)) (tk_relation (child tk))) out"
    by (auto simp: handles_def)
  moreover from Cons.IH [OF _ h(3)] Cons.prems(1) obtain outs1 where
      "outs' = outs1 @ (if IterIsDoneOrCancelled err then [] else [Inl (CE_Iterator err)])"
      "list_all2 R (map (\<lambda>tk. H (tk_object (child tk)) (tk_relation (child tk))) keys) outs1" by auto
  ultimately show ?case
    using h(2) by (intro exI [of _ "out # outs1"]) (simp add: runHandler_def)
qed

lemma run_dispatches_R:
  assumes "resolves R H store u reqCtx ik (rq_VisitedPaths req) delegate" and "request_ok store u reqCtx ik req"
    and "\<forall>tk \<in> set keys. tk_user (child tk) = u \<and> IsValidObject (tk_object (child tk))"
    and "live \<sigma>"
    and "\<exists>tk \<in> set keys. H (tk_object (child tk)) (tk_relation (child tk)) \<Longrightarrow> b"
    and "IterIsDoneOrCancelled err \<Longrightarrow> b \<Longrightarrow>
      \<exists>tk \<in> set keys. H (tk_object (child tk)) (tk_relation (child tk))"
  shows "handles R b (run_dispatches \<sigma> delegate p
    (map (\<lambda>tk. DispatchParams req (child tk) strategy) keys @ end_message err))"
proof (cases "processDispatches delegate p 0
    (map (\<lambda>tk. DispatchParams req (child tk) strategy) keys @ end_message err)")
  case None
  then show ?thesis by (simp add: run_dispatches_def)
next
  case (Some outs)
  let ?bs = "map (\<lambda>tk. H (tk_object (child tk)) (tk_relation (child tk))) keys"
  from process_dispatches_R [OF assms(1-3) Some] obtain outs1 where
    outs: "outs = outs1 @ (if IterIsDoneOrCancelled err then [] else [Inl (CE_Iterator err)])"
      "list_all2 R ?bs outs1" by blast
  from consumeDispatches_live [OF assms(4)] obtain out where out: "consumeDispatches \<sigma> p outs = Some out"
      "union_verdict (set outs) out" by blast
  have "R b out"
  proof (cases "IterIsDoneOrCancelled err")
    case True
    then have "(\<exists>x \<in> set ?bs. x) \<longleftrightarrow> b" using assms(5,6) by auto
    with True outs out(2) union_law [OF outs(2), of out] show ?thesis by simp
  next
    case False
    have "list_all2 R (b # ?bs) (Inl (CE_Iterator err) # outs1)" using outs(2) error_law by simp
    moreover have "(\<exists>x \<in> set (b # ?bs). x) \<longleftrightarrow> b" using assms(5) by auto
    ultimately show ?thesis
      using union_law [of "b # ?bs" "Inl (CE_Iterator err) # outs1" out] False outs(1) out(2) by simp
  qed
  with out Some show ?thesis by (simp add: run_dispatches_def)
qed

end

section \<open>Users of tuples\<close>

lemma valid_object_full: "IsValidObject ob \<Longrightarrow> full_object ob"
  using free_of_no_hash_colon(1) by (auto simp: IsValidObject_iff full_object_def BuildObject_def [of _ "_"])
    (metis BuildObject_def SplitObject_BuildObject append_Cons append_Nil snd_conv)

lemma userset_parts:
  assumes "IsValidUserset user"
  shows "IsValidObject (fst (SplitObjectRelation user))" and "GetRelation user \<noteq> []"
    and "GetRelation user = snd (SplitObjectRelation user)"
proof -
  from assms obtain t i r where user: "user = BuildObject t (ToObjectRelationString i r)" "t \<noteq> []" "i \<noteq> []"
      "r \<noteq> []" and free: "free_of ''#: '' t" "free_of ''#: *'' i" "free_of ''#: *'' r"
    by (auto simp: IsValidUserset_iff)
  have split: "SplitObjectRelation user = (BuildObject t i, r)"
    using free free_of_no_hash_colon unfolding user(1) by simp
  have "free_of ''#: '' i" using free(2) by (auto simp: free_of_def)
  with split user free(1) show "IsValidObject (fst (SplitObjectRelation user))"
    by (auto simp: IsValidObject_iff)
  from split user(4) show "GetRelation user \<noteq> []" "GetRelation user = snd (SplitObjectRelation user)"
    by (simp_all add: GetRelation_def)
qed

lemma userset_no_wildcard:
  assumes "IsValidUserset user"
  shows "\<not> IsTypedWildcard (fst (SplitObjectRelation user))"
proof -
  from assms obtain t i r where user: "user = BuildObject t (ToObjectRelationString i r)"
      and free: "free_of ''#: '' t" "free_of ''#: *'' i" "free_of ''#: *'' r"
    by (auto simp: IsValidUserset_iff)
  have "SplitObjectRelation user = (BuildObject t i, r)"
    using free free_of_no_hash_colon unfolding user(1) by simp
  moreover have "i \<noteq> Wildcard" using free(2) by (auto simp: free_of_def Wildcard_def)
  ultimately show ?thesis
    using free(1) free_of_no_hash_colon by (simp add: IsTypedWildcard_def)
qed

definition userset_child :: "string \<Rightarrow> tuple_key \<Rightarrow> tuple_key" where
  "userset_child u tk =
     NewTupleKey (fst (SplitObjectRelation (tk_user tk))) (snd (SplitObjectRelation (tk_user tk))) u"

lemma produce_usersets:
  "\<forall>tk \<in> set keys. IsValidUserset (tk_user tk) \<Longrightarrow>
     produceUsersetDispatches t req strategy keys err =
       map (\<lambda>tk. DispatchParams req (userset_child (tk_user (rq_TupleKey req)) tk) strategy) keys @ end_message err"
proof (induction keys)
  case (Cons tk keys)
  then have "\<not> IsTypedWildcard (fst (SplitObjectRelation (tk_user tk)))"
      "snd (SplitObjectRelation (tk_user tk)) \<noteq> []"
    using userset_no_wildcard userset_parts(2,3) by fastforce+
  with Cons show ?case
    by (cases "SplitObjectRelation (tk_user tk)") (simp add: userset_child_def)
qed simp

definition ttu_child :: "string \<Rightarrow> string \<Rightarrow> tuple_key \<Rightarrow> tuple_key" where
  "ttu_child u computed tk = NewTupleKey (fst (SplitObjectRelation (tk_user tk))) computed u"

lemma produce_ttus:
  "produceTTUDispatches t computed req strategy keys err =
     map (\<lambda>tk. DispatchParams req (ttu_child (tk_user (rq_TupleKey req)) computed tk) strategy)
       (filter (\<lambda>tk. ttu_parent t (fst (SplitObjectRelation (tk_user tk))) computed) keys) @ end_message err"
  by (induction keys) (auto simp: ttu_child_def ttu_parent_def split: prod.split sum.split ts_error.split)

lemma tuple_user_object:
  assumes "IsValidObject user \<or> IsValidUserset user"
  shows "IsValidObject (fst (SplitObjectRelation user))"
  using assms userset_parts(1) valid_object_no_hash SplitObjectRelation_no_hash by fastforce

lemma wildcard_restriction:
  assumes "ty \<noteq> []" and "CHR '':'' \<notin> set ty"
  shows "restriction_matches user (WildcardRelationReference ty) \<longleftrightarrow> user = TypedPublicWildcard ty"
proof
  assume "restriction_matches user (WildcardRelationReference ty)"
  then have "IsTypedWildcard user" "GetType user = ty"
    by (auto simp: restriction_matches_def WildcardRelationReference_def)
  with typed_wildcard_parts(1) show "user = TypedPublicWildcard ty" by (metis TypedPublicWildcard_def)
next
  assume "user = TypedPublicWildcard ty"
  with assms show "restriction_matches user (WildcardRelationReference ty)"
    by (simp add: restriction_matches_def WildcardRelationReference_def TypedPublicWildcard_def IsTypedWildcard_def)
qed

lemma relation_restriction:
  "restriction_matches user ref \<Longrightarrow> rr_GetRelation ref \<noteq> [] \<Longrightarrow> IsValidUserset user"
  by (auto simp: restriction_matches_def rr_GetRelation_def IsObjectRelation_def
      split: option.splits relation_or_wildcard.splits)

lemma GetType_no_colon: "CHR '':'' \<notin> set (GetType user)"
proof (cases "CHR '':'' \<in> set user")
  case True
  then obtain a b where "user = a @ CHR '':'' # b" "CHR '':'' \<notin> set a" by (rule split_first_byte)
  then show ?thesis using GetType_BuildObject [of a b] by (simp add: BuildObject_def)
qed (simp add: GetType_def SplitObject_no_colon)

lemma request_full:
  assumes "request_ok store u reqCtx ik req" and "tk_relation (rq_TupleKey req) \<noteq> []"
  shows "full_object (tk_object (rq_TupleKey req))"
    and "full_key (NewTupleKey (tk_object (rq_TupleKey req)) (tk_relation (rq_TupleKey req)) u)"
  using assms valid_object_full by (auto simp: request_ok_def full_key_def NewTupleKey_def)

section \<open>Direct relationships\<close>

text \<open>
  The guards of \<open>checkDirect\<close> leave out only handlers that could not find a tuple: a usable tuple is
  admitted by a type restriction.
\<close>

lemma usable_admitted:
  assumes "checkable env contents" and "tk \<in> usable env reqCtx contents"
  obtains rel ref where
    "TypeSystem_GetRelation (ev_typesys env) (GetType (tk_object tk)) (tk_relation tk) = Inr rel"
    and "ref \<in> set (rel_DirectlyRelatedUserTypes rel)" and "ref_admits ref (tk_user tk)"
    and "tk_relation tk \<noteq> []" and "ref_named ref"
    and "IsValidObject (tk_user tk) \<or> IsValidUserset (tk_user tk)"
  using assms unfolding checkable_def tuples_admitted_def names_ok_def usable_def by blast

lemma target_reference [simp]:
  "rr_type (DirectRelationReference t r) = t" "rr_GetRelation (DirectRelationReference t r) = r"
  "\<not> rr_HasWildcard (DirectRelationReference t r)"
  "rr_relationOrWildcard (DirectRelationReference t r) = None \<longleftrightarrow> r = []"
  by (auto simp: DirectRelationReference_def rr_GetRelation_def rr_HasWildcard_def)

lemma publicly_assignable:
  assumes "TypeSystem_GetRelation t ot r = Inr rel" and "ref \<in> set (rel_DirectlyRelatedUserTypes rel)"
    and "rr_type ref = ty" and "rr_HasWildcard ref"
  shows "IsPubliclyAssignable t (DirectRelationReference ot r) ty = Inr True"
  using assms by (auto simp: IsPubliclyAssignable_def PubliclyAssignableReferences_def find_None_iff)

lemma directly_related:
  assumes "TypeSystem_GetRelation t (GetType (tk_object k)) (tk_relation k) = Inr rel"
    and "ref \<in> set (rel_DirectlyRelatedUserTypes rel)"
    and "RelationEquals (DirectRelationReference (GetType (tk_user k)) (GetRelation (tk_user k))) ref"
  shows "shouldCheckDirectTuple t k"
  using assms by (auto simp: shouldCheckDirectTuple_def IsDirectlyRelated_def)

lemma RelationEquals_cases:
  "rr_type ref = t \<Longrightarrow> rr_relationOrWildcard ref = None \<Longrightarrow> RelationEquals (DirectRelationReference t []) ref"
  "rr_type ref = t \<Longrightarrow> rr_relationOrWildcard ref = Some (RR_Relation r) \<Longrightarrow> r \<noteq> [] \<Longrightarrow>
     RelationEquals (DirectRelationReference t r) ref"
  by (auto simp: RelationEquals_def) (simp_all add: rr_GetRelation_def)

lemma direct_guard:
  assumes "checkable env contents" and "tk \<in> usable env reqCtx contents"
    and "tk_object tk = tk_object k" and "tk_relation tk = tk_relation k" and "tk_user tk = tk_user k"
  shows "shouldCheckDirectTuple (ev_typesys env) k \<or>
    (shouldCheckPublicAssignable (ev_typesys env) k \<and> tk_user k = TypedPublicWildcard (GetType (tk_user k)) \<and>
     \<not> IsObjectRelation (tk_user k))"
proof -
  obtain rel ref where rel: "TypeSystem_GetRelation (ev_typesys env) (GetType (tk_object k)) (tk_relation k) = Inr rel"
    and ref: "ref \<in> set (rel_DirectlyRelatedUserTypes rel)" "ref_admits ref (tk_user k)"
    and user: "IsValidObject (tk_user k) \<or> IsValidUserset (tk_user k)"
    using usable_admitted [OF assms(1,2)] assms(3-5) by metis
  from user show ?thesis
  proof (cases "tk_user k" rule: object_or_userset)
    case (Object t i)
    note u = object_user [OF Object(2,3)]
    from ref(2) consider "rr_type ref = t" "rr_relationOrWildcard ref = None"
      | "rr_type ref = t" "rr_relationOrWildcard ref = Some (RR_Wildcard True)" "i = Wildcard"
      unfolding Object(1) admits_object [OF Object(2,3)]
      by (auto split: option.splits relation_or_wildcard.splits)
    then show ?thesis
    proof cases
      case 1
      with directly_related [OF rel ref(1)] RelationEquals_cases(1) [OF 1] u(2) Object(1,3) show ?thesis by simp
    next
      case 2
      then have "rr_HasWildcard ref" by (simp add: rr_HasWildcard_def)
      from publicly_assignable [OF rel ref(1) 2(1) this] u(3) 2(3) Object(3) show ?thesis
        by (simp add: shouldCheckPublicAssignable_def Object(1) TypedPublicWildcard_def)
    qed
  next
    case (Userset t i r)
    note u = userset_user [OF Userset(2,3,5)]
    from ref(2) have "rr_type ref = t" "rr_relationOrWildcard ref = Some (RR_Relation r)"
      unfolding Userset(1) admits_userset [OF Userset(2,3,5)] by simp_all
    from directly_related [OF rel ref(1)] RelationEquals_cases(2) [OF this Userset(6)] u(3) Userset(1,3)
    show ?thesis by simp
  qed
qed

lemma public_guard:
  assumes "checkable env contents" and "tk \<in> usable env reqCtx contents"
    and "tk_object tk = tk_object k" and "tk_relation tk = tk_relation k"
    and "tk_user tk = TypedPublicWildcard (GetType (tk_user k))" and "\<not> IsObjectRelation (tk_user k)"
  shows "shouldCheckPublicAssignable (ev_typesys env) k"
proof -
  let ?t = "GetType (tk_user k)"
  obtain rel ref where rel: "TypeSystem_GetRelation (ev_typesys env) (GetType (tk_object k)) (tk_relation k) = Inr rel"
    and ref: "ref \<in> set (rel_DirectlyRelatedUserTypes rel)" "ref_admits ref (TypedPublicWildcard ?t)"
    and user: "IsValidObject (TypedPublicWildcard ?t) \<or> IsValidUserset (TypedPublicWildcard ?t)"
    using usable_admitted [OF assms(1,2)] assms(3-5) by metis
  have "\<not> IsValidUserset (TypedPublicWildcard ?t)"
    by (auto simp: IsValidUserset_iff TypedPublicWildcard_def BuildObject_def ToObjectRelationString_def
        Wildcard_def free_of_def append_eq_append_conv2 append_eq_Cons_conv Cons_eq_append_conv)
  with user have valid: "IsValidObject (BuildObject ?t Wildcard)" by (simp add: TypedPublicWildcard_def)
  from ref(2) have "rr_type ref = ?t" "rr_HasWildcard ref"
    unfolding TypedPublicWildcard_def admits_object [OF valid GetType_no_colon]
    by (auto simp: rr_HasWildcard_def split: option.splits relation_or_wildcard.splits)
  with publicly_assignable [OF rel ref(1)] assms(6) show ?thesis by (simp add: shouldCheckPublicAssignable_def)
qed

lemma userset_guard:
  assumes "checkable env contents" and "tk \<in> usable env reqCtx contents"
    and "tk_object tk = tk_object (rq_TupleKey req)" and "tk_relation tk = tk_relation (rq_TupleKey req)"
    and "IsObjectRelation (tk_user tk)"
  shows "\<exists>ref \<in> set (directly_related_usersets env req). restriction_matches (tk_user tk) ref"
proof -
  let ?k = "rq_TupleKey req"
  obtain rel ref where rel: "TypeSystem_GetRelation (ev_typesys env) (GetType (tk_object ?k)) (tk_relation ?k) = Inr rel"
    and ref: "ref \<in> set (rel_DirectlyRelatedUserTypes rel)" "ref_admits ref (tk_user tk)"
    using usable_admitted [OF assms(1,2)] assms(3,4) by metis
  have "IsValidObject (tk_user tk) \<or> IsValidUserset (tk_user tk)"
    using assms(5) by (simp add: IsObjectRelation_def)
  then show ?thesis
  proof (cases "tk_user tk" rule: object_or_userset)
    case (Object t i)
    with assms(5) object_user [OF Object(2,3)] show ?thesis by simp
  next
    case (Userset t i r)
    note u = userset_user [OF Userset(2,3,5)]
    from ref(2) have r: "rr_type ref = t" "rr_relationOrWildcard ref = Some (RR_Relation r)"
      unfolding Userset(1) admits_userset [OF Userset(2,3,5)] by simp_all
    then have "restriction_matches (tk_user tk) ref" "rr_GetRelation ref \<noteq> []"
      using u Userset(1,3,6) by (simp_all add: restriction_matches_def rr_GetRelation_def)
    with rel ref(1) show ?thesis
      by (auto simp: directly_related_usersets_def DirectlyRelatedUsersets_def GetDirectlyRelatedUserTypes_def)
  qed
qed

lemma public_reference:
  assumes "names_ok t" and "shouldCheckPublicAssignable t k"
  shows "ref_named (WildcardRelationReference (GetType (tk_user k)))"
proof -
  have "\<exists>rel. TypeSystem_GetRelation t (GetType (tk_object k)) (tk_relation k) = Inr rel \<and>
      List.find (\<lambda>r. rr_type r = GetType (tk_user k) \<and> rr_HasWildcard r) (rel_DirectlyRelatedUserTypes rel) \<noteq> None"
    using assms(2) by (auto simp: shouldCheckPublicAssignable_def IsPubliclyAssignable_def
        PubliclyAssignableReferences_def split: if_splits sum.splits)
  then obtain rel ref where "TypeSystem_GetRelation t (GetType (tk_object k)) (tk_relation k) = Inr rel"
      "ref \<in> set (rel_DirectlyRelatedUserTypes rel)" "rr_type ref = GetType (tk_user k)"
    unfolding find_None_iff by blast
  with assms(1) have "ref_named ref" unfolding names_ok_def by blast
  with \<open>rr_type ref = GetType (tk_user k)\<close> show ?thesis
    by (simp add: ref_named_def WildcardRelationReference_def)
qed

lemma userset_references:
  assumes "names_ok (ev_typesys env)"
  shows "\<forall>ref \<in> set (directly_related_usersets env req). ref_named ref \<and> rr_GetRelation ref \<noteq> []"
  using assms by (auto simp: directly_related_usersets_def DirectlyRelatedUsersets_def
      GetDirectlyRelatedUserTypes_def names_ok_def split: sum.splits)

text \<open>The usersets among the users of the tuples that one of the type restrictions matches.\<close>

definition via_usersets :: "tuple_key set \<Rightarrow> (string \<Rightarrow> string \<Rightarrow> bool) \<Rightarrow> tuple_key \<Rightarrow>
    relation_reference set \<Rightarrow> bool" where
  "via_usersets T H k refs \<longleftrightarrow> (\<exists>tk \<in> T. tk_object tk = tk_object k \<and> tk_relation tk = tk_relation k \<and>
     (\<exists>ref \<in> refs. restriction_matches (tk_user tk) ref) \<and>
     H (fst (SplitObjectRelation (tk_user tk))) (snd (SplitObjectRelation (tk_user tk))))"

lemma via_usersets_Un [simp]: "via_usersets T H k (A \<union> B) \<longleftrightarrow> via_usersets T H k A \<or> via_usersets T H k B"
  and via_usersets_empty [simp]: "\<not> via_usersets T H k {}"
  by (auto simp: via_usersets_def)

lemma via_usersets_insert: "via_usersets T H k (insert x A) \<longleftrightarrow> via_usersets T H k {x} \<or> via_usersets T H k A"
  by (auto simp: via_usersets_def)

text \<open>What \<open>ResolveCheck\<close> does when the request is neither too deep nor part of a cycle.\<close>

lemma ResolveCheck_step_fresh:
  assumes "sc_err (ev_schedule env) p = None" and "rq_Depth req \<noteq> ev_maxDepth env"
    and "TupleKeyToString (rq_TupleKey req) \<notin> rq_VisitedPaths req" and k: "k = rq_TupleKey req"
    and ot: "ot = GetType (tk_object k)"
  shows "ResolveCheck_step env self delegate p req =
    (if IsSelfDefining k then Some (Returned (Inr (allowed_response True)))
     else case TypeSystem_GetRelation (ev_typesys env) ot (tk_relation k) of
       Inl _ \<Rightarrow> Some (Returned (Inl (CE_RelationUndefined (tk_relation k) ot)))
     | Inr rel \<Rightarrow> (case ev_PathExists env (tk_user k) (tk_relation k) ot of
         Inl err \<Rightarrow> Some (Returned (Inl (CE_TypeSystem err)))
       | Inr hasPath \<Rightarrow> if \<not> hasPath then Some (Returned (Inr (allowed_response False)))
           else CheckRewrite env self delegate p
             (req\<lparr>rq_VisitedPaths := insert (TupleKeyToString k) (rq_VisitedPaths req)\<rparr>) (rel_rewrite rel)))"
  using assms(1-3) unfolding ot k
  by (simp add: ResolveCheck_step_def request_hasCycle_def Let_def GetType_def cong: sum.case_cong if_cong)

context tuple_reader
begin

lemma direct_user_tuple_R:
  assumes "outcome_relation R ex" and "ev_reader env = rd" and "valid"
    and "request_ok store u reqCtx ik req" and "tk_relation (rq_TupleKey req) \<noteq> []"
  shows "handles R (\<exists>tk \<in> usable env reqCtx contents. tk_object tk = tk_object (rq_TupleKey req) \<and>
      tk_relation tk = tk_relation (rq_TupleKey req) \<and> tk_user tk = u) (checkDirectUserTuple env req)"
proof -
  let ?k = "rq_TupleKey req"
  let ?T = "usable env reqCtx contents"
  let ?b = "\<exists>tk \<in> ?T. tk_object tk = tk_object ?k \<and> tk_relation tk = tk_relation ?k \<and> tk_user tk = u"
  let ?flt = "\<lparr>rf_Object = tk_object ?k, rf_Relation = tk_relation ?k, rf_User = u, rf_Conditions = []\<rparr>"
  note full = request_full(2) [OF assms(4,5)]
  have req: "rq_StoreID req = store" "rq_Context req = reqCtx" "tk_user ?k = u"
    using assms(4) by (simp_all add: request_ok_def)
  show ?thesis
  proof (cases "rd_ReadUserTuple rd store ?flt")
    case (Inl err)
    show ?thesis
    proof (cases "err = ErrNotFound")
      case True
      with no_user_law [OF assms(3) full] Inl have b: "?b \<longleftrightarrow> False"
        by (auto simp: usable_def same_key_def NewTupleKey_def)
      from Inl True req outcome_relation.answer_law [OF assms(1), of False] show ?thesis
        unfolding b by (simp add: checkDirectUserTuple_def Let_def assms(2))
    next
      case False
      with Inl req outcome_relation.error_law [OF assms(1)] show ?thesis
        by (simp add: checkDirectUserTuple_def Let_def assms(2))
    qed
  next
    case (Inr t)
    from user_law [OF assms(3) full Inr] have t: "tup_key t \<in> contents"
        "same_key (tup_key t) (NewTupleKey (tk_object ?k) (tk_relation ?k) u)" by simp_all
    have "tk = tup_key t" if "tk \<in> contents" "tk_object tk = tk_object ?k" "tk_relation tk = tk_relation ?k"
        "tk_user tk = u" for tk
    proof (rule unique_law [OF assms(3) that(1) t(1)])
      have "same_key tk (NewTupleKey (tk_object ?k) (tk_relation ?k) u)"
        by (simp add: same_key_def NewTupleKey_def that)
      with t(2) show "same_key tk (tup_key t)" by (metis same_key_sym same_key_trans)
    qed
    moreover have "tk_object (tup_key t) = tk_object ?k" "tk_relation (tup_key t) = tk_relation ?k"
        "tk_user (tup_key t) = u" using t(2) by (simp_all add: same_key_def NewTupleKey_def)
    ultimately have b: "?b \<longleftrightarrow> ev_validTuple env (tup_key t) \<and> ev_condition env reqCtx (tup_key t) = Inr True"
      using t(1) unfolding usable_def by blast
    from Inr req outcome_relation.answer_law [OF assms(1), of ?b] outcome_relation.error_law [OF assms(1), of ?b]
    show ?thesis
      unfolding b by (auto simp: checkDirectUserTuple_def Let_def assms(2) split: sum.split)
  qed
qed

lemma public_assignable_R:
  assumes "outcome_relation R ex" and "ev_reader env = rd" and "valid"
    and "request_ok store u reqCtx ik req" and "tk_relation (rq_TupleKey req) \<noteq> []"
    and "ref_named (WildcardRelationReference (GetType u))"
  shows "handles R (\<exists>tk \<in> usable env reqCtx contents. tk_object tk = tk_object (rq_TupleKey req) \<and>
      tk_relation tk = tk_relation (rq_TupleKey req) \<and> tk_user tk = TypedPublicWildcard (GetType u))
    (checkPublicAssignable env req)"
proof -
  let ?k = "rq_TupleKey req"
  let ?ref = "WildcardRelationReference (GetType u)"
  let ?flt = "\<lparr>uf_Object = tk_object ?k, uf_Relation = tk_relation ?k, uf_AllowedUserTypeRestrictions = [?ref],
      uf_Conditions = []\<rparr>"
  have req: "rq_StoreID req = store" "rq_Context req = reqCtx" "tk_user ?k = u"
    using assms(4) by (simp_all add: request_ok_def)
  have ty: "GetType u \<noteq> []" "\<forall>ref \<in> set [?ref]. userset_restriction ref"
    using assms(6) by (auto simp: ref_named_def userset_restriction_def WildcardRelationReference_def)
  show ?thesis
  proof (cases "rd_ReadUsersetTuples rd store ?flt")
    case (Inl err)
    with req outcome_relation.error_law [OF assms(1)] show ?thesis
      by (simp add: checkPublicAssignable_def IteratorReadUsersetTuples_def assms(2))
  next
    case (Inr it)
    have items: "tup_key ` set (items it) = {tk \<in> contents. tk_object tk = tk_object ?k \<and>
        tk_relation tk = tk_relation ?k \<and> tk_user tk = TypedPublicWildcard (GetType u)}"
      using usersets_law [OF assms(3) request_full(1) [OF assms(4,5)] assms(5) _ ty(2) Inr]
        wildcard_restriction [OF ty(1) GetType_no_colon] by simp
    obtain res s' where first: "filtered_next env reqCtx None (filtered_iterator_of it) = Some (res, s')"
      and found: "is_ok res \<Longrightarrow> \<exists>k \<in> tup_key ` set (items it). ev_validTuple env k \<and>
        ev_condition env reqCtx k = Inr True"
      and none: "res = Inl ErrIteratorDone \<Longrightarrow> \<not> (\<exists>k \<in> tup_key ` set (items it). ev_validTuple env k \<and>
        ev_condition env reqCtx k = Inr True)"
      using filtered_first [OF assms(2)] by blast
    let ?b = "\<exists>tk \<in> usable env reqCtx contents. tk_object tk = tk_object ?k \<and>
        tk_relation tk = tk_relation ?k \<and> tk_user tk = TypedPublicWildcard (GetType u)"
    have b: "?b \<longleftrightarrow> (\<exists>k \<in> tup_key ` set (items it). ev_validTuple env k \<and> ev_condition env reqCtx k = Inr True)"
      unfolding items usable_def by auto
    have handler: "checkPublicAssignable env req = Some (Returned
        (case res of Inl err \<Rightarrow> if err = ErrIteratorDone then Inr (allowed_response False) else Inl (CE_Iterator err)
         | Inr _ \<Rightarrow> Inr (allowed_response True)))"
      using Inr req first
      by (simp add: checkPublicAssignable_def IteratorReadUsersetTuples_def assms(2) split: sum.split)
    show ?thesis
    proof (cases res)
      case (Inl err)
      show ?thesis
      proof (cases "err = ErrIteratorDone")
        case True
        with none Inl have no: "?b \<longleftrightarrow> False" unfolding b by blast
        show ?thesis
          unfolding handler no using Inl True outcome_relation.answer_law [OF assms(1), of False] by simp
      next
        case False
        with Inl outcome_relation.error_law [OF assms(1)] show ?thesis unfolding handler by simp
      qed
    next
      case (Inr k)
      with found have yes: "?b \<longleftrightarrow> True" unfolding b by simp
      show ?thesis
        unfolding handler yes using Inr outcome_relation.answer_law [OF assms(1), of True] by simp
    qed
  qed
qed

lemma userset_handler_R:
  assumes "outcome_relation R ex" and "ev_reader env = rd" and "valid" and "checkable env contents"
    and "request_ok store u reqCtx ik req" and "tk_relation (rq_TupleKey req) \<noteq> []"
    and "refs \<noteq> []" and "\<forall>ref \<in> set refs. ref_named ref \<and> rr_GetRelation ref \<noteq> []"
    and "resolves R H store u reqCtx ik (rq_VisitedPaths req) delegate"
    and "b \<longleftrightarrow> via_usersets (usable env reqCtx contents) H (rq_TupleKey req) (set refs)"
  shows "case userset_handler env delegate p req refs strategy of Inl err \<Rightarrow> True | Inr h \<Rightarrow> handles R b h"
proof -
  let ?k = "rq_TupleKey req"
  let ?flt = "\<lparr>uf_Object = tk_object ?k, uf_Relation = tk_relation ?k, uf_AllowedUserTypeRestrictions = refs,
      uf_Conditions = []\<rparr>"
  have req: "rq_StoreID req = store" "rq_Context req = reqCtx" "tk_user ?k = u"
    using assms(5) by (simp_all add: request_ok_def)
  have refs: "\<forall>ref \<in> set refs. userset_restriction ref"
    using assms(8) by (auto simp: ref_named_def userset_restriction_def rr_GetRelation_def
        split: option.splits relation_or_wildcard.splits)
  show ?thesis
  proof (cases "rd_ReadUsersetTuples rd store ?flt")
    case (Inl err)
    with req show ?thesis by (simp add: userset_handler_def IteratorReadUsersetTuples_def assms(2))
  next
    case (Inr it)
    note items = usersets_law [OF assms(3) request_full(1) [OF assms(5,6)] assms(6,7) refs Inr]
    obtain keys err where drained: "drain (filtered_next env reqCtx) None (filtered_iterator_of it) = Some (keys, err)"
      and sub: "set keys \<subseteq> {k \<in> tup_key ` set (items it). ev_validTuple env k \<and> ev_condition env reqCtx k = Inr True}"
      and all: "is_fatal err \<or> set keys =
        {k \<in> tup_key ` set (items it). ev_validTuple env k \<and> ev_condition env reqCtx k = Inr True}"
      using filtered_drain [OF assms(2)] by blast
    have userset: "IsValidUserset (tk_user tk)" if "tk \<in> tup_key ` set (items it)" for tk
      using that assms(8) relation_restriction unfolding items by blast
    let ?child = "userset_child u"
    have produced: "produceUsersetDispatches (ev_typesys env) req strategy keys err =
        map (\<lambda>tk. DispatchParams req (?child tk) strategy) keys @ end_message err"
      using produce_usersets [of keys] userset sub req(3) by fastforce
    have "handles R b (run_dispatches (ev_schedule env) delegate p
        (map (\<lambda>tk. DispatchParams req (?child tk) strategy) keys @ end_message err))"
    proof (rule outcome_relation.run_dispatches_R [OF assms(1,9,5)])
      show "\<forall>tk \<in> set keys. tk_user (?child tk) = u \<and> IsValidObject (tk_object (?child tk))"
        using sub userset userset_parts(1) by (auto simp: userset_child_def NewTupleKey_def)
      show "live (ev_schedule env)" using assms(4) by (simp add: checkable_def)
      have child: "H (tk_object (?child tk)) (tk_relation (?child tk)) \<longleftrightarrow>
          H (fst (SplitObjectRelation (tk_user tk))) (snd (SplitObjectRelation (tk_user tk)))" for tk
        by (simp add: userset_child_def NewTupleKey_def)
      show b if "\<exists>tk \<in> set keys. H (tk_object (?child tk)) (tk_relation (?child tk))"
        using that sub unfolding child assms(10) via_usersets_def items usable_def by blast
      show "\<exists>tk \<in> set keys. H (tk_object (?child tk)) (tk_relation (?child tk))"
        if "IterIsDoneOrCancelled err" b
      proof -
        from that(1) have "\<not> is_fatal err" by (auto simp: IterIsDoneOrCancelled_def is_fatal_def)
        with all have "set keys = {k \<in> tup_key ` set (items it). ev_validTuple env k \<and>
            ev_condition env reqCtx k = Inr True}" by simp
        with that(2) show ?thesis unfolding child assms(10) via_usersets_def items usable_def by blast
      qed
    qed
    with Inr req drained produced show ?thesis
      by (simp add: userset_handler_def IteratorReadUsersetTuples_def assms(2) defaultUserset_def)
  qed
qed

lemma userset_resolvers_R:
  assumes "outcome_relation R ex" and "ev_reader env = rd" and "valid" and "checkable env contents"
    and "request_ok store u reqCtx ik req" and "tk_relation (rq_TupleKey req) \<noteq> []"
    and "resolves R H store u reqCtx ik (rq_VisitedPaths req) delegate"
    and "\<forall>ref \<in> set refs \<union> set remaining. ref_named ref \<and> rr_GetRelation ref \<noteq> []"
    and "list_all2 (handles R) bs hs"
    and "userset_resolvers env delegate p req i refs hs remaining = Inr hs'"
  shows "\<exists>bs'. list_all2 (handles R) bs' hs' \<and> ((\<exists>b \<in> set bs'. b) \<longleftrightarrow> (\<exists>b \<in> set bs. b) \<or>
    via_usersets (usable env reqCtx contents) H (rq_TupleKey req) (set refs \<union> set remaining))"
  using assms(8-10)
proof (induction refs arbitrary: i remaining hs bs)
  case Nil
  let ?b = "via_usersets (usable env reqCtx contents) H (rq_TupleKey req) (set remaining)"
  show ?case
  proof (cases "remaining = []")
    case True
    with Nil show ?thesis by (intro exI [of _ bs]) auto
  next
    case False
    with Nil.prems(3) obtain h where h: "userset_handler env delegate (i # p) req remaining [] = Inr h" "hs' = hs @ [h]"
      by (auto split: sum.splits)
    have "handles R ?b h"
      using userset_handler_R [OF assms(1-6) False _ assms(7) refl, of "i # p" "[]"] Nil.prems(1) h(1) by simp
    with Nil.prems(2) h(2) show ?thesis by (intro exI [of _ "bs @ [?b]"]) (auto simp: list_all2_appendI)
  qed
next
  case (Cons ref refs)
  let ?one = "via_usersets (usable env reqCtx contents) H (rq_TupleKey req) {ref}"
  let ?k = "rq_TupleKey req"
  show ?case
  proof (cases "ev_weight2 env (GetType (tk_object ?k)) (tk_relation ?k) (GetType (tk_user ?k)) ref")
    case False
    with Cons.prems(3) have "userset_resolvers env delegate p req i refs hs (remaining @ [ref]) = Inr hs'"
      by (simp add: Let_def)
    from Cons.IH [OF _ Cons.prems(2) this] Cons.prems(1) show ?thesis
      by (simp add: via_usersets_insert [of _ _ _ ref "set refs \<union> set remaining"] disj_ac)
  next
    case True
    with Cons.prems(3) obtain h where h: "userset_handler env delegate (i # p) req [ref] ''default'' = Inr h"
        "userset_resolvers env delegate p req (Suc i) refs (hs @ [h]) remaining = Inr hs'"
      by (auto simp: Let_def split: sum.splits)
    have "handles R ?one h"
      using userset_handler_R [OF assms(1-6) _ _ assms(7) refl, of "[ref]" "i # p" "''default''"] Cons.prems(1) h(1)
      by simp
    with Cons.prems(2) have "list_all2 (handles R) (bs @ [?one]) (hs @ [h])" by (simp add: list_all2_appendI)
    from Cons.IH [OF _ this h(2)] Cons.prems(1) show ?thesis
      by (auto simp: via_usersets_insert [of _ _ _ ref "set refs \<union> set remaining"])
  qed
qed

lemma userset_tuples_R:
  assumes "outcome_relation R ex" and "ev_reader env = rd" and "valid" and "checkable env contents"
    and "request_ok store u reqCtx ik req" and "tk_relation (rq_TupleKey req) \<noteq> []"
    and "resolves R H store u reqCtx ik (rq_VisitedPaths req) delegate"
    and "refs = directly_related_usersets env req" and "refs \<noteq> []"
    and "\<forall>ref \<in> set refs. ref_named ref \<and> rr_GetRelation ref \<noteq> []"
  shows "handles R (via_usersets (usable env reqCtx contents) H (rq_TupleKey req) (set refs))
    (checkDirectUsersetTuples env delegate p req)"
proof -
  let ?k = "rq_TupleKey req"
  let ?b = "via_usersets (usable env reqCtx contents) H ?k (set refs)"
  have default: "handles R ?b (case userset_handler env delegate p req refs strategy of
      Inl err \<Rightarrow> Some (Returned (Inl (CE_Store err))) | Inr h \<Rightarrow> h)" for strategy
    using userset_handler_R [OF assms(1-6,9,10,7) refl, of p strategy] outcome_relation.error_law [OF assms(1)]
    by (simp split: sum.splits)
  have several: "handles R ?b (case userset_resolvers env delegate p req 0 refs [] [] of
      Inl err \<Rightarrow> Some (Returned (Inl (CE_Store err))) | Inr hs \<Rightarrow> run_union (ev_schedule env) p hs)"
  proof (cases "userset_resolvers env delegate p req 0 refs [] []")
    case (Inl err)
    then show ?thesis using outcome_relation.error_law [OF assms(1)] by simp
  next
    case (Inr hs)
    with userset_resolvers_R [OF assms(1-7) _ _ Inr, of "[]"] assms(10) obtain bs where
      "list_all2 (handles R) bs hs" "(\<exists>b \<in> set bs. b) \<longleftrightarrow> ?b" by auto
    with outcome_relation.union_handles [OF assms(1), of "ev_schedule env" bs hs p] assms(4) Inr show ?thesis
      by (simp add: checkable_def)
  qed
  show ?thesis
    using default several unfolding checkDirectUsersetTuples_def Let_def assms(8) [symmetric] by simp
qed

lemma check_direct_R:
  assumes "outcome_relation R ex" and "ev_reader env = rd" and "valid" and "checkable env contents"
    and "request_ok store u reqCtx ik req" and "tk_relation (rq_TupleKey req) \<noteq> []"
    and "resolves R H store u reqCtx ik (rq_VisitedPaths req) delegate"
  shows "handles R (holds (ev_typesys env) (usable env reqCtx contents) u H (tk_object (rq_TupleKey req))
      (tk_relation (rq_TupleKey req)) Userset_This) (checkDirect env delegate p req)"
proof -
  let ?k = "rq_TupleKey req" and ?T = "usable env reqCtx contents"
  let ?t = "ev_typesys env" and ?refs = "directly_related_usersets env req"
  let ?here = "\<lambda>tk. tk_object tk = tk_object ?k \<and> tk_relation tk = tk_relation ?k"
  let ?b1 = "\<exists>tk \<in> ?T. tk_object tk = tk_object ?k \<and> tk_relation tk = tk_relation ?k \<and> tk_user tk = u"
  let ?b2 = "\<exists>tk \<in> ?T. tk_object tk = tk_object ?k \<and> tk_relation tk = tk_relation ?k \<and>
      tk_user tk = TypedPublicWildcard (GetType u)"
  let ?b3 = "via_usersets ?T H ?k (set ?refs)"
  have u: "tk_user ?k = u" using assms(5) by (simp add: request_ok_def)
  have names: "names_ok ?t" and live: "live (ev_schedule env)" using assms(4) by (simp_all add: checkable_def)
  let ?g1 = "shouldCheckDirectTuple ?t ?k" and ?g2 = "shouldCheckPublicAssignable ?t ?k" and ?g3 = "?refs \<noteq> []"
  let ?bs = "(if ?g1 then [?b1] else []) @ (if ?g2 then [?b2] else []) @ (if ?g3 then [?b3] else [])"
  let ?hs = "(if ?g1 then [checkDirectUserTuple env req] else []) @
      (if ?g2 then [checkPublicAssignable env req] else []) @
      (if ?g3 then [checkDirectUsersetTuples env delegate (0 # p) req] else [])"
  have "?g1 \<Longrightarrow> handles R ?b1 (checkDirectUserTuple env req)"
    by (rule direct_user_tuple_R [OF assms(1-3,5,6)])
  moreover have "?g2 \<Longrightarrow> handles R ?b2 (checkPublicAssignable env req)"
    using public_assignable_R [OF assms(1-3,5,6)] public_reference [OF names, of ?k] unfolding u by blast
  moreover have "?g3 \<Longrightarrow> handles R ?b3 (checkDirectUsersetTuples env delegate (0 # p) req)"
    by (rule userset_tuples_R [OF assms(1-7) refl _ userset_references [OF names]])
  ultimately have "list_all2 (handles R) ?bs ?hs" by (intro list_all2_appendI) auto
  then have "handles R (\<exists>b \<in> set ?bs. b) (checkDirect env delegate p req)"
    unfolding checkDirect_def Let_def by (rule outcome_relation.union_handles [OF assms(1) live])
  moreover have "(\<exists>b \<in> set ?bs. b) \<longleftrightarrow>
      holds ?t ?T u H (tk_object ?k) (tk_relation ?k) Userset_This" (is "?left \<longleftrightarrow> ?right")
  proof
    assume ?left
    then consider ?b1 | ?g2 ?b2 | ?b3 by (auto split: if_splits)
    then show ?right
    proof cases
      case 1
      then show ?thesis by (auto simp: grants_user_def)
    next
      case 2
      have "\<not> IsObjectRelation u" using 2(1) u by (auto simp: shouldCheckPublicAssignable_def)
      with 2(2) show ?thesis by (auto simp: grants_user_def)
    next
      case 3
      then obtain tk ref where "tk \<in> ?T" "?here tk" "ref \<in> set ?refs" "restriction_matches (tk_user tk) ref"
          "H (fst (SplitObjectRelation (tk_user tk))) (snd (SplitObjectRelation (tk_user tk)))"
        unfolding via_usersets_def by blast
      with relation_restriction userset_references [OF names, of req] show ?thesis
        by (auto simp: grants_user_def IsObjectRelation_def)
    qed
  next
    assume ?right
    then obtain tk where tk: "tk \<in> ?T" "tk_object tk = tk_object ?k" "tk_relation tk = tk_relation ?k"
        "grants_user H u (tk_user tk)" by auto
    from tk(4) consider "tk_user tk = u" | "\<not> IsObjectRelation u" "tk_user tk = TypedPublicWildcard (GetType u)"
      | "IsObjectRelation (tk_user tk)"
        "H (fst (SplitObjectRelation (tk_user tk))) (snd (SplitObjectRelation (tk_user tk)))"
      unfolding grants_user_def by blast
    then show ?left
    proof cases
      case 1
      with tk(1-3) have b1: ?b1 by blast
      from direct_guard [OF assms(4) tk(1-3)] 1 u consider ?g1 | ?g2 "u = TypedPublicWildcard (GetType u)" by auto
      then show ?thesis
      proof cases
        case 2
        with tk(1-3) 1 have ?b2 by metis
        with 2(1) show ?thesis by auto
      qed (use b1 in auto)
    next
      case 2
      with tk(1-3) have ?b2 by blast
      moreover have ?g2 using public_guard [OF assms(4) tk(1-3)] 2 u by simp
      ultimately show ?thesis by auto
    next
      case 3
      from userset_guard [OF assms(4) tk(1-3) 3(1)] obtain ref where
        "ref \<in> set ?refs" "restriction_matches (tk_user tk) ref" by blast
      with tk(1-3) 3(2) have ?b3 ?g3 unfolding via_usersets_def by auto
      then show ?thesis by auto
    qed
  qed
  ultimately show ?thesis by simp
qed

section \<open>Rewrites\<close>

lemma check_ttu_R:
  assumes "outcome_relation R ex" and "ev_reader env = rd" and "valid" and "checkable env contents"
    and "request_ok store u reqCtx ik req" and "ttu_GetTupleset ttu \<noteq> []"
    and "resolves R H store u reqCtx ik (rq_VisitedPaths req) delegate"
  shows "handles R (holds (ev_typesys env) (usable env reqCtx contents) u H (tk_object (rq_TupleKey req)) r
      (Userset_TupleToUserset ttu)) (checkTTU env delegate p req ttu)"
proof -
  let ?k = "rq_TupleKey req"
  let ?flt = "\<lparr>rf_Object = tk_object ?k, rf_Relation = ttu_GetTupleset ttu, rf_User = [], rf_Conditions = []\<rparr>"
  let ?b = "holds (ev_typesys env) (usable env reqCtx contents) u H (tk_object ?k) r (Userset_TupleToUserset ttu)"
  have req: "rq_StoreID req = store" "rq_Context req = reqCtx" "tk_user ?k = u" "full_object (tk_object ?k)"
    using assms(5) valid_object_full by (simp_all add: request_ok_def)
  obtain res where res: "rd_Read rd store ?flt = Some res" using read_returns by blast
  show ?thesis
  proof (cases res)
    case (Inl err)
    with res req outcome_relation.error_law [OF assms(1)] show ?thesis by (simp add: checkTTU_def assms(2))
  next
    case (Inr it)
    note items = read_law [OF assms(3) req(4) assms(6) res [unfolded Inr]]
    obtain keys err where drained: "drain (filtered_next env reqCtx) None (filtered_iterator_of it) = Some (keys, err)"
      and sub: "set keys \<subseteq> {k \<in> tup_key ` set (items it). ev_validTuple env k \<and> ev_condition env reqCtx k = Inr True}"
      and all: "is_fatal err \<or> set keys =
        {k \<in> tup_key ` set (items it). ev_validTuple env k \<and> ev_condition env reqCtx k = Inr True}"
      using filtered_drain [OF assms(2)] by blast
    let ?child = "ttu_child u (ttu_GetComputed ttu)"
    let ?keys = "filter (\<lambda>tk. ttu_parent (ev_typesys env) (fst (SplitObjectRelation (tk_user tk)))
        (ttu_GetComputed ttu)) keys"
    have "handles R ?b (run_dispatches (ev_schedule env) delegate p
        (map (\<lambda>tk. DispatchParams req (?child tk) strategy) ?keys @ end_message err))" for strategy
    proof (rule outcome_relation.run_dispatches_R [OF assms(1,7,5)])
      show "\<forall>tk \<in> set ?keys. tk_user (?child tk) = u \<and> IsValidObject (tk_object (?child tk))"
        using sub items assms(4) tuple_user_object
        by (auto simp: ttu_child_def NewTupleKey_def checkable_def tuples_admitted_def)
      show "live (ev_schedule env)" using assms(4) by (simp add: checkable_def)
      have child: "H (tk_object (?child tk)) (tk_relation (?child tk)) \<longleftrightarrow>
          H (fst (SplitObjectRelation (tk_user tk))) (ttu_GetComputed ttu)" for tk
        by (simp add: ttu_child_def NewTupleKey_def)
      show ?b if "\<exists>tk \<in> set ?keys. H (tk_object (?child tk)) (tk_relation (?child tk))"
        using that sub unfolding child items usable_def by auto
      show "\<exists>tk \<in> set ?keys. H (tk_object (?child tk)) (tk_relation (?child tk))"
        if "IterIsDoneOrCancelled err" ?b
      proof -
        from that(1) have "\<not> is_fatal err" by (auto simp: IterIsDoneOrCancelled_def is_fatal_def)
        with all have "set keys = {k \<in> tup_key ` set (items it). ev_validTuple env k \<and>
            ev_condition env reqCtx k = Inr True}" by simp
        with that(2) show ?thesis unfolding child items usable_def by auto
      qed
    qed
    with res Inr req drained produce_ttus [of "ev_typesys env" "ttu_GetComputed ttu" req _ keys err] show ?thesis
      by (simp add: checkTTU_def assms(2) defaultTTU_def Let_def)
  qed
qed

lemma check_children_R:
  assumes "\<And>c p. c \<in> set cs \<Longrightarrow> handles R (h c) (CheckRewrite env self delegate p req c)"
    and "check_children env self delegate p req i cs = Some hs"
  shows "\<exists>outs. hs = map Returned outs \<and> list_all2 R (map h cs) outs"
  using assms
proof (induction cs arbitrary: i hs)
  case Nil
  then show ?case by simp
next
  case (Cons c cs)
  from Cons.prems(2) obtain x hs' where x: "CheckRewrite env self delegate (i # p) req c = Some x"
      "check_children env self delegate p req (Suc i) cs = Some hs'" "hs = x # hs'"
    by (auto split: option.splits)
  from Cons.prems(1) [of c "i # p"] x(1) obtain out where "x = Returned out" "R (h c) out"
    by (auto simp: handles_def)
  moreover from Cons.IH [OF _ x(2)] Cons.prems(1) obtain outs where "hs' = map Returned outs"
      "list_all2 R (map h cs) outs" by auto
  ultimately have "hs = map Returned (out # outs) \<and> list_all2 R (map h (c # cs)) (out # outs)"
    using x(3) by simp
  then show ?case by blast
qed

lemma check_rewrite_R:
  assumes "outcome_relation R ex" and "ev_reader env = rd" and "valid" and "checkable env contents"
    and "request_ok store u reqCtx ik req" and "tk_relation (rq_TupleKey req) \<noteq> []"
    and "resolves R H store u reqCtx ik (rq_VisitedPaths req) self"
    and "resolves R H store u reqCtx ik (rq_VisitedPaths req) delegate"
    and "\<forall>ttu \<in> set (ttu_nodes rw). ttu_GetTupleset ttu \<noteq> []" and "no_difference rw \<or> ex"
  shows "handles R (holds (ev_typesys env) (usable env reqCtx contents) u H (tk_object (rq_TupleKey req))
      (tk_relation (rq_TupleKey req)) rw) (CheckRewrite env self delegate p req rw)"
  using assms(9,10)
proof (induction rw arbitrary: p)
  case Userset_Unset
  then show ?case using outcome_relation.error_law [OF assms(1)] by simp
next
  case Userset_This
  then show ?case using check_direct_R [OF assms(1-6,8)] by simp
next
  case (Userset_ComputedUserset relation)
  let ?c = "(request_clone req)\<lparr>rq_TupleKey :=
      NewTupleKey (tk_object (rq_TupleKey req)) relation (tk_user (rq_TupleKey req))\<rparr>"
  have c: "request_ok store u reqCtx ik ?c" "rq_VisitedPaths ?c = rq_VisitedPaths req"
      "tk_object (rq_TupleKey ?c) = tk_object (rq_TupleKey req)" "tk_relation (rq_TupleKey ?c) = relation"
    using assms(5) by (simp_all add: request_ok_def request_clone_def NewTupleKey_def)
  from assms(7) c(1,2)
  have "handles R (H (tk_object (rq_TupleKey ?c)) (tk_relation (rq_TupleKey ?c))) (self (0 # p) ?c)"
    unfolding resolves_def by blast
  then show ?case by (simp only: CheckRewrite.simps checkComputedUserset_def Let_def holds.simps c(3,4))
next
  case (Userset_TupleToUserset ttu)
  then show ?case using check_ttu_R [OF assms(1-5) _ assms(8)] by simp
next
  case (Userset_Union cs)
  let ?h = "holds (ev_typesys env) (usable env reqCtx contents) u H (tk_object (rq_TupleKey req))
      (tk_relation (rq_TupleKey req))"
  show ?case
  proof (cases "check_children env self delegate p req 0 cs")
    case (Some hs)
    have "handles R (?h c) (CheckRewrite env self delegate p req c)" if "c \<in> set cs" for c p
      using Userset_Union that by auto
    from check_children_R [where h = ?h, OF this Some] obtain outs where
      outs: "hs = map Returned outs" "list_all2 R (map ?h cs) outs" by blast
    have "live (ev_schedule env)" using assms(4) by (simp add: checkable_def)
    from check_union_live [OF this] obtain out where "check_union (ev_schedule env) p hs = Some out"
        "union_verdict (set outs) out" unfolding outs(1) by blast
    with outcome_relation.union_law [OF assms(1) outs(2)] Some show ?thesis by simp
  qed simp
next
  case (Userset_Intersection cs)
  let ?h = "holds (ev_typesys env) (usable env reqCtx contents) u H (tk_object (rq_TupleKey req))
      (tk_relation (rq_TupleKey req))"
  show ?case
  proof (cases "check_children env self delegate p req 0 cs")
    case (Some hs)
    have "handles R (?h c) (CheckRewrite env self delegate p req c)" if "c \<in> set cs" for c p
      using Userset_Intersection that by auto
    from check_children_R [where h = ?h, OF this Some] obtain outs where
      outs: "hs = map Returned outs" "list_all2 R (map ?h cs) outs" by blast
    have live: "live (ev_schedule env)" using assms(4) by (simp add: checkable_def)
    show ?thesis
    proof (cases "2 \<le> length outs")
      case True
      from check_intersection_live [OF live this] obtain out where
        "check_intersection (ev_schedule env) p hs = Some out"
        "intersection_verdict (set outs) out" unfolding outs(1) by blast
      with outcome_relation.intersection_law [OF assms(1) outs(2)] Some show ?thesis by simp
    next
      case False
      with Some outs(1) outcome_relation.error_law [OF assms(1)] show ?thesis
        by (simp add: check_intersection_def)
    qed
  qed simp
next
  case (Userset_Difference base sub)
  let ?h = "holds (ev_typesys env) (usable env reqCtx contents) u H (tk_object (rq_TupleKey req))
      (tk_relation (rq_TupleKey req))"
  from Userset_Difference.prems(2) have ex by simp
  with Userset_Difference have IH: "handles R (?h base) (CheckRewrite env self delegate (0 # p) req base)"
      "handles R (?h sub) (CheckRewrite env self delegate (1 # p) req sub)" by simp_all
  have live: "live (ev_schedule env)" using assms(4) by (simp add: checkable_def)
  show ?case
  proof (cases "CheckRewrite env self delegate (0 # p) req base")
    case base: (Some b)
    show ?thesis
    proof (cases "CheckRewrite env self delegate (1 # p) req sub")
      case (Some s)
      with base IH obtain o1 o2 where o: "b = Returned o1" "s = Returned o2" "R (?h base) o1" "R (?h sub) o2"
        by (auto simp: handles_def)
      from check_exclusion_live [OF live, of p o1 o2] obtain out where
        "check_exclusion (ev_schedule env) p [b, s] = Some out" "exclusion_result o1 o2 out"
        unfolding o(1,2) by auto
      with outcome_relation.exclusion_law [OF assms(1) \<open>ex\<close> o(3,4)] base Some show ?thesis by simp
    qed (simp add: base)
  qed simp
qed

text \<open>One call of \<open>ResolveCheck\<close>.\<close>

lemma resolve_step_R:
  assumes R: "outcome_relation R ex" and "ev_reader env = rd" and "valid" and "checkable env contents"
    and "request_ok store u reqCtx ik req"
    and cycle: "TupleKeyToString (rq_TupleKey req) \<in> rq_VisitedPaths req \<Longrightarrow>
      R b (Inr \<lparr>rsp_Allowed = False, rsp_CycleDetected = True\<rparr>)"
    and calls: "TupleKeyToString (rq_TupleKey req) \<notin> rq_VisitedPaths req \<Longrightarrow>
      resolves R H store u reqCtx ik (insert (TupleKeyToString (rq_TupleKey req)) (rq_VisitedPaths req)) self \<and>
      resolves R H store u reqCtx ik (insert (TupleKeyToString (rq_TupleKey req)) (rq_VisitedPaths req)) delegate"
    and self: "IsSelfDefining (rq_TupleKey req) \<Longrightarrow> R b (Inr (allowed_response True))"
    and path: "\<And>rel. TypeSystem_GetRelation (ev_typesys env) (GetType (tk_object (rq_TupleKey req)))
        (tk_relation (rq_TupleKey req)) = Inr rel \<Longrightarrow>
      ev_PathExists env u (tk_relation (rq_TupleKey req)) (GetType (tk_object (rq_TupleKey req))) = Inr False \<Longrightarrow>
      R b (Inr (allowed_response False))"
    and rewrite: "\<And>rel out. TypeSystem_GetRelation (ev_typesys env) (GetType (tk_object (rq_TupleKey req)))
        (tk_relation (rq_TupleKey req)) = Inr rel \<Longrightarrow>
      TupleKeyToString (rq_TupleKey req) \<notin> rq_VisitedPaths req \<Longrightarrow>
      \<not> IsSelfDefining (rq_TupleKey req) \<Longrightarrow>
      R (holds (ev_typesys env) (usable env reqCtx contents) u H (tk_object (rq_TupleKey req))
        (tk_relation (rq_TupleKey req)) (rel_rewrite rel)) out \<Longrightarrow> R b out"
    and ex: "\<And>rel. TypeSystem_GetRelation (ev_typesys env) (GetType (tk_object (rq_TupleKey req)))
        (tk_relation (rq_TupleKey req)) = Inr rel \<Longrightarrow> no_difference (rel_rewrite rel) \<or> ex"
  shows "handles R b (ResolveCheck_step env self delegate p req)"
proof -
  let ?k = "rq_TupleKey req" and ?t = "ev_typesys env"
  let ?key = "TupleKeyToString ?k"
  let ?ot = "GetType (tk_object ?k)"
  note error = outcome_relation.error_law [OF R]
  have u: "tk_user ?k = u" using assms(5) by (simp add: request_ok_def)
  have live: "sc_err (ev_schedule env) p = None" using assms(4) by (simp add: checkable_def live_def)
  show ?thesis
  proof (cases "rq_Depth req = ev_maxDepth env")
    case True
    with live error show ?thesis by (simp add: ResolveCheck_step_def)
  next
    case depth: False
    show ?thesis
    proof (cases "?key \<in> rq_VisitedPaths req")
      case True
      with live depth cycle show ?thesis by (simp add: ResolveCheck_step_def request_hasCycle_def Let_def)
    next
      case fresh: False
      let ?req = "req\<lparr>rq_VisitedPaths := insert ?key (rq_VisitedPaths req)\<rparr>"
      have req: "request_ok store u reqCtx ik ?req" "rq_TupleKey ?req = ?k"
        "rq_VisitedPaths ?req = insert ?key (rq_VisitedPaths req)"
        using assms(5) by (simp_all add: request_ok_def)
      note step = ResolveCheck_step_fresh [OF live depth fresh refl refl, of self delegate, unfolded u]
      show ?thesis
      proof (cases "IsSelfDefining ?k")
        case True
        with self show ?thesis unfolding step by simp
      next
        case notself: False
        show ?thesis
        proof (cases "TypeSystem_GetRelation ?t ?ot (tk_relation ?k)")
          case (Inl e)
          with notself error show ?thesis unfolding step by simp
        next
          case rel: (Inr rel)
          have names: "tk_relation ?k \<noteq> []" "\<forall>ttu \<in> set (ttu_nodes (rel_rewrite rel)). ttu_GetTupleset ttu \<noteq> []"
            using assms(4) rel unfolding checkable_def names_ok_def by blast+
          have rw: "handles R (holds ?t (usable env reqCtx contents) u H (tk_object ?k) (tk_relation ?k) (rel_rewrite rel))
              (CheckRewrite env self delegate p ?req (rel_rewrite rel))"
            using check_rewrite_R [OF R assms(2-4) req(1) _ _ _ names(2) ex [OF rel], where self = self and delegate = delegate and p = p]
              calls [OF fresh] names(1) unfolding req(2,3) by simp
          have "handles R b (CheckRewrite env self delegate p ?req (rel_rewrite rel))"
            using rw rewrite [OF rel fresh notself] unfolding handles_def by blast
          then show ?thesis
            unfolding step using notself rel path error by (auto split: sum.split)
        qed
      qed
    qed
  qed
qed

end

section \<open>A definite answer is the truth\<close>

lemma IsSelfDefining_key [simp]:
  "IsSelfDefining (NewTupleKey (tk_object k) (tk_relation k) (tk_user k)) = IsSelfDefining k"
  by (simp add: IsSelfDefining_def NewTupleKey_def)

text \<open>A call agrees with a reading if the calls that it makes do.\<close>

definition step_agrees :: "('i, 'k) check_env \<Rightarrow> (string \<Rightarrow> string \<Rightarrow> bool) \<Rightarrow> string \<Rightarrow> string \<Rightarrow>
    pb_struct option \<Rightarrow> nat \<Rightarrow> bool" where
  "step_agrees env H store u reqCtx ik \<longleftrightarrow> (\<forall>self delegate p req. request_ok store u reqCtx ik req \<longrightarrow>
     (\<forall>V. resolves agrees H store u reqCtx ik V self \<and> resolves agrees H store u reqCtx ik V delegate) \<longrightarrow>
     handles agrees (H (tk_object (rq_TupleKey req)) (tk_relation (rq_TupleKey req)))
       (ResolveCheck_step env self delegate p req))"

context tuple_reader
begin

lemma resolve_step_agrees:
  assumes "ev_reader env = rd" and "valid" and "checkable env contents"
    and model: "is_model (ev_typesys env) (usable env reqCtx contents) u H"
    and path: "\<And>ob r rel. TypeSystem_GetRelation (ev_typesys env) (GetType ob) r = Inr rel \<Longrightarrow>
      ev_PathExists env u r (GetType ob) = Inr False \<Longrightarrow> \<not> H ob r"
  shows "step_agrees env H store u reqCtx ik"
  unfolding step_agrees_def
proof (intro allI impI)
  fix self delegate p and req :: check_request
  assume ok: "request_ok store u reqCtx ik req"
    and calls: "\<forall>V. resolves agrees H store u reqCtx ik V self \<and> resolves agrees H store u reqCtx ik V delegate"
  let ?k = "rq_TupleKey req"
  have u: "tk_user ?k = u" using ok by (simp add: request_ok_def)
  have H: "H (tk_object ?k) (tk_relation ?k) \<longleftrightarrow> IsSelfDefining ?k \<or>
      (\<exists>rel. TypeSystem_GetRelation (ev_typesys env) (GetType (tk_object ?k)) (tk_relation ?k) = Inr rel \<and>
        holds (ev_typesys env) (usable env reqCtx contents) u H (tk_object ?k) (tk_relation ?k) (rel_rewrite rel))"
    using model IsSelfDefining_key [of ?k] unfolding is_model_def holds_relation_def u by blast
  show "handles agrees (H (tk_object ?k) (tk_relation ?k)) (ResolveCheck_step env self delegate p req)"
  proof (rule resolve_step_R [OF agreeing.outcome_relation_axioms assms(1-3) ok, where H = H])
    show "agrees (H (tk_object ?k) (tk_relation ?k)) (Inr \<lparr>rsp_Allowed = False, rsp_CycleDetected = True\<rparr>)"
      by (simp add: agrees_def)
  next
    assume "IsSelfDefining ?k"
    with H agreeing.answer_law [of True] show "agrees (H (tk_object ?k) (tk_relation ?k)) (Inr (allowed_response True))"
      by simp
  next
    fix rel assume "TypeSystem_GetRelation (ev_typesys env) (GetType (tk_object ?k)) (tk_relation ?k) = Inr rel"
      and "ev_PathExists env u (tk_relation ?k) (GetType (tk_object ?k)) = Inr False"
    with path have "\<not> H (tk_object ?k) (tk_relation ?k)" by blast
    with agreeing.answer_law [of False] show "agrees (H (tk_object ?k) (tk_relation ?k)) (Inr (allowed_response False))"
      by simp
  next
    fix rel out
    assume "TypeSystem_GetRelation (ev_typesys env) (GetType (tk_object ?k)) (tk_relation ?k) = Inr rel"
      and "\<not> IsSelfDefining ?k"
      and "agrees (holds (ev_typesys env) (usable env reqCtx contents) u H (tk_object ?k) (tk_relation ?k)
        (rel_rewrite rel)) out"
    with H show "agrees (H (tk_object ?k) (tk_relation ?k)) out" by simp
  qed (use calls in simp_all)
qed

end

text \<open>A resolver that calls itself and a delegate that agrees where it does.\<close>

lemma chain_agrees:
  assumes "step_agrees env H store u reqCtx ik"
    and "\<And>n p q. F 0 p q = None" and "\<And>n p q. F (Suc n) p q = ResolveCheck_step env (F n) (D n) p q"
    and "\<And>n p q b. request_ok store u reqCtx ik q \<Longrightarrow>
      handles agrees (H (tk_object (rq_TupleKey q)) (tk_relation (rq_TupleKey q))) (F n p q) \<Longrightarrow>
      handles agrees (H (tk_object (rq_TupleKey q)) (tk_relation (rq_TupleKey q))) (D n p q)"
    and "request_ok store u reqCtx ik req"
  shows "handles agrees (H (tk_object (rq_TupleKey req)) (tk_relation (rq_TupleKey req))) (F n p req)"
  using assms(5)
proof (induction n arbitrary: p req)
  case (Suc n)
  then have "\<forall>V. resolves agrees H store u reqCtx ik V (F n) \<and> resolves agrees H store u reqCtx ik V (D n)"
    using assms(4) unfolding resolves_def by blast
  with assms(1) Suc.prems show ?case unfolding assms(3) step_agrees_def by blast
qed (simp add: assms(2))

context tuple_reader
begin

lemma resolve_agrees:
  assumes "ev_reader env = rd" and "valid" and "checkable env contents"
    and "is_model (ev_typesys env) (usable env reqCtx contents) u H"
    and "\<And>ob r rel. TypeSystem_GetRelation (ev_typesys env) (GetType ob) r = Inr rel \<Longrightarrow>
      ev_PathExists env u r (GetType ob) = Inr False \<Longrightarrow> \<not> H ob r"
    and "request_ok store u reqCtx ik req"
  shows "handles agrees (H (tk_object (rq_TupleKey req)) (tk_relation (rq_TupleKey req))) (ResolveCheck n env p req)"
  by (rule chain_agrees [where F = "\<lambda>n. ResolveCheck n env" and D = "\<lambda>n. ResolveCheck n env",
        OF resolve_step_agrees [OF assms(1-5)] _ _ _ assms(6)]) simp_all

end

end
