(* ===== verification/Check_Termination.thy ===== *)
theory Check_Termination
  imports Check_Semantics
begin

text \<open>
  Every check returns: the depth of a request grows with each dispatch and is limited, and the
  relations that a chain of computed relations can visit on one object are finitely many. The fuel
  of \<open>ResolveCheck\<close> that is enough is given by the limit and the number of relations of the model.
\<close>

section \<open>The operators return\<close>

lemma check_union_ran: "check_union \<sigma> p hs = check_union \<sigma> p (map Returned (map runHandler hs))"
  and check_intersection_ran:
    "check_intersection \<sigma> p hs = check_intersection \<sigma> p (map Returned (map runHandler hs))"
  by (simp_all only: check_union_def check_intersection_def length_map runHandler_Returned)

lemma check_exclusion_ran:
  "check_exclusion \<sigma> p [b, s] = check_exclusion \<sigma> p (map Returned [runHandler b, runHandler s])"
  using runHandler_Returned [of "[runHandler b, runHandler s]"]
  by (simp add: check_exclusion_def cong: option.case_cong)

lemma operators_return:
  assumes "live \<sigma>"
  shows "check_union \<sigma> p hs \<noteq> None" and "check_intersection \<sigma> p hs \<noteq> None"
    and "check_exclusion \<sigma> p [b, s] \<noteq> None" and "consumeDispatches \<sigma> p outs \<noteq> None"
proof -
  show "check_union \<sigma> p hs \<noteq> None"
    using check_union_live [OF assms, of p "map runHandler hs"] unfolding check_union_ran [of \<sigma> p hs] by auto
  show "check_intersection \<sigma> p hs \<noteq> None"
  proof (cases "2 \<le> length hs")
    case True
    then show ?thesis using check_intersection_live [OF assms, of "map runHandler hs" p]
      unfolding check_intersection_ran [of \<sigma> p hs] by auto
  qed (simp add: check_intersection_def)
  show "check_exclusion \<sigma> p [b, s] \<noteq> None"
    using check_exclusion_live [OF assms, of p] unfolding check_exclusion_ran by fastforce
  show "consumeDispatches \<sigma> p outs \<noteq> None" using consumeDispatches_live [OF assms, of p outs] by auto
qed

lemma those_returns: "\<forall>h \<in> set hs. h \<noteq> None \<Longrightarrow> those hs \<noteq> None"
  by (induction hs) (auto split: option.split)

lemma run_union_returns:
  assumes "live \<sigma>" and "\<forall>h \<in> set hs. h \<noteq> None"
  shows "run_union \<sigma> p hs \<noteq> None"
  using those_returns [OF assms(2)] operators_return(1) [OF assms(1)]
  by (auto simp: run_union_def)

section \<open>The handlers return when the calls do\<close>

definition answers :: "resolver \<Rightarrow> string set \<Rightarrow> nat \<Rightarrow> bool" where
  "answers res V d \<longleftrightarrow> (\<forall>p req. rq_VisitedPaths req = V \<longrightarrow> rq_Depth req = d \<longrightarrow> res p req \<noteq> None)"

definition answers_for :: "resolver \<Rightarrow> check_request \<Rightarrow> bool" where
  "answers_for self req \<longleftrightarrow> (\<forall>p q. rq_VisitedPaths q = rq_VisitedPaths req \<longrightarrow> rq_Depth q = rq_Depth req \<longrightarrow>
     tk_object (rq_TupleKey q) = tk_object (rq_TupleKey req) \<longrightarrow>
     tk_user (rq_TupleKey q) = tk_user (rq_TupleKey req) \<longrightarrow> self p q \<noteq> None)"

definition of_request :: "check_request \<Rightarrow> dispatch_msg \<Rightarrow> bool" where
  "of_request req m \<longleftrightarrow> (case m of DispatchParams q _ _ \<Rightarrow> q = req | _ \<Rightarrow> True)"

lemma of_request_simps [simp]: "of_request req (DispatchErr e)" "of_request req DispatchShortCircuit"
  "of_request req (DispatchParams q tk strategy) \<longleftrightarrow> q = req"
  by (simp_all add: of_request_def)

lemma produced_of_request:
  "\<forall>m \<in> set (produceUsersetDispatches t req strategy keys err). of_request req m"
  "\<forall>m \<in> set (produceTTUDispatches t computed req strategy keys err). of_request req m"
proof -
  show "\<forall>m \<in> set (produceUsersetDispatches t req strategy keys err). of_request req m"
  proof (induction keys)
    case (Cons k keys)
    then show ?case by (cases "SplitObjectRelation (tk_user k)") (auto simp: Let_def)
  qed (simp add: end_message_def)
  show "\<forall>m \<in> set (produceTTUDispatches t computed req strategy keys err). of_request req m"
    by (auto simp: produce_ttus end_message_def)
qed

lemma processDispatches_returns:
  assumes "answers delegate (rq_VisitedPaths req) (Suc (rq_Depth req))" and "\<forall>m \<in> set msgs. of_request req m"
  shows "processDispatches delegate p i msgs \<noteq> None"
  using assms(2)
proof (induction msgs arbitrary: i)
  case (Cons m msgs)
  then have rest: "processDispatches delegate p j msgs \<noteq> None" for j by simp
  show ?case
  proof (cases m)
    case (DispatchParams q tk strategy)
    with Cons.prems have "q = req" by simp
    with assms(1) have "dispatch delegate (i # p) (prepareChildRequest q tk strategy) \<noteq> None"
      unfolding answers_def dispatch_def by (simp add: prepareChildRequest_def request_clone_def)
    with rest show ?thesis by (auto simp: DispatchParams)
  qed (use rest in auto)
qed simp

lemma run_dispatches_returns:
  assumes "live \<sigma>" and "answers delegate (rq_VisitedPaths req) (Suc (rq_Depth req))"
    and "\<forall>m \<in> set msgs. of_request req m"
  shows "run_dispatches \<sigma> delegate p msgs \<noteq> None"
  using processDispatches_returns [OF assms(2,3), of p 0] operators_return(4) [OF assms(1)]
  by (cases "processDispatches delegate p 0 msgs") (simp_all add: run_dispatches_def del: not_None_eq)

context tuple_reader
begin

lemma defaults_return:
  assumes "ev_reader env = rd" and "live (ev_schedule env)"
    and "answers delegate (rq_VisitedPaths req) (Suc (rq_Depth req))"
  shows "defaultUserset env delegate p req (filtered_iterator_of it) strategy \<noteq> None"
    and "defaultTTU env delegate p req computed (filtered_iterator_of it) strategy \<noteq> None"
proof -
  obtain keys err where d: "drain (filtered_next env (rq_Context req)) None (filtered_iterator_of it) = Some (keys, err)"
    using filtered_drain [OF assms(1)] by blast
  note run = run_dispatches_returns [OF assms(2,3)]
  show "defaultUserset env delegate p req (filtered_iterator_of it) strategy \<noteq> None"
    using d run [OF produced_of_request(1)] by (simp add: defaultUserset_def)
  show "defaultTTU env delegate p req computed (filtered_iterator_of it) strategy \<noteq> None"
    using d run [OF produced_of_request(2)] by (simp add: defaultTTU_def)
qed

lemma userset_handler_returns:
  assumes "ev_reader env = rd" and "live (ev_schedule env)"
    and "answers delegate (rq_VisitedPaths req) (Suc (rq_Depth req))"
    and "userset_handler env delegate p req refs strategy = Inr h"
  shows "h \<noteq> None"
  using assms(4) defaults_return(1) [OF assms(1-3)]
  by (auto simp: userset_handler_def IteratorReadUsersetTuples_def split: sum.splits)

lemma userset_resolvers_return:
  assumes "ev_reader env = rd" and "live (ev_schedule env)"
    and "answers delegate (rq_VisitedPaths req) (Suc (rq_Depth req))"
    and "\<forall>h \<in> set hs. h \<noteq> None" and "userset_resolvers env delegate p req i refs hs rest = Inr hs'"
  shows "\<forall>h \<in> set hs'. h \<noteq> None"
  using assms(4,5)
proof (induction refs arbitrary: i hs rest)
  case Nil
  then show ?case using userset_handler_returns [OF assms(1-3)] by (auto split: if_splits sum.splits)
next
  case (Cons ref refs)
  let ?k = "rq_TupleKey req"
  show ?case
  proof (cases "ev_weight2 env (GetType (tk_object ?k)) (tk_relation ?k) (GetType (tk_user ?k)) ref")
    case False
    with Cons.prems Cons.IH show ?thesis by (simp add: Let_def del: not_None_eq)
  next
    case True
    with Cons.prems(2) obtain h where h: "userset_handler env delegate (i # p) req [ref] ''default'' = Inr h"
        "userset_resolvers env delegate p req (Suc i) refs (hs @ [h]) rest = Inr hs'"
      by (auto simp: Let_def split: sum.splits)
    from userset_handler_returns [OF assms(1-3) h(1)] Cons.prems(1) have "\<forall>h \<in> set (hs @ [h]). h \<noteq> None" by auto
    from Cons.IH [OF this h(2)] show ?thesis .
  qed
qed

lemma direct_returns:
  assumes "ev_reader env = rd" and "live (ev_schedule env)"
    and "answers delegate (rq_VisitedPaths req) (Suc (rq_Depth req))"
  shows "checkDirect env delegate p req \<noteq> None"
proof -
  have public: "checkPublicAssignable env req \<noteq> None"
  proof (cases "IteratorReadUsersetTuples env req [WildcardRelationReference (GetType (tk_user (rq_TupleKey req)))]")
    case (Inr it)
    then obtain i where it: "it = filtered_iterator_of i"
      by (auto simp: IteratorReadUsersetTuples_def split: sum.splits)
    obtain res s' where "filtered_next env (rq_Context req) None it = Some (res, s')"
      using filtered_first [OF assms(1)] unfolding it by blast
    with Inr show ?thesis by (cases res) (simp_all add: checkPublicAssignable_def)
  qed (simp add: checkPublicAssignable_def)
  have usersets: "checkDirectUsersetTuples env delegate q req \<noteq> None" for q
    using userset_handler_returns [OF assms] userset_resolvers_return [OF assms, of "[]"]
      run_union_returns [OF assms(2)]
    by (auto simp: checkDirectUsersetTuples_def Let_def split: sum.split)
  show ?thesis
    using run_union_returns [OF assms(2)] public usersets
    by (auto simp: checkDirect_def checkDirectUserTuple_def Let_def)
qed

lemma ttu_returns:
  assumes "ev_reader env = rd" and "live (ev_schedule env)"
    and "answers delegate (rq_VisitedPaths req) (Suc (rq_Depth req))"
  shows "checkTTU env delegate p req ttu \<noteq> None"
  using defaults_return(2) [OF assms] by (auto simp: checkTTU_def Let_def split: option.split sum.split)

lemma children_return:
  assumes "\<And>c q. c \<in> set cs \<Longrightarrow> CheckRewrite env self delegate q req c \<noteq> None"
  shows "check_children env self delegate p req i cs \<noteq> None"
  using assms by (induction cs arbitrary: i) (auto split: option.split)

lemma rewrite_returns:
  assumes "ev_reader env = rd" and "live (ev_schedule env)"
    and "answers delegate (rq_VisitedPaths req) (Suc (rq_Depth req))" and "answers_for self req"
  shows "CheckRewrite env self delegate p req rw \<noteq> None"
proof (induction rw arbitrary: p)
  case (Userset_ComputedUserset r)
  let ?q = "(request_clone req)\<lparr>rq_TupleKey :=
    NewTupleKey (tk_object (rq_TupleKey req)) r (tk_user (rq_TupleKey req))\<rparr>"
  have "self (0 # p) ?q \<noteq> None"
    by (rule assms(4) [unfolded answers_for_def, rule_format]) (simp_all add: request_clone_def NewTupleKey_def)
  then show ?case by (simp add: checkComputedUserset_def Let_def)
next
  case (Userset_Union cs)
  from children_return [OF this] operators_return(1) [OF assms(2)] show ?case
    by (auto split: option.split)
next
  case (Userset_Intersection cs)
  from children_return [OF this] operators_return(2) [OF assms(2)] show ?case
    by (auto split: option.split)
next
  case (Userset_Difference b s)
  from Userset_Difference(1) [of "0 # p"] Userset_Difference(2) [of "1 # p"] obtain x y where
    "CheckRewrite env self delegate (0 # p) req b = Some x" "CheckRewrite env self delegate (1 # p) req s = Some y"
    by blast
  with operators_return(3) [OF assms(2), of p x y] show ?case by simp
qed (simp_all add: direct_returns [OF assms(1-3)] ttu_returns [OF assms(1-3)])

end

section \<open>The fuel that is enough\<close>

text \<open>The relations of the object's type that a chain of computed relations has not visited.\<close>

definition unvisited :: "type_system \<Rightarrow> check_request \<Rightarrow> string set" where
  "unvisited t req = {r. (\<exists>rel. TypeSystem_GetRelation t (GetType (tk_object (rq_TupleKey req))) r = Inr rel) \<and>
     TupleKeyToString (NewTupleKey (tk_object (rq_TupleKey req)) r (tk_user (rq_TupleKey req)))
       \<notin> rq_VisitedPaths req}"

lemma unvisited_card: "finite (unvisited t req) \<and> card (unvisited t req) \<le> relation_count t"
proof -
  let ?ot = "GetType (tk_object (rq_TupleKey req))"
  let ?D = "{r. \<exists>rel. TypeSystem_GetRelation t ?ot r = Inr rel}"
  have "inj_on (ToObjectRelationString ?ot) ?D"
    by (auto simp: inj_on_def ToObjectRelationString_def)
  moreover have "ToObjectRelationString ?ot ` ?D \<subseteq> defined_keys t" by (auto simp: defined_keys_def)
  ultimately have D: "finite ?D" "card ?D \<le> card (defined_keys t)"
    using defined_keys_card [of t] card_inj_on_le [of _ ?D "defined_keys t"] inj_on_finite [of _ ?D "defined_keys t"]
    by blast+
  have sub: "unvisited t req \<subseteq> ?D" by (auto simp: unvisited_def)
  have "finite (unvisited t req)" using sub D(1) by (rule finite_subset)
  moreover have "card (unvisited t req) \<le> card (defined_keys t)"
    using card_mono [OF D(1) sub] D(2) by linarith
  ultimately show ?thesis using defined_keys_card [of t] by linarith
qed

definition check_fuel :: "type_system \<Rightarrow> nat \<Rightarrow> nat" where
  "check_fuel t maxDepth = (maxDepth + 1) * (relation_count t + 2)"

context tuple_reader
begin

text \<open>
  A resolver that calls itself and a delegate, with less fuel; the delegate returns where the resolver
  does. The local checker is its own delegate, or the delegate is a cache in front of it.
\<close>

lemma chain_returns:
  assumes F: "\<And>n p q. F (Suc n) p q = ResolveCheck_step env (F n) (D n) p q"
    and D: "\<And>n p q. F n p q \<noteq> None \<Longrightarrow> D n p q \<noteq> None"
    and "ev_reader env = rd" and "live (ev_schedule env)" and "rq_Depth req \<le> ev_maxDepth env"
    and "(ev_maxDepth env - rq_Depth req) * (relation_count (ev_typesys env) + 2) +
      card (unvisited (ev_typesys env) req) < n"
  shows "F n p req \<noteq> None"
  using assms(5,6)
proof (induction n arbitrary: p req)
  case (Suc n)
  let ?t = "ev_typesys env" and ?k = "rq_TupleKey req" and ?C = "relation_count (ev_typesys env) + 2"
  let ?key = "TupleKeyToString ?k"
  let ?req = "req\<lparr>rq_VisitedPaths := insert ?key (rq_VisitedPaths req)\<rparr>"
  have calls: "answers (D n) (rq_VisitedPaths ?req) (Suc (rq_Depth req)) \<and> answers_for (F n) ?req"
    if depth: "rq_Depth req \<noteq> ev_maxDepth env" and fresh: "?key \<notin> rq_VisitedPaths req"
      and rel: "TypeSystem_GetRelation ?t (GetType (tk_object ?k)) (tk_relation ?k) = Inr rel" for rel
  proof (intro conjI)
    have less: "Suc (rq_Depth req) \<le> ev_maxDepth env" using depth Suc.prems(1) by simp
    then have "(ev_maxDepth env - rq_Depth req) * ?C = (ev_maxDepth env - Suc (rq_Depth req)) * ?C + ?C"
      by (metis Suc_diff_le add.commute diff_Suc_Suc mult_Suc)
    with Suc.prems(2) have fuel: "(ev_maxDepth env - Suc (rq_Depth req)) * ?C + relation_count ?t < n" by linarith
    show "answers (D n) (rq_VisitedPaths ?req) (Suc (rq_Depth req))"
      unfolding answers_def
    proof (intro allI impI)
      fix p and q :: check_request assume q: "rq_Depth q = Suc (rq_Depth req)"
      have "(ev_maxDepth env - rq_Depth q) * ?C + card (unvisited ?t q) < n"
        using fuel unvisited_card [of ?t q] unfolding q by linarith
      with less q show "D n p q \<noteq> None" by (intro D Suc.IH) simp_all
    qed
    have "tk_relation ?k \<in> unvisited ?t req"
      using fresh rel by (simp add: unvisited_def TupleKeyToString_def NewTupleKey_def)
    moreover have "tk_relation ?k \<notin> unvisited ?t ?req"
      by (simp add: unvisited_def TupleKeyToString_def NewTupleKey_def)
    moreover have "unvisited ?t ?req \<subseteq> unvisited ?t req" by (auto simp: unvisited_def)
    ultimately have shrinks: "card (unvisited ?t ?req) < card (unvisited ?t req)"
      using unvisited_card [of ?t req] by (intro psubset_card_mono) auto
    show "answers_for (F n) ?req"
      unfolding answers_for_def
    proof (intro allI impI)
      fix p and q :: check_request assume q: "rq_VisitedPaths q = rq_VisitedPaths ?req" "rq_Depth q = rq_Depth ?req"
        "tk_object (rq_TupleKey q) = tk_object (rq_TupleKey ?req)"
        "tk_user (rq_TupleKey q) = tk_user (rq_TupleKey ?req)"
      then have same: "unvisited ?t q = unvisited ?t ?req" "rq_Depth q = rq_Depth req" by (simp_all add: unvisited_def)
      have "(ev_maxDepth env - rq_Depth q) * ?C + card (unvisited ?t q) < n"
        using Suc.prems(2) shrinks unfolding same by linarith
      with Suc.prems(1) same show "F n p q \<noteq> None" by (intro Suc.IH) simp_all
    qed
  qed
  have "sc_err (ev_schedule env) p = None" using assms(4) by (simp add: live_def)
  then show ?case
  proof (cases "rq_Depth req = ev_maxDepth env \<or> ?key \<in> rq_VisitedPaths req")
    case True
    with \<open>sc_err (ev_schedule env) p = None\<close> show ?thesis
      by (auto simp: F ResolveCheck_step_def request_hasCycle_def Let_def)
  next
    case False
    then have fresh: "rq_Depth req \<noteq> ev_maxDepth env" "?key \<notin> rq_VisitedPaths req" by simp_all
    have "CheckRewrite env (F n) (D n) p ?req (rel_rewrite rel) \<noteq> None"
      if "TypeSystem_GetRelation ?t (GetType (tk_object ?k)) (tk_relation ?k) = Inr rel" for rel
      using rewrite_returns [OF assms(3,4), of "D n" ?req "F n"] calls [OF fresh that] by simp
    then show ?thesis
      unfolding F ResolveCheck_step_fresh [OF \<open>sc_err (ev_schedule env) p = None\<close> fresh refl refl]
      by (simp split: sum.split del: not_None_eq)
  qed
qed simp

lemma chain_fuel:
  assumes "\<And>n p q. F (Suc n) p q = ResolveCheck_step env (F n) (D n) p q"
    and "\<And>n p q. F n p q \<noteq> None \<Longrightarrow> D n p q \<noteq> None"
    and "ev_reader env = rd" and "live (ev_schedule env)" and "rq_Depth req \<le> ev_maxDepth env"
    and "check_fuel (ev_typesys env) (ev_maxDepth env) \<le> n"
  shows "F n p req \<noteq> None"
proof (rule chain_returns [where F = F and D = D, OF assms(1,2) assms(3-5)])
  let ?C = "relation_count (ev_typesys env) + 2"
  have "(ev_maxDepth env - rq_Depth req) * ?C \<le> ev_maxDepth env * ?C" by (intro mult_le_mono1) simp
  moreover have "card (unvisited (ev_typesys env) req) < ?C"
    using unvisited_card [of "ev_typesys env" req] by simp
  moreover have "ev_maxDepth env * ?C + ?C \<le> n"
    using assms(6) by (simp add: check_fuel_def)
  ultimately show "(ev_maxDepth env - rq_Depth req) * ?C + card (unvisited (ev_typesys env) req) < n" by linarith
qed

lemma check_returns:
  assumes "ev_reader env = rd" and "live (ev_schedule env)" and "rq_Depth req \<le> ev_maxDepth env"
    and "check_fuel (ev_typesys env) (ev_maxDepth env) \<le> n"
  shows "ResolveCheck n env p req \<noteq> None"
  by (rule chain_fuel [where F = "\<lambda>n. ResolveCheck n env" and D = "\<lambda>n. ResolveCheck n env", OF _ _ assms]) simp_all

end

end
