(* ===== verification/Model_Graph.thy ===== *)
theory Model_Graph
  imports Model_Validation
begin

text \<open>
  The authorization model graph of the language module (\<open>graph.go\<close>, \<open>graph_builder.go\<close>,
  \<open>graph_node.go\<close> and \<open>graph_edge.go\<close> of \<open>language/pkg/go/graph\<close>): the types, relations, wildcards and
  set operators of a model as nodes, and an edge for every way in which one can give another. The
  type system asks it whether the type of a user can reach a relation at all.

  The multigraph of the package gonum is kept as the list of its nodes, in the order they are added,
  and the list of its lines. A node is identified by its unique label, which the map \<open>ids\<close> assigns
  to one id; the ids themselves are gonum's. The search for a path is gonum's, and a parameter.
\<close>

section \<open>The graph\<close>

datatype node_type = SpecificType | SpecificTypeAndRelation | OperatorNode | SpecificTypeWildcard |
  LogicalDirectGrouping | LogicalTTUGrouping

datatype edge_type = DirectEdge | RewriteEdge | TTUEdge | ComputedEdge | DirectLogicalEdge | TTULogicalEdge

record graph_node =
  gn_uniqueLabel :: string
  gn_label :: string
  gn_nodeType :: node_type

record graph_edge =
  ge_from :: string
  ge_to :: string
  ge_edgeType :: edge_type
  ge_tuplesetRelation :: string
  ge_conditions :: "string list"

datatype drawing_direction = DrawingDirectionListObjects | DrawingDirectionCheck

record model_graph =
  mg_nodes :: "graph_node list"
  mg_edges :: "graph_edge list"
  mg_drawingDirection :: drawing_direction

abbreviation (input) NoCond :: string where "NoCond \<equiv> ''''"

definition getNodeByLabel :: "model_graph \<Rightarrow> string \<Rightarrow> graph_node option" where
  "getNodeByLabel g uniqueLabel = List.find (\<lambda>n. gn_uniqueLabel n = uniqueLabel) (mg_nodes g)"

definition getOrAddNode :: "model_graph \<Rightarrow> string \<Rightarrow> string \<Rightarrow> node_type \<Rightarrow> graph_node \<times> model_graph" where
  "getOrAddNode g uniqueLabel label nodeType =
     (case getNodeByLabel g uniqueLabel of Some existingNode \<Rightarrow> (existingNode, g)
      | None \<Rightarrow>
          (let newNode = \<lparr>gn_uniqueLabel = uniqueLabel, gn_label = label, gn_nodeType = nodeType\<rparr>
           in (newNode, g\<lparr>mg_nodes := mg_nodes g @ [newNode]\<rparr>)))"

text \<open>The builder never passes a nil node, so the guards against nil nodes are left out.\<close>

definition AddEdge :: "model_graph \<Rightarrow> graph_node \<Rightarrow> graph_node \<Rightarrow> edge_type \<Rightarrow> string \<Rightarrow> string list \<Rightarrow> model_graph" where
  "AddEdge g from_node to_node edgeType tuplesetRelation conditions =
     (let conditions = (if conditions = [] then [NoCond] else conditions) in
      g\<lparr>mg_edges := mg_edges g @ [\<lparr>ge_from = gn_uniqueLabel from_node, ge_to = gn_uniqueLabel to_node,
        ge_edgeType = edgeType, ge_tuplesetRelation = tuplesetRelation, ge_conditions = conditions\<rparr>]\<rparr>)"

definition same_line :: "graph_node \<Rightarrow> graph_node \<Rightarrow> edge_type \<Rightarrow> string \<Rightarrow> graph_edge \<Rightarrow> bool" where
  "same_line from_node to_node edgeType tuplesetRelation e \<longleftrightarrow>
     ge_from e = gn_uniqueLabel from_node \<and> ge_to e = gn_uniqueLabel to_node \<and>
     ge_edgeType e = edgeType \<and> ge_tuplesetRelation e = tuplesetRelation"

fun add_condition :: "(graph_edge \<Rightarrow> bool) \<Rightarrow> string \<Rightarrow> graph_edge list \<Rightarrow> graph_edge list" where
  "add_condition P cond [] = []"
| "add_condition P cond (e # es) =
     (if P e then
        (if cond \<in> set (ge_conditions e) then e else e\<lparr>ge_conditions := ge_conditions e @ [cond]\<rparr>) # es
      else e # add_condition P cond es)"

definition hasEdge :: "model_graph \<Rightarrow> graph_node \<Rightarrow> graph_node \<Rightarrow> edge_type \<Rightarrow> string \<Rightarrow> bool" where
  "hasEdge g from_node to_node edgeType tuplesetRelation \<longleftrightarrow>
     (\<exists>e \<in> set (mg_edges g). same_line from_node to_node edgeType tuplesetRelation e)"

definition upsertEdge :: "model_graph \<Rightarrow> graph_node \<Rightarrow> graph_node \<Rightarrow> edge_type \<Rightarrow> string \<Rightarrow> string \<Rightarrow> model_graph" where
  "upsertEdge g from_node to_node edgeType tuplesetRelation cond =
     (let P = same_line from_node to_node edgeType tuplesetRelation in
      if \<exists>e \<in> set (mg_edges g). P e then g\<lparr>mg_edges := add_condition P cond (mg_edges g)\<rparr>
      else AddEdge g from_node to_node edgeType tuplesetRelation [cond])"

section \<open>Building it\<close>

text \<open>An empty label stands for a reference whose type is malformed.\<close>

definition classifyRelationReference :: "relation_reference \<Rightarrow> string \<times> node_type" where
  "classifyRelationReference ref =
     (let typeName = rr_type ref in
      if typeName = [] \<or> (\<exists>c \<in> set typeName. c \<in> {CHR '':'', CHR ''#''}) then ([], SpecificType)
      else if rr_HasWildcard ref then (typeName @ '':*'', SpecificTypeWildcard)
      else if rr_GetRelation ref \<noteq> [] then (typeName @ ''#'' @ rr_GetRelation ref, SpecificTypeAndRelation)
      else (typeName, SpecificType))"

definition directly_related :: "type_definition \<Rightarrow> string \<Rightarrow> relation_reference list" where
  "directly_related td relation = (case map_of (td_metadata td) relation of None \<Rightarrow> [] | Some refs \<Rightarrow> refs)"

fun this_edges :: "graph_node \<Rightarrow> relation_reference list \<Rightarrow> model_graph \<Rightarrow> model_graph" where
  "this_edges parentNode [] g = g"
| "this_edges parentNode (ref # refs) g =
     (let (label, nodeType) = classifyRelationReference ref in
      if label = [] then this_edges parentNode refs g
      else
       (let (curNode, g) = getOrAddNode g label label nodeType
        in this_edges parentNode refs (upsertEdge g curNode parentNode DirectEdge [] (rr_condition ref))))"

definition parseThis :: "model_graph \<Rightarrow> graph_node \<Rightarrow> type_definition \<Rightarrow> string \<Rightarrow> model_graph" where
  "parseThis g parentNode typeDef relation = this_edges parentNode (directly_related typeDef relation) g"

definition parseComputed :: "model_graph \<Rightarrow> graph_node \<Rightarrow> type_definition \<Rightarrow> string \<Rightarrow> model_graph" where
  "parseComputed g parentNode typeDef relation =
     (let name = td_type typeDef @ ''#'' @ relation;
          (newNode, g) = getOrAddNode g name name SpecificTypeAndRelation;
          nodeType = (if gn_nodeType parentNode = SpecificTypeAndRelation \<and>
            gn_nodeType newNode = SpecificTypeAndRelation then ComputedEdge else RewriteEdge)
      in AddEdge g newNode parentNode nodeType [] [])"

definition typeAndRelationExists :: "authorization_model \<Rightarrow> string \<Rightarrow> string \<Rightarrow> bool" where
  "typeAndRelationExists model typeName relation \<longleftrightarrow>
     (\<exists>td \<in> set (am_typeDefinitions model). td_type td = typeName \<and> relation \<in> fst ` set (td_relations td))"

fun ttu_edges :: "graph_node \<Rightarrow> authorization_model \<Rightarrow> string \<Rightarrow> string \<Rightarrow> relation_reference list \<Rightarrow>
    model_graph \<Rightarrow> model_graph" where
  "ttu_edges parentNode model typeTuplesetRelation computedRelation [] g = g"
| "ttu_edges parentNode model typeTuplesetRelation computedRelation (relatedType # refs) g =
     (let tuplesetType = rr_type relatedType in
      if \<not> typeAndRelationExists model tuplesetType computedRelation then
        ttu_edges parentNode model typeTuplesetRelation computedRelation refs g
      else
       (let name = tuplesetType @ ''#'' @ computedRelation;
            (nodeSource, g) = getOrAddNode g name name SpecificTypeAndRelation
        in ttu_edges parentNode model typeTuplesetRelation computedRelation refs
             (if hasEdge g nodeSource parentNode TTUEdge typeTuplesetRelation then g
              else upsertEdge g nodeSource parentNode TTUEdge typeTuplesetRelation (rr_condition relatedType))))"

definition parseTupleToUserset :: "model_graph \<Rightarrow> graph_node \<Rightarrow> authorization_model \<Rightarrow> type_definition \<Rightarrow>
    tuple_to_userset option \<Rightarrow> model_graph" where
  "parseTupleToUserset g parentNode model typeDef rewrite =
     (let tuplesetRelation = ttu_GetTupleset rewrite; computedRelation = ttu_GetComputed rewrite in
      ttu_edges parentNode model (td_type typeDef @ ''#'' @ tuplesetRelation) computedRelation
        (directly_related typeDef tuplesetRelation) g)"

text \<open>
  \<open>mk n\<close> is the text of the ULID that \<open>ulid.Make\<close> returns when the graph has \<open>n\<close> nodes. A rewrite
  with no userset falls through the type switch, with neither operator nor children.
\<close>

definition operator_node :: "(nat \<Rightarrow> string) \<Rightarrow> model_graph \<Rightarrow> graph_node \<Rightarrow> string \<Rightarrow> graph_node \<times> model_graph" where
  "operator_node mk g parentNode operator =
     (let operatorNode = operator @ '':'' @ mk (length (mg_nodes g));
          (operatorNodeParent, g) = getOrAddNode g operatorNode operator OperatorNode
      in (operatorNodeParent, AddEdge g operatorNodeParent parentNode RewriteEdge [] []))"

fun checkRewrite :: "(nat \<Rightarrow> string) \<Rightarrow> model_graph \<Rightarrow> graph_node \<Rightarrow> authorization_model \<Rightarrow> userset \<Rightarrow>
    type_definition \<Rightarrow> string \<Rightarrow> model_graph"
and checkRewrites :: "(nat \<Rightarrow> string) \<Rightarrow> model_graph \<Rightarrow> graph_node \<Rightarrow> authorization_model \<Rightarrow> userset list \<Rightarrow>
    type_definition \<Rightarrow> string \<Rightarrow> model_graph" where
  "checkRewrite mk g parentNode model Userset_This td relation = parseThis g parentNode td relation"
| "checkRewrite mk g parentNode model (Userset_ComputedUserset r) td relation = parseComputed g parentNode td r"
| "checkRewrite mk g parentNode model (Userset_TupleToUserset ttu) td relation =
     parseTupleToUserset g parentNode model td ttu"
| "checkRewrite mk g parentNode model (Userset_Union cs) td relation =
     (let (n, g) = operator_node mk g parentNode ''union'' in checkRewrites mk g n model cs td relation)"
| "checkRewrite mk g parentNode model (Userset_Intersection cs) td relation =
     (let (n, g) = operator_node mk g parentNode ''intersection'' in checkRewrites mk g n model cs td relation)"
| "checkRewrite mk g parentNode model (Userset_Difference base sub) td relation =
     (let (n, g) = operator_node mk g parentNode ''exclusion''; g = checkRewrite mk g n model base td relation
      in checkRewrite mk g n model sub td relation)"
| "checkRewrite mk g parentNode model Userset_Unset td relation = snd (operator_node mk g parentNode [])"
| "checkRewrites mk g parentNode model [] td relation = g"
| "checkRewrites mk g parentNode model (c # cs) td relation =
     checkRewrites mk (checkRewrite mk g parentNode model c td relation) parentNode model cs td relation"

text \<open>
  The types and the relations of a type are visited in the order of their names (no type is defined
  twice in a valid model); a relation is looked up in the map again.
\<close>

definition parse_relation :: "(nat \<Rightarrow> string) \<Rightarrow> authorization_model \<Rightarrow> type_definition \<Rightarrow> string \<Rightarrow> model_graph \<Rightarrow>
    model_graph" where
  "parse_relation mk model typeDef relation g =
     (let uniqueLabel = td_type typeDef @ ''#'' @ relation;
          (parentNode, g) = getOrAddNode g uniqueLabel uniqueLabel SpecificTypeAndRelation
      in case map_of (td_relations typeDef) relation of None \<Rightarrow> g
         | Some rewrite \<Rightarrow> checkRewrite mk g parentNode model rewrite typeDef relation)"

definition parse_type :: "(nat \<Rightarrow> string) \<Rightarrow> authorization_model \<Rightarrow> type_definition \<Rightarrow> model_graph \<Rightarrow> model_graph" where
  "parse_type mk model typeDef g =
     fold (parse_relation mk model typeDef) (sort (map fst (td_relations typeDef)))
       (snd (getOrAddNode g (td_type typeDef) (td_type typeDef) SpecificType))"

definition NewAuthorizationModelGraph :: "(nat \<Rightarrow> string) \<Rightarrow> authorization_model \<Rightarrow> model_graph" where
  "NewAuthorizationModelGraph mk model =
     fold (parse_type mk model) (sort_key td_type (am_typeDefinitions model))
       \<lparr>mg_nodes = [], mg_edges = [], mg_drawingDirection = DrawingDirectionListObjects\<rparr>"

definition Reversed :: "model_graph \<Rightarrow> model_graph" where
  "Reversed g =
     \<lparr>mg_nodes = mg_nodes g,
      mg_edges = map (\<lambda>e. \<lparr>ge_from = ge_to e, ge_to = ge_from e, ge_edgeType = ge_edgeType e,
        ge_tuplesetRelation = ge_tuplesetRelation e,
        ge_conditions = (if ge_conditions e = [] then [NoCond] else ge_conditions e)\<rparr>) (mg_edges g),
      mg_drawingDirection = (if mg_drawingDirection g = DrawingDirectionListObjects
        then DrawingDirectionCheck else DrawingDirectionListObjects)\<rparr>"

section \<open>Asking for a path\<close>

definition lines_of :: "model_graph \<Rightarrow> (string \<times> string) list" where
  "lines_of g = map (\<lambda>e. (ge_from e, ge_to e)) (mg_edges g)"

definition graph_PathExists :: "((string \<times> string) list \<Rightarrow> string \<Rightarrow> string \<Rightarrow> bool) \<Rightarrow> model_graph \<Rightarrow>
    string \<Rightarrow> string \<Rightarrow> (ts_error, bool) result" where
  "graph_PathExists pathExistsIn g fromLabel toLabel =
     (case getNodeByLabel g fromLabel of None \<Rightarrow> Inl (GraphError fromLabel)
      | Some _ \<Rightarrow> (case getNodeByLabel g toLabel of None \<Rightarrow> Inl (GraphError toLabel)
          | Some _ \<Rightarrow> Inr (pathExistsIn (lines_of g) fromLabel toLabel)))"

text \<open>What the type system builds and attaches to a model.\<close>

definition build_graph :: "(nat \<Rightarrow> string) \<Rightarrow> authorization_model \<Rightarrow> (ts_error, model_graph) result" where
  "build_graph mk model =
     (let g = NewAuthorizationModelGraph mk model in
      Inr (if mg_drawingDirection g \<noteq> DrawingDirectionListObjects then Reversed g else g))"

section \<open>What the builder draws\<close>

text \<open>
  Nothing is taken away: lines are only added. A rewrite, drawn from a node, reaches it from all of
  its sources.
\<close>

abbreviation edges_of :: "model_graph \<Rightarrow> (string \<times> string) set" where
  "edges_of g \<equiv> set (lines_of g)"

definition reference_label :: "relation_reference \<Rightarrow> string" where
  "reference_label ref = fst (classifyRelationReference ref)"

fun sources :: "authorization_model \<Rightarrow> type_definition \<Rightarrow> string \<Rightarrow> userset \<Rightarrow> string set" where
  "sources model td relation Userset_This =
     {reference_label ref | ref. ref \<in> set (directly_related td relation) \<and> reference_label ref \<noteq> []}"
| "sources model td relation (Userset_ComputedUserset r) = {td_type td @ ''#'' @ r}"
| "sources model td relation (Userset_TupleToUserset ttu) =
     {rr_type ref @ ''#'' @ ttu_GetComputed ttu | ref. ref \<in> set (directly_related td (ttu_GetTupleset ttu)) \<and>
        typeAndRelationExists model (rr_type ref) (ttu_GetComputed ttu)}"
| "sources model td relation (Userset_Union cs) = (\<Union>c \<in> set cs. sources model td relation c)"
| "sources model td relation (Userset_Intersection cs) = (\<Union>c \<in> set cs. sources model td relation c)"
| "sources model td relation (Userset_Difference base sub) =
     sources model td relation base \<union> sources model td relation sub"
| "sources model td relation Userset_Unset = {}"

lemma getOrAddNode_label [simp]: "gn_uniqueLabel (fst (getOrAddNode g uniqueLabel label nodeType)) = uniqueLabel"
  by (auto simp: getOrAddNode_def getNodeByLabel_def Let_def find_Some_iff split: option.split)

lemma getOrAddNode_lines [simp]: "lines_of (snd (getOrAddNode g uniqueLabel label nodeType)) = lines_of g"
  by (simp add: getOrAddNode_def lines_of_def Let_def split: option.split)

lemma AddEdge_lines [simp]:
  "lines_of (AddEdge g a b ty ts cs) = lines_of g @ [(gn_uniqueLabel a, gn_uniqueLabel b)]"
  by (simp add: AddEdge_def lines_of_def Let_def)

lemma add_condition_lines:
  "map (\<lambda>e. (ge_from e, ge_to e)) (add_condition P cond es) = map (\<lambda>e. (ge_from e, ge_to e)) es"
  by (induction es) auto

lemma hasEdge_line: "hasEdge g a b ty ts \<Longrightarrow> (gn_uniqueLabel a, gn_uniqueLabel b) \<in> edges_of g"
  by (force simp: hasEdge_def same_line_def lines_of_def)

lemma upsertEdge_edges [simp]:
  "edges_of (upsertEdge g a b ty ts cond) = insert (gn_uniqueLabel a, gn_uniqueLabel b) (edges_of g)"
proof (cases "hasEdge g a b ty ts")
  case True
  then have "lines_of (upsertEdge g a b ty ts cond) = lines_of g"
    by (simp add: upsertEdge_def hasEdge_def lines_of_def add_condition_lines Let_def)
  with hasEdge_line [OF True] show ?thesis by auto
next
  case False
  then have "upsertEdge g a b ty ts cond = AddEdge g a b ty ts [cond]"
    by (simp add: upsertEdge_def hasEdge_def Let_def)
  then show ?thesis by simp
qed

lemma this_edges_edges:
  "edges_of (this_edges parent refs g) =
     edges_of g \<union> {(reference_label ref, gn_uniqueLabel parent) | ref. ref \<in> set refs \<and> reference_label ref \<noteq> []}"
  by (induction parent refs g rule: this_edges.induct)
    (auto simp: reference_label_def split: prod.split, (metis fst_conv snd_conv getOrAddNode_label getOrAddNode_lines)+)

lemma ttu_edges_edges:
  "edges_of (ttu_edges parent model ts computed refs g) =
     edges_of g \<union> {(rr_type ref @ ''#'' @ computed, gn_uniqueLabel parent) | ref.
       ref \<in> set refs \<and> typeAndRelationExists model (rr_type ref) computed}"
proof (induction parent model ts computed refs g rule: ttu_edges.induct)
  case (2 parent model ts computed ref refs g)
  let ?name = "rr_type ref @ ''#'' @ computed"
  show ?case
  proof (cases "typeAndRelationExists model (rr_type ref) computed")
    case True
    obtain node g' where node: "getOrAddNode g ?name ?name SpecificTypeAndRelation = (node, g')"
      by (cases "getOrAddNode g ?name ?name SpecificTypeAndRelation")
    then have facts: "gn_uniqueLabel node = ?name" "edges_of g' = edges_of g"
      using getOrAddNode_label [of g ?name ?name SpecificTypeAndRelation]
        getOrAddNode_lines [of g ?name ?name SpecificTypeAndRelation] by simp_all
    let ?g = "if hasEdge g' node parent TTUEdge ts then g' else upsertEdge g' node parent TTUEdge ts (rr_condition ref)"
    have "edges_of ?g = insert (?name, gn_uniqueLabel parent) (edges_of g)"
      using hasEdge_line [of g' node parent TTUEdge ts] facts by auto
    with 2(2) [OF refl _ refl node [symmetric] refl] True node show ?thesis by (auto simp: Let_def)
  next
    case False
    with 2(1) [OF refl] show ?thesis by auto
  qed
qed simp

lemma operator_node_edges:
  assumes "operator_node mk g parent operator = (n, g')"
  shows "edges_of g' = insert (gn_uniqueLabel n, gn_uniqueLabel parent) (edges_of g)"
  using assms by (auto simp: operator_node_def Let_def split: prod.splits)
    (metis getOrAddNode_lines snd_conv)+

lemma through_operator:
  assumes "operator_node mk g parent operator = (n, g')" and "edges_of g' \<subseteq> E"
    and "\<forall>s \<in> S. (s, gn_uniqueLabel n) \<in> E\<^sup>+"
  shows "edges_of g \<subseteq> E \<and> (\<forall>s \<in> S. (s, gn_uniqueLabel parent) \<in> E\<^sup>+)"
  using operator_node_edges [OF assms(1)] assms(2,3) by (blast intro: trancl_into_trancl)

lemma checkRewrite_edges:
  "edges_of g \<subseteq> edges_of (checkRewrite mk g parent model rw td relation) \<and>
     (\<forall>s \<in> sources model td relation rw.
        (s, gn_uniqueLabel parent) \<in> (edges_of (checkRewrite mk g parent model rw td relation))\<^sup>+)"
  "edges_of g \<subseteq> edges_of (checkRewrites mk g parent model cs td relation) \<and>
     (\<forall>c \<in> set cs. \<forall>s \<in> sources model td relation c.
        (s, gn_uniqueLabel parent) \<in> (edges_of (checkRewrites mk g parent model cs td relation))\<^sup>+)"
proof (induction mk g parent model rw td relation and mk g parent model cs td relation
    rule: checkRewrite_checkRewrites.induct)
  case (1 mk g parent model td relation)
  show ?case by (auto simp: parseThis_def this_edges_edges intro!: r_into_trancl)
next
  case (2 mk g parent model r td relation)
  show ?case by (auto simp: parseComputed_def Let_def split: prod.split intro!: r_into_trancl)
      (metis getOrAddNode_lines getOrAddNode_label fst_conv snd_conv)+
next
  case (3 mk g parent model ttu td relation)
  show ?case by (auto simp: parseTupleToUserset_def ttu_edges_edges Let_def intro!: r_into_trancl)
next
  case (4 mk g parent model cs td relation)
  obtain n g' where n: "operator_node mk g parent ''union'' = (n, g')" by force
  let ?g = "checkRewrites mk g' n model cs td relation"
  have "edges_of g' \<subseteq> edges_of ?g" "\<forall>s \<in> (\<Union>c \<in> set cs. sources model td relation c). (s, gn_uniqueLabel n) \<in> (edges_of ?g)\<^sup>+"
    using 4 [OF n [symmetric] refl] by blast+
  from through_operator [OF n this] show ?case by (simp add: n)
next
  case (5 mk g parent model cs td relation)
  obtain n g' where n: "operator_node mk g parent ''intersection'' = (n, g')" by force
  let ?g = "checkRewrites mk g' n model cs td relation"
  have "edges_of g' \<subseteq> edges_of ?g" "\<forall>s \<in> (\<Union>c \<in> set cs. sources model td relation c). (s, gn_uniqueLabel n) \<in> (edges_of ?g)\<^sup>+"
    using 5 [OF n [symmetric] refl] by blast+
  from through_operator [OF n this] show ?case by (simp add: n)
next
  case (6 mk g parent model base sub td relation)
  obtain n g' where n: "operator_node mk g parent ''exclusion'' = (n, g')" by force
  let ?base = "checkRewrite mk g' n model base td relation"
  let ?all = "checkRewrite mk ?base n model sub td relation"
  have IH: "edges_of g' \<subseteq> edges_of ?base" "edges_of ?base \<subseteq> edges_of ?all"
    "\<forall>s \<in> sources model td relation base. (s, gn_uniqueLabel n) \<in> (edges_of ?base)\<^sup>+"
    "\<forall>s \<in> sources model td relation sub. (s, gn_uniqueLabel n) \<in> (edges_of ?all)\<^sup>+"
    using 6(1) [OF n [symmetric] refl] 6(2) [OF n [symmetric] refl refl] by blast+
  then have "\<forall>s \<in> sources model td relation (Userset_Difference base sub). (s, gn_uniqueLabel n) \<in> (edges_of ?all)\<^sup>+"
    using trancl_mono [OF _ IH(2)] by auto
  from through_operator [OF n subset_trans [OF IH(1,2)] this] show ?case by (simp add: n)
next
  case (7 mk g parent model td relation)
  obtain n g' where n: "operator_node mk g parent [] = (n, g')" by force
  from operator_node_edges [OF n] n show ?case by auto
next
  case (9 mk g parent model c cs td relation)
  let ?g = "checkRewrite mk g parent model c td relation"
  from 9 have more: "edges_of ?g \<subseteq> edges_of (checkRewrites mk ?g parent model cs td relation)" by blast
  from 9 trancl_mono [OF _ more] show ?case by auto
qed simp

lemma parse_relation_edges:
  "edges_of g \<subseteq> edges_of (parse_relation mk model td R g) \<and>
     (\<forall>rw. map_of (td_relations td) R = Some rw \<longrightarrow> (\<forall>s \<in> sources model td R rw.
        (s, td_type td @ ''#'' @ R) \<in> (edges_of (parse_relation mk model td R g))\<^sup>+))"
proof -
  let ?name = "td_type td @ ''#'' @ R"
  obtain parent g' where parent: "getOrAddNode g ?name ?name SpecificTypeAndRelation = (parent, g')"
    by (cases "getOrAddNode g ?name ?name SpecificTypeAndRelation")
  then have facts: "gn_uniqueLabel parent = ?name" "lines_of g' = lines_of g"
    using getOrAddNode_label [of g ?name ?name SpecificTypeAndRelation]
      getOrAddNode_lines [of g ?name ?name SpecificTypeAndRelation] by simp_all
  show ?thesis
    using checkRewrite_edges(1) [of g' mk parent model _ td R] parent facts
    by (auto simp: parse_relation_def Let_def split: option.split)
qed

lemma fold_grows:
  assumes grows: "\<And>x g. edges_of g \<subseteq> edges_of (f x g)" and "x \<in> set xs"
    and adds: "\<And>g. P (edges_of (f x g))" and mono: "\<And>E E'. E \<subseteq> E' \<Longrightarrow> P E \<Longrightarrow> P E'"
  shows "P (edges_of (fold f xs g))"
proof -
  have grow: "edges_of g \<subseteq> edges_of (fold f ys g)" for ys g
    by (induction ys arbitrary: g) (use grows in fastforce)+
  from \<open>x \<in> set xs\<close> obtain ys zs where "xs = ys @ x # zs" by (meson split_list)
  then show ?thesis using mono [OF grow adds] by simp
qed

lemma fold_edges_mono:
  assumes "\<And>x g. edges_of g \<subseteq> edges_of (f x g)"
  shows "edges_of g \<subseteq> edges_of (fold f xs g)"
  by (induction xs arbitrary: g) (use assms in fastforce)+

lemma parse_type_edges:
  "edges_of g \<subseteq> edges_of (parse_type mk model td g) \<and>
     (\<forall>R rw. map_of (td_relations td) R = Some rw \<longrightarrow> (\<forall>s \<in> sources model td R rw.
        (s, td_type td @ ''#'' @ R) \<in> (edges_of (parse_type mk model td g))\<^sup>+))"
proof (intro conjI allI impI ballI)
  have grows: "edges_of g \<subseteq> edges_of (parse_relation mk model td R g)" for R g
    using parse_relation_edges by blast
  have "edges_of (snd (getOrAddNode g (td_type td) (td_type td) SpecificType)) \<subseteq> edges_of (parse_type mk model td g)"
    unfolding parse_type_def by (rule fold_edges_mono [OF grows])
  then show "edges_of g \<subseteq> edges_of (parse_type mk model td g)" by simp
  fix R rw s assume R: "map_of (td_relations td) R = Some rw" and s: "s \<in> sources model td R rw"
  then have "R \<in> set (sort (map fst (td_relations td)))" by (force dest: map_of_SomeD)
  then show "(s, td_type td @ ''#'' @ R) \<in> (edges_of (parse_type mk model td g))\<^sup>+"
    unfolding parse_type_def using parse_relation_edges R s
    by (intro fold_grows [OF grows, where P = "\<lambda>E. (s, td_type td @ ''#'' @ R) \<in> E\<^sup>+"]) (auto dest: trancl_mono)
qed

text \<open>Every relation of a model is reached from the sources of its rewrite.\<close>

lemma graph_edges:
  assumes "td \<in> set (am_typeDefinitions model)" and "map_of (td_relations td) R = Some rw"
    and "s \<in> sources model td R rw"
  shows "(s, td_type td @ ''#'' @ R) \<in> (edges_of (NewAuthorizationModelGraph mk model))\<^sup>+"
  unfolding NewAuthorizationModelGraph_def
proof (rule fold_grows [where P = "\<lambda>E. (s, td_type td @ ''#'' @ R) \<in> E\<^sup>+"])
  show "edges_of g \<subseteq> edges_of (parse_type mk model td' g)" for td' g using parse_type_edges by blast
  show "td \<in> set (sort_key td_type (am_typeDefinitions model))" using assms(1) by simp
  show "(s, td_type td @ ''#'' @ R) \<in> (edges_of (parse_type mk model td g))\<^sup>+" for g
    using parse_type_edges assms(2,3) by blast
qed (auto dest: trancl_mono)

text \<open>The builder draws from the users to the objects, and the graph is attached as it is.\<close>

lemma build_graph_new: "build_graph mk model = Inr (NewAuthorizationModelGraph mk model)"
proof -
  have step: "mg_drawingDirection (snd (getOrAddNode g l l' ty)) = mg_drawingDirection g"
    "mg_drawingDirection (AddEdge g a b et ts cs) = mg_drawingDirection g"
    "mg_drawingDirection (upsertEdge g a b et ts c) = mg_drawingDirection g" for g l l' ty a b et ts cs c
    by (simp_all add: getOrAddNode_def AddEdge_def upsertEdge_def Let_def split: option.split)
  have direct: "mg_drawingDirection (this_edges parent refs g) = mg_drawingDirection g" for parent refs g
    by (induction refs arbitrary: g) (simp_all add: step case_prod_beta Let_def)
  have ttu: "mg_drawingDirection (ttu_edges parent model ts c refs g) = mg_drawingDirection g" for parent model ts c refs g
    by (induction refs arbitrary: g) (simp_all add: step case_prod_beta Let_def)
  have op: "mg_drawingDirection (snd (operator_node mk g parent operator)) = mg_drawingDirection g" for mk g parent operator
    by (simp add: operator_node_def step case_prod_beta Let_def)
  have rewrite: "mg_drawingDirection (checkRewrite mk g parent model rw td relation) = mg_drawingDirection g"
    "mg_drawingDirection (checkRewrites mk g parent model cs td relation) = mg_drawingDirection g"
    for g parent model rw cs td relation
    by (induction mk g parent model rw td relation and mk g parent model cs td relation
        rule: checkRewrite_checkRewrites.induct)
      (simp_all add: parseThis_def parseComputed_def parseTupleToUserset_def direct ttu step op case_prod_beta Let_def)
  have relation: "mg_drawingDirection (parse_relation mk model td R g) = mg_drawingDirection g" for td R g
    by (simp add: parse_relation_def rewrite step case_prod_beta Let_def split: option.split)
  have fold: "mg_drawingDirection (fold f xs g) = mg_drawingDirection g"
    if "\<And>x g. mg_drawingDirection (f x g) = mg_drawingDirection g" for f :: "'x \<Rightarrow> model_graph \<Rightarrow> model_graph" and xs g
    by (induction xs arbitrary: g) (simp_all add: that)
  show ?thesis
    by (simp add: build_graph_def NewAuthorizationModelGraph_def parse_type_def fold relation step Let_def)
qed

section \<open>Every line joins two nodes\<close>

definition labels_of :: "model_graph \<Rightarrow> string set" where
  "labels_of g = gn_uniqueLabel ` set (mg_nodes g)"

definition closed_graph :: "model_graph \<Rightarrow> bool" where
  "closed_graph g \<longleftrightarrow> edges_of g \<subseteq> labels_of g \<times> labels_of g"

text \<open>A step of the builder: the graph stays closed and keeps its nodes.\<close>

definition extends :: "model_graph \<Rightarrow> model_graph \<Rightarrow> bool" where
  "extends g g' \<longleftrightarrow> (closed_graph g \<longrightarrow> closed_graph g') \<and> labels_of g \<subseteq> labels_of g'"

lemma extends_refl [simp, intro]: "extends g g" by (simp add: extends_def)

lemma extends_trans [trans]: "extends g g' \<Longrightarrow> extends g' g'' \<Longrightarrow> extends g g''"
  by (auto simp: extends_def)

lemma getNodeByLabel_None: "getNodeByLabel g l = None \<longleftrightarrow> l \<notin> labels_of g"
  by (auto simp: getNodeByLabel_def labels_of_def find_None_iff)

lemma getOrAddNode_labels: "labels_of (snd (getOrAddNode g uniqueLabel label nodeType)) = insert uniqueLabel (labels_of g)"
  using getNodeByLabel_None [of g uniqueLabel]
  by (auto simp: getOrAddNode_def labels_of_def Let_def split: option.split)

lemma getOrAddNode_extends: "extends g (snd (getOrAddNode g uniqueLabel label nodeType))"
  unfolding extends_def closed_graph_def getOrAddNode_labels getOrAddNode_lines by blast

lemma AddEdge_labels [simp]: "labels_of (AddEdge g a b ty ts cs) = labels_of g"
  by (simp add: AddEdge_def labels_of_def Let_def)

lemma upsertEdge_labels [simp]: "labels_of (upsertEdge g a b ty ts cond) = labels_of g"
  by (simp add: upsertEdge_def AddEdge_def labels_of_def Let_def)

lemma edge_extends:
  assumes "gn_uniqueLabel a \<in> labels_of g" and "gn_uniqueLabel b \<in> labels_of g"
  shows "extends g (AddEdge g a b ty ts cs)" and "extends g (upsertEdge g a b ty ts cond)"
  using assms by (auto simp: extends_def closed_graph_def)

lemma node_edge_extends:
  assumes "gn_uniqueLabel parent \<in> labels_of g" and "getOrAddNode g l l' ty = (n, g')"
  shows "extends g (AddEdge g' n parent et ts cs)" and "extends g (upsertEdge g' n parent et ts cond)" and "extends g g'"
proof -
  have g': "extends g g'" "labels_of g' = insert l (labels_of g)" "gn_uniqueLabel n = l"
    using getOrAddNode_extends [of g l l' ty] getOrAddNode_labels [of g l l' ty] getOrAddNode_label [of g l l' ty] assms(2)
    by simp_all
  then have "gn_uniqueLabel n \<in> labels_of g'" "gn_uniqueLabel parent \<in> labels_of g'" using assms(1) by auto
  note e = edge_extends [OF this]
  show "extends g (AddEdge g' n parent et ts cs)" "extends g (upsertEdge g' n parent et ts cond)" "extends g g'"
    using extends_trans [OF g'(1) e(1)] extends_trans [OF g'(1) e(2)] g'(1) by blast+
qed

lemma extends_label: "extends g g' \<Longrightarrow> l \<in> labels_of g \<Longrightarrow> l \<in> labels_of g'"
  by (auto simp: extends_def)

lemma this_edges_extends: "gn_uniqueLabel parent \<in> labels_of g \<Longrightarrow> extends g (this_edges parent refs g)"
proof (induction parent refs g rule: this_edges.induct)
  case (2 parent ref refs g)
  obtain l ty where ref: "classifyRelationReference ref = (l, ty)" by force
  obtain n g' where n: "getOrAddNode g l l ty = (n, g')" by (cases "getOrAddNode g l l ty")
  show ?case
  proof (cases "l = []")
    case True
    with 2(1) [OF ref [symmetric] refl True 2(3)] show ?thesis by (simp add: ref)
  next
    case False
    note e = node_edge_extends(2) [OF 2(3) n, of DirectEdge "[]" "rr_condition ref"]
    from extends_trans [OF e 2(2) [OF ref [symmetric] refl False n [symmetric] refl extends_label [OF e 2(3)]]]
    show ?thesis by (simp add: ref n False)
  qed
qed simp

lemma ttu_edges_extends: "gn_uniqueLabel parent \<in> labels_of g \<Longrightarrow> extends g (ttu_edges parent model ts computed refs g)"
proof (induction refs arbitrary: g)
  case (Cons ref refs)
  let ?name = "rr_type ref @ ''#'' @ computed"
  obtain n g' where n: "getOrAddNode g ?name ?name SpecificTypeAndRelation = (n, g')"
    by (cases "getOrAddNode g ?name ?name SpecificTypeAndRelation")
  let ?g = "if hasEdge g' n parent TTUEdge ts then g' else upsertEdge g' n parent TTUEdge ts (rr_condition ref)"
  have e: "extends g ?g" using node_edge_extends(2,3) [OF Cons.prems n] by simp
  from extends_trans [OF e Cons.IH [OF extends_label [OF e Cons.prems]]] Cons.IH [OF Cons.prems] n
  show ?case by (simp add: Let_def)
qed simp

lemma operator_node_extends:
  assumes "gn_uniqueLabel parent \<in> labels_of g" and "operator_node mk g parent operator = (n, g')"
  shows "extends g g'" and "gn_uniqueLabel n \<in> labels_of g'"
proof -
  let ?name = "operator @ '':'' @ mk (length (mg_nodes g))"
  obtain h where h: "getOrAddNode g ?name operator OperatorNode = (n, h)" "g' = AddEdge h n parent RewriteEdge [] []"
    using assms(2) by (auto simp: operator_node_def Let_def split: prod.splits)
  from node_edge_extends(1) [OF assms(1) h(1)] show "extends g g'" unfolding h(2) .
  show "gn_uniqueLabel n \<in> labels_of g'"
    using getOrAddNode_labels [of g ?name operator OperatorNode] getOrAddNode_label [of g ?name operator OperatorNode]
    unfolding h by simp
qed

lemma checkRewrite_extends:
  "gn_uniqueLabel parent \<in> labels_of g \<Longrightarrow> extends g (checkRewrite mk g parent model rw td relation)"
  "gn_uniqueLabel parent \<in> labels_of g \<Longrightarrow> extends g (checkRewrites mk g parent model cs td relation)"
proof (induction mk g parent model rw td relation and mk g parent model cs td relation
    rule: checkRewrite_checkRewrites.induct)
  case (2 mk g parent model r td relation)
  then show ?case using node_edge_extends(1) [OF 2 prod.collapse [symmetric]]
    by (simp add: parseComputed_def Let_def case_prod_beta)
next
  case (6 mk g parent model base sub td relation)
  obtain n g' where n: "operator_node mk g parent ''exclusion'' = (n, g')" by force
  note op = operator_node_extends [OF 6(3) n]
  note base = 6(1) [OF n [symmetric] refl op(2)]
  from 6(2) [OF n [symmetric] refl refl extends_label [OF base op(2)]] op base show ?case
    by (auto simp: n intro: extends_trans)
next
  case (4 mk g parent model cs td relation)
  obtain n g' where n: "operator_node mk g parent ''union'' = (n, g')" by force
  note op = operator_node_extends [OF 4(2) n]
  from extends_trans [OF op(1) 4(1) [OF n [symmetric] refl op(2)]] show ?case by (simp add: n)
next
  case (5 mk g parent model cs td relation)
  obtain n g' where n: "operator_node mk g parent ''intersection'' = (n, g')" by force
  note op = operator_node_extends [OF 5(2) n]
  from extends_trans [OF op(1) 5(1) [OF n [symmetric] refl op(2)]] show ?case by (simp add: n)
next
  case (7 mk g parent model td relation)
  from operator_node_extends(1) [OF 7 prod.collapse [symmetric]] show ?case by simp
next
  case (9 mk g parent model c cs td relation)
  then show ?case by (auto intro: extends_trans extends_label)
qed (auto simp: parseThis_def this_edges_extends parseTupleToUserset_def ttu_edges_extends Let_def)

lemma fold_extends: "(\<And>x g. extends g (f x g)) \<Longrightarrow> extends g (fold f xs g)"
  by (induction xs arbitrary: g) (auto intro: extends_trans)

lemma parse_relation_extends:
  "extends g (parse_relation mk model td R g)" "td_type td @ ''#'' @ R \<in> labels_of (parse_relation mk model td R g)"
proof -
  let ?name = "td_type td @ ''#'' @ R"
  let ?g = "snd (getOrAddNode g ?name ?name SpecificTypeAndRelation)"
    and ?n = "fst (getOrAddNode g ?name ?name SpecificTypeAndRelation)"
  have in_g: "?name \<in> labels_of ?g" unfolding getOrAddNode_labels by simp
  have e: "extends ?g (parse_relation mk model td R g)"
    using checkRewrite_extends(1) [of ?n ?g] in_g
    by (auto simp: parse_relation_def Let_def case_prod_beta split: option.split)
  show "extends g (parse_relation mk model td R g)" by (rule extends_trans [OF getOrAddNode_extends e])
  show "?name \<in> labels_of (parse_relation mk model td R g)" by (rule extends_label [OF e in_g])
qed

lemma parse_type_extends: "extends g (parse_type mk model td g)"
  unfolding parse_type_def
  by (rule extends_trans [OF getOrAddNode_extends fold_extends]) (rule parse_relation_extends)

lemma new_graph_closed: "closed_graph (NewAuthorizationModelGraph mk model)"
proof -
  let ?empty = "\<lparr>mg_nodes = [], mg_edges = [], mg_drawingDirection = DrawingDirectionListObjects\<rparr>"
  have "extends ?empty (NewAuthorizationModelGraph mk model)"
    unfolding NewAuthorizationModelGraph_def by (rule fold_extends) (rule parse_type_extends)
  then show ?thesis by (simp add: extends_def closed_graph_def lines_of_def)
qed

end
