(* ===== verification/Check_Paths.thy ===== *)
theory Check_Paths
  imports Check_Semantics Model_Graph
begin

text \<open>
  Why a check may be refused when the model graph has no path from the user's type: what a user has
  is supported by a derivation, and each of its steps follows a line of the graph.
\<close>

section \<open>Supported readings\<close>

text \<open>
  The rewrites read with a fixed answer \<open>N\<close> for what an exclusion takes away; then the readings that
  are derived from themselves this way, the stable ones. A relation that only holds because it is
  assumed to hold is not supported.
\<close>

fun derives :: "type_system \<Rightarrow> tuple_key set \<Rightarrow> string \<Rightarrow> (string \<Rightarrow> string \<Rightarrow> bool) \<Rightarrow> (string \<Rightarrow> string \<Rightarrow> bool) \<Rightarrow>
    string \<Rightarrow> string \<Rightarrow> userset \<Rightarrow> bool" where
  "derives t T u N H ob r (Userset_Union cs) = (\<exists>c \<in> set cs. derives t T u N H ob r c)"
| "derives t T u N H ob r (Userset_Intersection cs) = (\<forall>c \<in> set cs. derives t T u N H ob r c)"
| "derives t T u N H ob r (Userset_Difference base sub) =
     (derives t T u N H ob r base \<and> \<not> holds t T u N ob r sub)"
| "derives t T u N H ob r rw = holds t T u H ob r rw"

fun supported :: "type_system \<Rightarrow> tuple_key set \<Rightarrow> string \<Rightarrow> (string \<Rightarrow> string \<Rightarrow> bool) \<Rightarrow> nat \<Rightarrow> string \<Rightarrow> string \<Rightarrow>
    bool" where
  "supported t T u N 0 ob r = False"
| "supported t T u N (Suc n) ob r \<longleftrightarrow> IsSelfDefining (NewTupleKey ob r u) \<or>
     (\<exists>rel. TypeSystem_GetRelation t (GetType ob) r = Inr rel \<and>
        derives t T u N (supported t T u N n) ob r (rel_rewrite rel))"

definition stable_reading :: "type_system \<Rightarrow> tuple_key set \<Rightarrow> string \<Rightarrow> (string \<Rightarrow> string \<Rightarrow> bool) \<Rightarrow> bool" where
  "stable_reading t T u H \<longleftrightarrow> is_model t T u H \<and> (\<forall>ob r. H ob r \<longrightarrow> (\<exists>n. supported t T u H n ob r))"

lemma derives_positive: "no_difference rw \<Longrightarrow> derives t T u N H ob r rw \<longleftrightarrow> holds t T u H ob r rw"
  by (induction rw) auto

section \<open>Paths of a user\<close>

text \<open>A path starts at the type or the userset of the user, or at the wildcard of the type.\<close>

definition user_reaches :: "(string \<times> string) set \<Rightarrow> string \<Rightarrow> string \<Rightarrow> bool" where
  "user_reaches E u x \<longleftrightarrow>
     (let (userType, _, userRelation) = ToUserParts u in
      if userRelation \<noteq> [] then (userType @ ''#'' @ userRelation, x) \<in> E\<^sup>*
      else (userType, x) \<in> E\<^sup>* \<or> (userType @ '':*'', x) \<in> E\<^sup>*)"

lemma user_reaches_trans: "user_reaches E u x \<Longrightarrow> (x, y) \<in> E\<^sup>+ \<Longrightarrow> user_reaches E u y"
  unfolding user_reaches_def by (auto split: if_splits dest: trancl_into_rtrancl rtrancl_trans)

text \<open>What is relied on of gonum's \<open>topo.PathExistsIn\<close>.\<close>

definition finds_paths :: "((string \<times> string) list \<Rightarrow> string \<Rightarrow> string \<Rightarrow> bool) \<Rightarrow> bool" where
  "finds_paths pathExistsIn \<longleftrightarrow> (\<forall>es a b. pathExistsIn es a b \<longleftrightarrow> (a, b) \<in> (set es)\<^sup>*)"

lemma closed_path:
  assumes "closed_graph g" and "(a, b) \<in> (edges_of g)\<^sup>*" and "b \<in> labels_of g"
  shows "a \<in> labels_of g"
  using assms(2,3,1) by (cases rule: converse_rtranclE) (auto simp: closed_graph_def)

lemma no_path:
  assumes "finds_paths f" and "closed_graph g"
    and "PathExists (graph_PathExists f) g u r T = Inr False"
  shows "\<not> user_reaches (edges_of g) u (T @ ''#'' @ r)"
proof -
  let ?to = "T @ ''#'' @ r"
  obtain ut i ur where parts: "ToUserParts u = (ut, i, ur)" by (cases "ToUserParts u")
  have query: "graph_PathExists f g l l' = (if l \<in> labels_of g \<and> l' \<in> labels_of g then Inr ((l, l') \<in> (edges_of g)\<^sup>*)
      else Inl (GraphError (if l \<in> labels_of g then l' else l)))" for l l'
    using assms(1) getNodeByLabel_None [of g l] getNodeByLabel_None [of g l']
    by (auto simp: graph_PathExists_def finds_paths_def split: option.split)
  have wild: "(ut @ '':*'', ?to) \<notin> (edges_of g)\<^sup>*" if "?to \<in> labels_of g"
    "graph_PathExists f g (TypedPublicWildcard ut) ?to \<noteq> Inr True"
    using closed_path [OF assms(2) _ that(1)] that unfolding query
    by (auto simp: TypedPublicWildcard_def Wildcard_def BuildObject_def split: if_splits)
  from assms(3) have *: "graph_PathExists f g (if ur \<noteq> [] then ut @ ''#'' @ ur else ut) ?to = Inr False"
    "ur = [] \<Longrightarrow> graph_PathExists f g (TypedPublicWildcard ut) ?to \<noteq> Inr True"
    by (auto simp: PathExists_def parts ToObjectRelationString_def Let_def split: sum.splits bool.splits if_splits)
  from *(1) have "?to \<in> labels_of g" "((if ur \<noteq> [] then ut @ ''#'' @ ur else ut), ?to) \<notin> (edges_of g)\<^sup>*"
    unfolding query by (auto split: if_splits)
  with * wild show ?thesis by (auto simp: user_reaches_def parts)
qed

section \<open>Each step follows a line\<close>

text \<open>
  A valid model with names as the API's patterns leave them, in which no intersection is empty; users
  that are objects or usersets.
\<close>

fun no_empty_intersection :: "userset \<Rightarrow> bool" where
  "no_empty_intersection (Userset_Union cs) \<longleftrightarrow> (\<forall>c \<in> set cs. no_empty_intersection c)"
| "no_empty_intersection (Userset_Intersection cs) \<longleftrightarrow> cs \<noteq> [] \<and> (\<forall>c \<in> set cs. no_empty_intersection c)"
| "no_empty_intersection (Userset_Difference base sub) \<longleftrightarrow> no_empty_intersection base \<and> no_empty_intersection sub"
| "no_empty_intersection _ \<longleftrightarrow> True"

definition well_shaped :: "authorization_model \<Rightarrow> bool" where
  "well_shaped model \<longleftrightarrow> (\<forall>td \<in> set (am_typeDefinitions model).
     CHR '':'' \<notin> set (td_type td) \<and> CHR ''#'' \<notin> set (td_type td) \<and>
     (\<forall>(R, rw) \<in> set (td_relations td). no_empty_intersection rw))"

definition full_form :: "string \<Rightarrow> bool" where
  "full_form u \<longleftrightarrow> IsValidObject u \<or> IsValidUserset u"

lemma full_form_cases [consumes 1, case_names object userset]:
  assumes "full_form u"
  obtains t i where "u = BuildObject t i" "IsValidObject u" "\<not> IsObjectRelation u" "t \<noteq> []" "i \<noteq> []"
      "ToUserParts u = (t, i, [])" "GetType u = t" "SplitObjectRelation u = (u, [])"
      "CHR '':'' \<notin> set t" "CHR ''#'' \<notin> set u"
  | t i r where "u = BuildObject t (ToObjectRelationString i r)" "IsObjectRelation u" "\<not> IsValidObject u" "r \<noteq> []"
      "i \<noteq> []" "CHR ''#'' \<notin> set i" "CHR ''#'' \<notin> set r" "ToUserParts u = (t, i, r)" "GetType u = t" "SplitObjectRelation u = (BuildObject t i, r)"
      "CHR '':'' \<notin> set t"
proof (cases "IsValidObject u")
  case True
  then obtain t i where u: "u = BuildObject t i" "t \<noteq> []" "i \<noteq> []" and free: "free_of ''#: '' t"
    by (auto simp: IsValidObject_iff)
  have hash: "CHR ''#'' \<notin> set u" by (rule valid_object_no_hash [OF True])
  then have "\<not> IsObjectRelation u" using valid_userset_has_hash by (auto simp: IsObjectRelation_def)
  with True u hash free_of_no_hash_colon(1) [OF free] that(1) show ?thesis
    by (simp add: ToUserParts_def SplitObjectRelation_no_hash)
next
  case False
  with assms have valid: "IsValidUserset u" by (simp add: full_form_def)
  then obtain t i r where u: "u = BuildObject t (ToObjectRelationString i r)" "t \<noteq> []" "i \<noteq> []" "r \<noteq> []"
    and free: "free_of ''#: '' t" "free_of ''#: *'' i" "free_of ''#: *'' r" by (auto simp: IsValidUserset_iff)
  with valid False free_of_no_hash_colon(1) [OF free(1)] free_of_no_hash_colon(2) [OF free(2)] free_of_no_hash_colon(2) [OF free(3)] that(2) show ?thesis
    by (simp add: ToUserParts_def IsObjectRelation_def)
qed

lemma full_form_user: "full_form u \<Longrightarrow> full_user u"
  by (cases u rule: full_form_cases) (auto simp: full_user_def BuildObject_def)

lemma ref_admits_type:
  assumes "ref_admits ref u" and "CHR '':'' \<notin> set (rr_type ref)"
  shows "GetType u = rr_type ref"
  using assms by (auto simp: ref_admits_def TypedPublicWildcard_def split: option.splits relation_or_wildcard.splits)

lemma model_type_Some: "model_type model T = Some td \<Longrightarrow> td \<in> set (am_typeDefinitions model) \<and> td_type td = T"
  unfolding model_type_def by (auto dest!: map_of_SomeD)

lemma relation_types:
  assumes "model_type model T = Some td" and "TypeSystem_GetRelation (newWithoutGraphs model) T R = Inr rel"
  shows "directly_related td R = rel_DirectlyRelatedUserTypes rel" and "map_of (td_relations td) R = Some (rel_rewrite rel)"
  using assms by (auto simp: GetRelation_new newRelation_def directly_related_def rel_DirectlyRelatedUserTypes_def
      split: option.splits)

lemma new_relation:
  assumes "TypeSystem_GetRelation (newWithoutGraphs model) T R = Inr rel"
  obtains td where "model_type model T = Some td" "td \<in> set (am_typeDefinitions model)" "td_type td = T"
    "map_of (td_relations td) R = Some (rel_rewrite rel)" "directly_related td R = rel_DirectlyRelatedUserTypes rel"
proof -
  from assms obtain td where "model_type model T = Some td"
    by (auto simp: GetRelation_new split: option.splits)
  with that model_type_Some [OF this] relation_types [OF this assms] show ?thesis by blast
qed

lemma GetRelation_exists:
  "is_ok (TypeSystem_GetRelation (newWithoutGraphs model) T R) \<Longrightarrow> typeAndRelationExists model T R"
  unfolding is_ok_iff typeAndRelationExists_def by (metis new_relation fst_conv image_eqI map_of_SomeD)

lemma userset_inj:
  "CHR ''#'' \<notin> set i' \<Longrightarrow> CHR ''#'' \<notin> set r' \<Longrightarrow> ToObjectRelationString i r = ToObjectRelationString i' r' \<Longrightarrow> i = i' \<and> r = r'"
  by (auto simp: ToObjectRelationString_def append_eq_append_conv2 append_eq_Cons_conv Cons_eq_append_conv)

text \<open>A tuple that grants the user something starts at the label of the reference that admits it.\<close>

lemma granted_reaches:
  assumes "full_form u" and "full_form w" and grants: "grants_user H u w"
    and ref: "ref_admits ref w" "ref_wf ref" "rr_type ref \<noteq> []" "CHR '':'' \<notin> set (rr_type ref)" "CHR ''#'' \<notin> set (rr_type ref)"
    and H: "\<And>ob r. H ob r \<Longrightarrow> r \<noteq> [] \<Longrightarrow> user_reaches E u (GetType ob @ ''#'' @ r)"
  shows "reference_label ref \<noteq> [] \<and> user_reaches E u (reference_label ref)"
proof -
  let ?T = "rr_type ref"
  from grants consider (same) "w = u" | (wild) "\<not> IsObjectRelation u" "w = BuildObject (GetType u) Wildcard"
    | (set) "IsObjectRelation w" "H (fst (SplitObjectRelation w)) (snd (SplitObjectRelation w))"
    by (auto simp: grants_user_def TypedPublicWildcard_def)
  note cases = this
  have label: "reference_label ref = (if rr_HasWildcard ref then ?T @ '':*''
      else if rr_GetRelation ref \<noteq> [] then ?T @ ''#'' @ rr_GetRelation ref else ?T)"
    using ref(3-5) by (auto simp: reference_label_def classifyRelationReference_def Let_def)
  have object: "IsValidObject w \<Longrightarrow> \<not> IsObjectRelation w"
    using valid_object_no_hash valid_userset_has_hash by (auto simp: IsObjectRelation_def)
  have typed: "w = BuildObject ?T i \<Longrightarrow> IsValidObject w \<Longrightarrow> w = u \<Longrightarrow> ToUserParts u = (?T, i, [])" for i
    using assms(1) ref(4) by (cases u rule: full_form_cases) (auto simp: BuildObject_inj)
  have wildcard: "w = BuildObject ?T i \<Longrightarrow> w = BuildObject (GetType u) Wildcard \<Longrightarrow> \<not> IsObjectRelation u \<Longrightarrow>
      i = Wildcard \<and> (\<exists>j. ToUserParts u = (?T, j, []))" for i
    using assms(1) ref(4) by (cases u rule: full_form_cases) (auto simp: BuildObject_inj)
  consider (none) i where "rr_relationOrWildcard ref = None" "w = BuildObject ?T i" "i \<noteq> Wildcard" "IsValidObject w"
    | (relation) i r where "rr_relationOrWildcard ref = Some (RR_Relation r)" "r \<noteq> []"
        "w = BuildObject ?T (ToObjectRelationString i r)" "IsValidUserset w"
    | (public) "rr_relationOrWildcard ref = Some (RR_Wildcard True)" "w = BuildObject ?T Wildcard" "IsValidObject w"
    using ref(1,2) by (auto simp: ref_admits_def ref_wf_def TypedPublicWildcard_def split: option.splits relation_or_wildcard.splits)
  then show ?thesis
  proof cases
    case none
    then have l: "reference_label ref = ?T" by (simp add: label rr_HasWildcard_def rr_GetRelation_def)
    from cases show ?thesis
    proof cases
      case same
      with typed [OF none(2,4)] ref(3) show ?thesis by (simp add: l user_reaches_def)
    next
      case wild
      with wildcard [OF none(2)] none(3) show ?thesis by blast
    qed (use object none(4) in blast)
  next
    case public
    then have l: "reference_label ref = ?T @ '':*''" by (simp add: label rr_HasWildcard_def)
    from cases show ?thesis
    proof cases
      case same
      with typed [OF public(2,3)] show ?thesis by (simp add: l user_reaches_def)
    next
      case wild
      with wildcard [OF public(2)] show ?thesis by (auto simp: l user_reaches_def)
    qed (use object public(3) in blast)
  next
    case relation
    then have l: "reference_label ref = ?T @ ''#'' @ r" by (simp add: label rr_HasWildcard_def rr_GetRelation_def)
    have set: "IsObjectRelation w" using relation(4) by (simp add: IsObjectRelation_def)
    have "ToUserParts w = (?T, i, r) \<and> SplitObjectRelation w = (BuildObject ?T i, r)"
      using relation(3) ref(4) set
      by (cases rule: full_form_cases [OF assms(2)]) (auto simp: BuildObject_inj dest: userset_inj)
    then have w: "ToUserParts w = (?T, i, r)" "SplitObjectRelation w = (BuildObject ?T i, r)" by blast+
    from cases show ?thesis
    proof cases
      case same
      with w relation(2) show ?thesis by (simp add: l user_reaches_def)
    next
      case wild
      with wildcard [OF relation(3)] have "ToObjectRelationString i r = Wildcard" by blast
      then show ?thesis by (cases i) (auto simp: ToObjectRelationString_def Wildcard_def)
    next
      case set
      with w relation(2) H [of "BuildObject ?T i" r] ref(4) show ?thesis by (simp add: l)
    qed
  qed
qed

text \<open>What validation and the shape of the model give.\<close>

definition model_ok :: "authorization_model \<Rightarrow> bool" where
  "model_ok model \<longleftrightarrow> IsSchemaVersionSupported (am_schemaVersion model) \<and> names_ok (newWithoutGraphs model) \<and>
     (\<forall>T R r. TypeSystem_GetRelation (newWithoutGraphs model) T R = Inr r \<longrightarrow>
        (\<forall>ref \<in> set (rel_DirectlyRelatedUserTypes r). ref_wf ref))"

lemma valid_relation:
  assumes "valid_model compile model" and "TypeSystem_GetRelation (newWithoutGraphs model) T R = Inr rel"
  shows "relation_valid (newWithoutGraphs model) T R rel" and "R \<noteq> []"
proof -
  obtain td where "td \<in> set (am_typeDefinitions model)" "td_type td = T" "map_of (td_relations td) R = Some (rel_rewrite rel)"
    using assms(2) by (rule new_relation)
  with assms show "relation_valid (newWithoutGraphs model) T R rel" "R \<noteq> []"
    unfolding valid_model_def by (fastforce dest!: map_of_SomeD)+
qed

lemma valid_reference:
  assumes "valid_model compile model" and "well_shaped model"
    and "TypeSystem_GetRelation (newWithoutGraphs model) T R = Inr rel" and "ref \<in> set (rel_DirectlyRelatedUserTypes rel)"
  shows "ref_wf ref" and "rr_type ref \<noteq> []" and "CHR '':'' \<notin> set (rr_type ref)" and "CHR ''#'' \<notin> set (rr_type ref)"
    and "is_ok (TypeSystem_GetRelations (newWithoutGraphs model) (rr_type ref))"
proof -
  have ref: "restriction_valid (newWithoutGraphs model) T R ref"
    using valid_relation(1) [OF assms(1,3)] assms(4) by (simp add: relation_valid_def)
  then show ok: "is_ok (TypeSystem_GetRelations (newWithoutGraphs model) (rr_type ref))" by (simp add: restriction_valid_def)
  show "ref_wf ref"
    using ref by (auto simp: restriction_valid_def ref_wf_def rr_HasWildcard_def rr_GetRelation_def)
  from ok obtain td where "model_type model (rr_type ref) = Some td"
    by (auto simp: is_ok_iff TypeSystem_GetRelations_def GetTypeDefinition_new split: option.splits)
  from model_type_Some [OF this] assms(1,2) show "rr_type ref \<noteq> []" "CHR '':'' \<notin> set (rr_type ref)" "CHR ''#'' \<notin> set (rr_type ref)"
    unfolding valid_model_def well_shaped_def by auto
qed

lemma ttu_nodes_rewrite: "x \<in> set (ttu_nodes rw) \<longleftrightarrow> Userset_TupleToUserset x \<in> set (rewrite_nodes rw)"
  by (induction rw) auto

lemma valid_model_ok:
  assumes "valid_model compile model" and "well_shaped model"
  shows "model_ok model"
proof -
  let ?t = "newWithoutGraphs model"
  have "ttu_GetTupleset x \<noteq> []" if r: "TypeSystem_GetRelation ?t T R = Inr rel" and "x \<in> set (ttu_nodes (rel_rewrite rel))" for T R rel x
  proof -
    from that(2) valid_relation(1) [OF assms(1) r] have "node_valid ?t T R (Userset_TupleToUserset x)"
      unfolding relation_valid_def ttu_nodes_rewrite by blast
    then obtain ts where "TypeSystem_GetRelation ?t T (ttu_GetTupleset x) = Inr ts" by (auto simp: node_valid_def)
    then show ?thesis by (rule valid_relation(2) [OF assms(1)])
  qed
  then have "names_ok ?t"
    using valid_relation(2) [OF assms(1)] valid_reference(2,4) [OF assms] unfolding names_ok_def ref_named_def by blast
  moreover have "IsSchemaVersionSupported (am_schemaVersion model)" using assms(1) by (simp add: valid_model_def)
  ultimately show ?thesis using valid_reference(1) [OF assms] unfolding model_ok_def by blast
qed

text \<open>A tuple that a relation of the model admits.\<close>

definition tuple_admitted :: "type_system \<Rightarrow> tuple_key \<Rightarrow> bool" where
  "tuple_admitted t tk \<longleftrightarrow> full_form (tk_user tk) \<and>
     (\<exists>rel ref. TypeSystem_GetRelation t (GetType (tk_object tk)) (tk_relation tk) = Inr rel \<and>
        ref \<in> set (rel_DirectlyRelatedUserTypes rel) \<and> ref_admits ref (tk_user tk))"

text \<open>A rewrite that derives something for the user has a source that the user reaches.\<close>

lemma derived_source:
  assumes "valid_model compile model" and "well_shaped model" and "full_form u"
    and T: "\<forall>tk \<in> T. tuple_admitted (newWithoutGraphs model) tk"
    and H: "\<And>ob r. H ob r \<Longrightarrow> r \<noteq> [] \<Longrightarrow> user_reaches E u (GetType ob @ ''#'' @ r)"
    and td: "model_type model (GetType ob) = Some td"
    and "derives (newWithoutGraphs model) T u N H ob r rw" and "no_empty_intersection rw"
    and "\<forall>n \<in> set (rewrite_nodes rw). node_valid (newWithoutGraphs model) (GetType ob) r n"
  shows "\<exists>s \<in> sources model td r rw. user_reaches E u s"
  using assms(7-)
proof (induction rw)
  case Userset_This
  then obtain tk where tk: "tk \<in> T" "tk_object tk = ob" "tk_relation tk = r" "grants_user H u (tk_user tk)" by auto
  then obtain rel ref where ref: "TypeSystem_GetRelation (newWithoutGraphs model) (GetType ob) r = Inr rel"
    "ref \<in> set (rel_DirectlyRelatedUserTypes rel)" "ref_admits ref (tk_user tk)" "full_form (tk_user tk)"
    using T unfolding tuple_admitted_def by blast
  have "reference_label ref \<noteq> [] \<and> user_reaches E u (reference_label ref)"
    using granted_reaches [OF assms(3) ref(4) tk(4) ref(3)] valid_reference [OF assms(1,2) ref(1,2)] H by blast
  with ref(2) relation_types(1) [OF td ref(1)] show ?case by auto
next
  case (Userset_ComputedUserset c)
  then obtain rel where "TypeSystem_GetRelation (newWithoutGraphs model) (GetType ob) c = Inr rel"
    by (auto simp: node_valid_def is_ok_iff)
  with valid_relation(2) [OF assms(1) this] Userset_ComputedUserset.prems(1) H model_type_Some [OF td] show ?case
    by simp
next
  case (Userset_TupleToUserset x)
  let ?c = "ttu_GetComputed x"
  from Userset_TupleToUserset.prems(1) obtain tk where tk: "tk \<in> T" "tk_object tk = ob" "tk_relation tk = ttu_GetTupleset x"
    and parent: "ttu_parent (newWithoutGraphs model) (fst (SplitObjectRelation (tk_user tk))) ?c"
      "H (fst (SplitObjectRelation (tk_user tk))) ?c" by auto
  then obtain ts ref where ts: "TypeSystem_GetRelation (newWithoutGraphs model) (GetType ob) (ttu_GetTupleset x) = Inr ts"
    and ref: "ref \<in> set (rel_DirectlyRelatedUserTypes ts)" "ref_admits ref (tk_user tk)" "full_form (tk_user tk)"
    using T unfolding tuple_admitted_def by metis
  note valid = valid_reference [OF assms(1,2) ts ref(1)]
  have type: "GetType (fst (SplitObjectRelation (tk_user tk))) = rr_type ref"
    using ref(3) ref_admits_type [OF ref(2) valid(3)] by (cases rule: full_form_cases) auto
  with parent(1) valid(5) obtain rel where
    rel: "TypeSystem_GetRelation (newWithoutGraphs model) (rr_type ref) ?c = Inr rel"
    by (auto simp: ttu_parent_def is_ok_iff TypeSystem_GetRelation_def split: sum.splits ts_error.splits option.splits)
  have "user_reaches E u (rr_type ref @ ''#'' @ ?c)"
    using H [OF parent(2) valid_relation(2) [OF assms(1) rel]] unfolding type .
  moreover have "rr_type ref @ ''#'' @ ?c \<in> sources model td r (Userset_TupleToUserset x)"
    using ref(1) relation_types(1) [OF td ts] GetRelation_exists [of model "rr_type ref" ?c] rel by (auto simp: is_ok_iff)
  ultimately show ?case by blast
next
  case (Userset_Union cs)
  then show ?case by fastforce
next
  case (Userset_Intersection cs)
  then obtain c where "c \<in> set cs" by (cases cs) auto
  with Userset_Intersection show ?case by fastforce
next
  case (Userset_Difference base sub)
  then show ?case by auto
qed simp

lemma supported_reaches:
  assumes "valid_model compile model" and "well_shaped model" and "full_form u"
    and "\<forall>tk \<in> T. tuple_admitted (newWithoutGraphs model) tk"
    and "supported (newWithoutGraphs model) T u N n ob r" and "r \<noteq> []"
  shows "user_reaches (edges_of (NewAuthorizationModelGraph mk model)) u (GetType ob @ ''#'' @ r)"
  using assms(5,6)
proof (induction n arbitrary: ob r)
  case (Suc n)
  let ?t = "newWithoutGraphs model" and ?E = "edges_of (NewAuthorizationModelGraph mk model)"
  from Suc.prems(1) consider (self) "IsSelfDefining (NewTupleKey ob r u)"
    | (rel) rel where "TypeSystem_GetRelation ?t (GetType ob) r = Inr rel"
        "derives ?t T u N (supported ?t T u N n) ob r (rel_rewrite rel)" by auto
  then show ?case
  proof cases
    case self
    with assms(3) Suc.prems(2) show ?thesis
      by (cases rule: full_form_cases) (auto simp: IsSelfDefining_def NewTupleKey_def user_reaches_def)
  next
    case rel
    obtain td where td: "model_type model (GetType ob) = Some td" "td \<in> set (am_typeDefinitions model)"
      "td_type td = GetType ob" "map_of (td_relations td) r = Some (rel_rewrite rel)"
      using new_relation [OF rel(1)] by blast
    have "no_empty_intersection (rel_rewrite rel)"
      using assms(2) td(2,4) unfolding well_shaped_def by (fastforce dest: map_of_SomeD)
    then obtain s where s: "s \<in> sources model td r (rel_rewrite rel)" "user_reaches ?E u s"
      using derived_source [OF assms(1-4) Suc.IH td(1) rel(2)] valid_relation(1) [OF assms(1) rel(1)]
      unfolding relation_valid_def by blast
    from user_reaches_trans [OF s(2) graph_edges [OF td(2,4) s(1)]] show ?thesis unfolding td(3) .
  qed
qed simp

lemma validated_graph:
  assumes "NewAndValidate compile (build_graph mk) model = Inr (t, g)"
  shows "t = newWithoutGraphs model" and "g = NewAuthorizationModelGraph mk model" and "valid_model compile model"
  using NewAndValidate_Inr [OF assms] validateModel_sound build_graph_new by auto

lemma stable_path:
  assumes "valid_model compile model" and "well_shaped model"
    and "finds_paths pathExistsIn" and "full_form u"
    and "\<forall>tk \<in> T. tuple_admitted (newWithoutGraphs model) tk" and "stable_reading (newWithoutGraphs model) T u H"
    and "TypeSystem_GetRelation (newWithoutGraphs model) (GetType ob) r = Inr rel"
    and "PathExists (graph_PathExists pathExistsIn) (NewAuthorizationModelGraph mk model) u r (GetType ob) = Inr False"
  shows "\<not> H ob r"
proof
  assume "H ob r"
  then obtain n where "supported (newWithoutGraphs model) T u H n ob r" using assms(6) unfolding stable_reading_def by blast
  then have "user_reaches (edges_of (NewAuthorizationModelGraph mk model)) u (GetType ob @ ''#'' @ r)"
    by (rule supported_reaches [OF assms(1,2,4,5) _ valid_relation(2) [OF assms(1,7)]])
  with no_path [OF assms(3) new_graph_closed assms(8)] show False by blast
qed

text \<open>A search in the transitive closure of the lines.\<close>

definition search_path :: "(string \<times> string) list \<Rightarrow> string \<Rightarrow> string \<Rightarrow> bool" where
  "search_path es a b \<longleftrightarrow> a = b \<or> (a, b) \<in> (set es)\<^sup>+"

lemma search_path_finds: "finds_paths search_path"
  by (auto simp: finds_paths_def search_path_def rtrancl_eq_or_trancl)

definition only_itself :: "string \<Rightarrow> string \<Rightarrow> string \<Rightarrow> bool" where
  "only_itself u ob r \<longleftrightarrow> ob = u \<and> r = []"

section \<open>Properties\<close>

text \<open>
  C3: on a validated model, a query for a path that answers no is right: whatever reading of the model
  is supported by its tuples, exclusions included, a user whose type has no path to a relation in the
  graph built from the model does not have it.
\<close>

theorem no_path_no_access:
  assumes "NewAndValidate compile (build_graph mk) model = Inr (t, g)" and "well_shaped model"
    and "finds_paths pathExistsIn" and "full_form u"
    and "\<forall>tk \<in> T. tuple_admitted t tk" and "stable_reading t T u H"
    and "TypeSystem_GetRelation t (GetType ob) r = Inr rel"
    and "PathExists (graph_PathExists pathExistsIn) g u r (GetType ob) = Inr False"
  shows "\<not> H ob r"
  using stable_path [OF validated_graph(3) [OF assms(1)] assms(2-4)] assms(5-8)
  unfolding validated_graph(1,2) [OF assms(1)] by blast

theorem no_path_no_access_witness:
  "\<not> only_itself ''d:9'' ''d:1'' ''w''"
proof -
  let ?t = "newWithoutGraphs sample_valid_model" and ?g = "NewAuthorizationModelGraph (\<lambda>n. ''00'') sample_valid_model"
    and ?T = "{NewTupleKey ''d:1'' ''w'' ''u:a''}"
  have valid: "NewAndValidate (\<lambda>_. Inr ()) (build_graph (\<lambda>n. ''00'')) sample_valid_model = Inr (?t, ?g)" by code_simp
  have shape: "well_shaped sample_valid_model" and user: "full_form ''d:9''" by code_simp+
  have path: "PathExists (graph_PathExists search_path) ?g ''d:9'' ''w'' (GetType ''d:1'') = Inr False" by code_simp
  have rel: "TypeSystem_GetRelation ?t (GetType ''d:1'') ''w'' =
      Inr \<lparr>rel_name = ''w'', rel_rewrite = Userset_This, rel_typeInfo = Some [DirectRelationReference ''u'' []]\<rparr>"
    by code_simp
  have "list_ex (\<lambda>ref. rr_type ref = ''u'' \<and> rr_relationOrWildcard ref = None) [DirectRelationReference ''u'' []]"
    "full_form ''u:a''" "IsValidObject ''u:a''" by code_simp+
  then have "tuple_admitted ?t (NewTupleKey ''d:1'' ''w'' ''u:a'')"
    using rel by (auto simp: tuple_admitted_def NewTupleKey_def ref_admits_def BuildObject_def Wildcard_def
        rel_DirectlyRelatedUserTypes_def DirectRelationReference_def)
  moreover have "stable_reading ?t ?T ''d:9'' (only_itself ''d:9'')"
  proof -
    have only: "TypeSystem_GetRelation ?t T R = Inr rel \<Longrightarrow>
        rel_rewrite rel = Userset_This \<or> rel_rewrite rel = Userset_Union [Userset_This, Userset_ComputedUserset ''w'']" for T R rel
      by (auto simp: GetRelation_new model_type_def sample_valid_model_def newRelation_def split: option.splits if_splits)
    have parts: "SplitObjectRelation ''d:9'' = (''d:9'', [])" "\<not> IsObjectRelation ''u:a''"
      "TypedPublicWildcard (GetType ''d:9'') = ''d:*''" by code_simp+
    have self: "IsSelfDefining (NewTupleKey ob r ''d:9'') \<longleftrightarrow> only_itself ''d:9'' ob r" for ob r
      by (auto simp: IsSelfDefining_def NewTupleKey_def parts only_itself_def)
    have "\<not> holds ?t ?T ''d:9'' (only_itself ''d:9'') ob r rw"
      if "rw = Userset_This \<or> rw = Userset_Union [Userset_This, Userset_ComputedUserset ''w'']" for ob r rw
      using that by (auto simp: grants_user_def NewTupleKey_def parts only_itself_def)
    with only have "is_model ?t ?T ''d:9'' (only_itself ''d:9'')"
      unfolding is_model_def holds_relation_def self by metis
    moreover have "only_itself ''d:9'' ob r \<Longrightarrow> supported ?t ?T ''d:9'' N (Suc 0) ob r" for ob r N
      by (simp add: self)
    ultimately show ?thesis unfolding stable_reading_def by blast
  qed
  ultimately show ?thesis
    using no_path_no_access [OF valid shape search_path_finds user _ _ rel path, of ?T] by blast
qed

end
