(* ===== verification/Check_Decides.thy ===== *)
theory Check_Decides
  imports Check_Termination Check_Paths
begin

text \<open>
  For a model without exclusions the answers are complete: what a user has is the least reading of the
  rewrites, and a check that returns no error allows exactly that. A derivation by levels is kept
  through the visited set: the checker does not come back to a key, but no derivation needs to.
\<close>

section \<open>The least model\<close>

text \<open>
  What can be derived in \<open>n\<close> steps; \<open>has\<close> is what can be derived.
\<close>

fun level :: "type_system \<Rightarrow> tuple_key set \<Rightarrow> string \<Rightarrow> nat \<Rightarrow> string \<Rightarrow> string \<Rightarrow> bool" where
  "level t T u 0 ob r = False"
| "level t T u (Suc n) ob r = holds_relation t T u (level t T u n) ob r"

definition has :: "type_system \<Rightarrow> tuple_key set \<Rightarrow> string \<Rightarrow> string \<Rightarrow> string \<Rightarrow> bool" where
  "has t T u ob r \<longleftrightarrow> (\<exists>n. level t T u n ob r)"

definition no_exclusions :: "type_system \<Rightarrow> bool" where
  "no_exclusions t \<longleftrightarrow>
     (\<forall>ot r rel. TypeSystem_GetRelation t ot r = Inr rel \<longrightarrow> no_difference (rel_rewrite rel))"

lemma grants_user_mono:
  "(\<And>ob r. H ob r \<Longrightarrow> H' ob r) \<Longrightarrow> grants_user H u w \<Longrightarrow> grants_user H' u w"
  by (auto simp: grants_user_def)

lemma holds_mono:
  assumes "\<And>ob r. H ob r \<Longrightarrow> H' ob r" and "no_difference rw" and "holds t T u H ob r rw"
  shows "holds t T u H' ob r rw"
  using assms(2,3)
proof (induction rw)
  case Userset_This
  then show ?case using grants_user_mono [of H H', OF assms(1)] by auto
qed (use assms(1) in auto)

lemma holds_relation_mono:
  assumes "\<And>ob r. H ob r \<Longrightarrow> H' ob r" and "no_exclusions t" and "holds_relation t T u H ob r"
  shows "holds_relation t T u H' ob r"
  using assms(3) holds_mono [of H H', OF assms(1)] assms(2)
  unfolding holds_relation_def no_exclusions_def by blast

lemma level_Suc:
  assumes "no_exclusions t"
  shows "level t T u n ob r \<Longrightarrow> level t T u (Suc n) ob r"
proof (induction n arbitrary: ob r)
  case (Suc n)
  then show ?case using holds_relation_mono [of "level t T u n" "level t T u (Suc n)", OF _ assms]
    by (metis level.simps(2))
qed simp

lemma level_mono:
  assumes "no_exclusions t" and "n \<le> m" and "level t T u n ob r"
  shows "level t T u m ob r"
  using assms(2,3) by (induction rule: dec_induct) (use level_Suc [OF assms(1)] in blast)+

text \<open>Only finitely many facts are used at a time, so every fact has a level.\<close>

lemma holds_has:
  assumes "no_exclusions t" and "no_difference rw" and "holds t T u (has t T u) ob r rw"
  shows "\<exists>n. holds t T u (level t T u n) ob r rw"
  using assms(2,3)
proof (induction rw)
  case Userset_This
  then show ?case by (fastforce simp: grants_user_def has_def)
next
  case (Userset_Intersection cs)
  then have "\<forall>c \<in> set cs. \<exists>n. holds t T u (level t T u n) ob r c" by simp
  then obtain f where f: "\<forall>c \<in> set cs. holds t T u (level t T u (f c)) ob r c" by metis
  have "holds t T u (level t T u (Max (f ` set cs))) ob r c" if "c \<in> set cs" for c
  proof (rule holds_mono)
    show "level t T u (f c) ob' r' \<Longrightarrow> level t T u (Max (f ` set cs)) ob' r'" for ob' r'
      by (rule level_mono [OF assms(1)]) (use that in simp_all)
    show "no_difference c" using Userset_Intersection.prems(1) that by simp
    show "holds t T u (level t T u (f c)) ob r c" using f that by blast
  qed
  then show ?case by auto
next
  case (Userset_Union cs)
  then show ?case by simp blast
qed (auto simp: has_def)

lemma has_is_model:
  assumes "no_exclusions t"
  shows "is_model t T u (has t T u)"
  unfolding is_model_def
proof (intro allI iffI)
  fix ob r assume "has t T u ob r"
  then obtain n where "level t T u n ob r" by (auto simp: has_def)
  then have "holds_relation t T u (level t T u n) ob r" using level_Suc [OF assms] by simp
  show "holds_relation t T u (has t T u) ob r"
    by (rule holds_relation_mono [OF _ assms \<open>holds_relation t T u (level t T u n) ob r\<close>]) (auto simp: has_def)
next
  fix ob r assume "holds_relation t T u (has t T u) ob r"
  then consider "IsSelfDefining (NewTupleKey ob r u)"
    | rel n where "TypeSystem_GetRelation t (GetType ob) r = Inr rel" "holds t T u (level t T u n) ob r (rel_rewrite rel)"
    using holds_has [OF assms] assms unfolding holds_relation_def no_exclusions_def by blast
  then show "has t T u ob r"
  proof cases
    case 1
    then have "level t T u (Suc 0) ob r" by (simp add: holds_relation_def)
    then show ?thesis unfolding has_def by blast
  next
    case 2
    then have "level t T u (Suc n) ob r" by (auto simp: holds_relation_def)
    then show ?thesis unfolding has_def by blast
  qed
qed

text \<open>It is the least one, with exclusions or without.\<close>

lemma has_least:
  assumes "no_exclusions t" and "is_model t T u H" and "has t T u ob r"
  shows "H ob r"
proof -
  have "level t T u n ob r \<Longrightarrow> H ob r" for n ob r
  proof (induction n arbitrary: ob r)
    case (Suc n)
    then have "holds_relation t T u H ob r"
      using holds_relation_mono [of "level t T u n" H, OF _ assms(1)] by simp
    with assms(2) show ?case by (simp add: is_model_def)
  qed simp
  with assms(3) show ?thesis by (auto simp: has_def)
qed

text \<open>Without exclusions it is also the only reading that is supported.\<close>

lemma supported_level: "no_exclusions t \<Longrightarrow> supported t T u N n ob r \<longleftrightarrow> level t T u n ob r"
proof (induction n arbitrary: ob r)
  case (Suc n)
  then have "supported t T u N n = level t T u n" by blast
  with Suc.prems show ?case
    using derives_positive unfolding no_exclusions_def by (simp add: holds_relation_def) metis
qed simp

lemma has_stable: "no_exclusions t \<Longrightarrow> stable_reading t T u (has t T u)"
  using has_is_model by (simp add: stable_reading_def supported_level has_def)

lemma stable_has: "no_exclusions t \<Longrightarrow> stable_reading t T u H \<Longrightarrow> H ob r \<longleftrightarrow> has t T u ob r"
  using has_least [of t T u H ob r] by (auto simp: stable_reading_def supported_level has_def)

section \<open>What is derivable is granted\<close>

lemma key_inj:
  assumes "IsValidObject ob" and "IsValidObject ob'"
    and "TupleKeyToString (NewTupleKey ob r u) = TupleKeyToString (NewTupleKey ob' r' u)"
  shows "ob' = ob \<and> r' = r"
proof -
  have "CHR ''#'' \<notin> set ob" "CHR ''#'' \<notin> set ob'" using assms(1,2) valid_object_no_hash by blast+
  with assms(3) show ?thesis
    by (auto simp: TupleKeyToString_def NewTupleKey_def append_eq_append_conv2 append_eq_Cons_conv
        Cons_eq_append_conv)
qed

lemma agrees_granted:
  assumes "agrees b out" and "granted b out"
  shows "(\<exists>e. out = Inl e) \<or> (\<exists>resp. out = Inr resp \<and> (rsp_Allowed resp \<longleftrightarrow> b))"
proof (cases out)
  case (Inr resp)
  from assms have "rsp_Allowed resp \<longleftrightarrow> b"
    unfolding agrees_def granted_def Inr allowing_simps sum.distinct by blast
  with Inr show ?thesis by blast
qed simp

lemma granted_false: "granted b out \<Longrightarrow> granted False out"
  by (simp add: granted_def)

definition clear_of :: "(string \<Rightarrow> string \<Rightarrow> bool) \<Rightarrow> string \<Rightarrow> string set \<Rightarrow> bool" where
  "clear_of H u V \<longleftrightarrow> (\<forall>ob r. IsValidObject ob \<longrightarrow> H ob r \<longrightarrow> TupleKeyToString (NewTupleKey ob r u) \<notin> V)"

context tuple_reader
begin

lemma resolve_granted:
  assumes "ev_reader env = rd" and "valid" and "checkable env contents" and noex: "no_exclusions (ev_typesys env)"
    and path: "\<And>ob r rel. TypeSystem_GetRelation (ev_typesys env) (GetType ob) r = Inr rel \<Longrightarrow>
      ev_PathExists env u r (GetType ob) = Inr False \<Longrightarrow> \<not> has (ev_typesys env) (usable env reqCtx contents) u ob r"
    and "request_ok store u reqCtx ik req"
    and "clear_of (level (ev_typesys env) (usable env reqCtx contents) u m) u (rq_VisitedPaths req)"
  shows "handles granted (level (ev_typesys env) (usable env reqCtx contents) u m
    (tk_object (rq_TupleKey req)) (tk_relation (rq_TupleKey req))) (ResolveCheck n env p req)"
  using assms(6,7)
proof (induction n arbitrary: m p req)
  case (Suc n)
  let ?k = "rq_TupleKey req" and ?L = "level (ev_typesys env) (usable env reqCtx contents) u"
  let ?ob = "tk_object ?k" and ?r = "tk_relation ?k" and ?b = "\<lambda>m. ?L m (tk_object ?k) (tk_relation ?k)"
  have req: "tk_user ?k = u" "IsValidObject ?ob" using Suc.prems(1) by (simp_all add: request_ok_def)
  have key: "TupleKeyToString ?k = TupleKeyToString (NewTupleKey ?ob ?r u)"
    using req(1) by (simp add: TupleKeyToString_def NewTupleKey_def)
  define l where "l = (if ?b m then (LEAST i. ?b i) - 1 else 0)"
  have low: "\<not> ?b l \<and> (?b m \<longrightarrow> ?b (Suc l) \<and> l \<le> m)"
  proof (cases "?b m")
    case True
    let ?i = "LEAST i. ?b i"
    have i: "?b ?i" "?i \<le> m" using True by (rule LeastI, rule Least_le)
    then obtain j where j: "?i = Suc j" by (cases ?i) auto
    then have "\<not> ?b j" using not_less_Least [of j ?b] by simp
    with i j True show ?thesis by (simp add: l_def)
  qed (simp add: l_def)
  have below: "?L l ob r \<Longrightarrow> ?L m ob r" for ob r
    using low level_mono [OF noex] by (cases "?b m") (auto simp: l_def)
  have calls: "resolves granted (?L l) store u reqCtx ik (insert (TupleKeyToString ?k) (rq_VisitedPaths req))
      (ResolveCheck n env)"
    unfolding resolves_def
  proof (intro allI impI)
    fix p and q :: check_request
    assume q: "request_ok store u reqCtx ik q" "rq_VisitedPaths q = insert (TupleKeyToString ?k) (rq_VisitedPaths req)"
    have "clear_of (?L l) u (rq_VisitedPaths q)"
      unfolding clear_of_def q(2) key
    proof (intro allI impI)
      fix ob r assume ob: "IsValidObject ob" "?L l ob r"
      with low have "ob \<noteq> ?ob \<or> r \<noteq> ?r" by blast
      with key_inj [OF req(2) ob(1), of ?r u r] have
        "TupleKeyToString (NewTupleKey ob r u) \<noteq> TupleKeyToString (NewTupleKey ?ob ?r u)" by metis
      with Suc.prems(2) below ob show "TupleKeyToString (NewTupleKey ob r u) \<notin>
          insert (TupleKeyToString (NewTupleKey ?ob ?r u)) (rq_VisitedPaths req)"
        unfolding clear_of_def by blast
    qed
    then show "handles granted (?L l (tk_object (rq_TupleKey q)) (tk_relation (rq_TupleKey q))) (ResolveCheck n env p q)"
      by (rule Suc.IH [OF q(1)])
  qed
  show ?case
    unfolding ResolveCheck.simps
  proof (rule resolve_step_R [OF granting.outcome_relation_axioms assms(1-3) Suc.prems(1), where H = "?L l"])
    assume "TupleKeyToString ?k \<in> rq_VisitedPaths req"
    with Suc.prems(2) req(2) have "\<not> ?b m" unfolding key clear_of_def by blast
    then show "granted (?b m) (Inr \<lparr>rsp_Allowed = False, rsp_CycleDetected = True\<rparr>)" by (simp add: granted_def)
  next
    show "granted (?b m) (Inr (allowed_response True))" by (simp add: granted_def allowed_response_def)
  next
    fix rel assume "TypeSystem_GetRelation (ev_typesys env) (GetType ?ob) ?r = Inr rel"
      and "ev_PathExists env u ?r (GetType ?ob) = Inr False"
    with path have "\<not> ?b m" unfolding has_def by blast
    with granting.answer_law [of False] show "granted (?b m) (Inr (allowed_response False))" by simp
  next
    fix rel out
    assume rel: "TypeSystem_GetRelation (ev_typesys env) (GetType ?ob) ?r = Inr rel" and "\<not> IsSelfDefining ?k"
      and out: "granted (holds (ev_typesys env) (usable env reqCtx contents) u (?L l) ?ob ?r (rel_rewrite rel)) out"
    show "granted (?b m) out"
    proof (cases "?b m")
      case True
      then have "holds_relation (ev_typesys env) (usable env reqCtx contents) u (?L l) ?ob ?r" using low by simp
      with \<open>\<not> IsSelfDefining ?k\<close> rel have "holds (ev_typesys env) (usable env reqCtx contents) u (?L l) ?ob ?r (rel_rewrite rel)"
        using IsSelfDefining_key [of ?k] unfolding holds_relation_def req(1) by simp
      with out True show ?thesis by simp
    qed (use granted_false [OF out] in simp)
  next
    show "no_difference (rel_rewrite rel) \<or> False"
      if "TypeSystem_GetRelation (ev_typesys env) (GetType ?ob) ?r = Inr rel" for rel
      using noex that unfolding no_exclusions_def by blast
  qed (use calls in simp_all)
qed simp

end

section \<open>Checks over the memory backend\<close>

text \<open>
  What a check starts from: a store of the memory backend as its operations leave it, contextual
  tuples that name no tuple twice nor one of the store, users that are objects or usersets, a model
  with names as the API and validation leave them, and a request that is not cancelled.
\<close>

definition known_tuples :: "('i, 'k) combined_reader \<Rightarrow> 'a memory_backend \<Rightarrow> string \<Rightarrow> tuple_key set" where
  "known_tuples c s store = set (cr_tuples c) \<union> set (stored s store)"

definition data_ok :: "('i, 'k) combined_reader \<Rightarrow> 'a memory_backend \<Rightarrow> string \<Rightarrow> bool" where
  "data_ok c s store \<longleftrightarrow> tuples_ok s store \<and> contextual_ok (cr_tuples c) (set (stored s store)) \<and>
     (\<forall>tk \<in> known_tuples c s store. full_form (tk_user tk))"

lemma new_env_simps [simp]:
  "ev_typesys (new_env cel cfg paths g t rd d \<sigma>) = t" "ev_reader (new_env cel cfg paths g t rd d \<sigma>) = rd"
  "ev_maxDepth (new_env cel cfg paths g t rd d \<sigma>) = d" "ev_schedule (new_env cel cfg paths g t rd d \<sigma>) = \<sigma>"
  "ev_PathExists (new_env cel cfg paths g t rd d \<sigma>) = PathExists paths g"
  by (simp_all add: new_env_def)

lemma read_admits:
  assumes "model_ok model" and "full_form (tk_user tk)"
    and "FilterInvalidTuples cast (newWithoutGraphs model) tk"
  shows "\<exists>rel ref. TypeSystem_GetRelation (newWithoutGraphs model) (GetType (tk_object tk)) (tk_relation tk) = Inr rel \<and>
    ref \<in> set (rel_DirectlyRelatedUserTypes rel) \<and> ref_admits ref (tk_user tk)"
proof -
  let ?t = "newWithoutGraphs model"
  have schema: "IsSchemaVersionSupported (ts_schemaVersion ?t)"
    using assms(1) by (simp add: model_ok_def newWithoutGraphs_def Let_def)
  have read: "ValidateTupleForRead cast ?t tk = Inr ()"
    using assms(3) by (simp add: FilterInvalidTuples_def is_ok_iff)
  then obtain rel where rel: "TypeSystem_GetRelation ?t (GetType (tk_object tk)) (tk_relation tk) = Inr rel"
    using schema by (auto simp: ValidateTupleForRead_def HasTypeInfo_def split: sum.splits)
  from new_types [OF this] obtain td where
    td: "GetTypeDefinition ?t (GetType (tk_object tk)) = Some td"
      "rel_DirectlyRelatedUserTypes rel = (case map_of (td_metadata td) (tk_relation tk) of None \<Rightarrow> [] | Some refs \<Rightarrow> refs)"
      "rel_typeInfo rel \<noteq> None" .
  with read rel schema have "tuple_validateTypeRestrictions ?t tk = Inr ()"
    by (auto simp: ValidateTupleForRead_def HasTypeInfo_def split: sum.splits)
  with type_restrictions_admit [OF assms(2) [unfolded full_form_def] td(1,2)] assms(1) rel show ?thesis
    unfolding model_ok_def by blast
qed

lemma new_env_checkable:
  assumes "model_ok model" and "live \<sigma>"
    and "\<forall>tk \<in> contents. full_form (tk_user tk)"
  shows "checkable (new_env cel cfg paths g (newWithoutGraphs model) rd d \<sigma>) contents"
proof -
  have "ev_validTuple (new_env cel cfg paths g (newWithoutGraphs model) rd d \<sigma>) tk \<Longrightarrow> \<exists>cast.
      FilterInvalidTuples cast (newWithoutGraphs model) tk" for tk
    by (auto simp: new_env_def)
  with read_admits [OF assms(1)] assms show ?thesis
    unfolding checkable_def tuples_admitted_def model_ok_def new_env_simps full_form_def by meson
qed

lemma usable_tuple_admitted:
  assumes "model_ok model" and "\<forall>tk \<in> contents. full_form (tk_user tk)"
    and "tk \<in> usable (new_env cel cfg paths g (newWithoutGraphs model) rd d \<sigma>) reqCtx contents"
  shows "tuple_admitted (newWithoutGraphs model) tk"
proof -
  from assms(3) have "tk \<in> contents" "\<exists>cast. FilterInvalidTuples cast (newWithoutGraphs model) tk"
    by (auto simp: usable_def new_env_def)
  with read_admits [OF assms(1)] assms(2) show ?thesis unfolding tuple_admitted_def by blast
qed

lemma new_request:
  assumes "NewResolveCheckRequest invariantKey params = Inr req"
  shows "rq_StoreID req = rp_StoreID params" and "rq_TupleKey req = rp_TupleKey params"
    and "rq_Context req = rp_Context params" and "rq_Depth req = 0" and "rq_VisitedPaths req = {}"
  using assms by (auto simp: NewResolveCheckRequest_def Let_def split: if_splits)

lemma memory_reader_laws:
  assumes "cr_reader c = memory_reader srt s"
  shows "tuple_reader (as_reader ordered c) (both_items (\<lambda>it. map AsTuple (mi_records it)))
    (tuples_ok s store \<and> contextual_ok (cr_tuples c) (set (stored s store))) store (known_tuples c s store)"
proof -
  have "c = \<lparr>cr_reader = memory_reader srt s, cr_tuples = cr_tuples c\<rparr>" using assms by simp
  with over_memory.combined.tuple_reader_axioms [of ordered srt s "cr_tuples c" store] show ?thesis
    unfolding known_tuples_def by metis
qed

declare drain.simps [code] filtered_Next_loop.simps [code] ConditionsFiltered_Next.simps [code]

text \<open>
  An example: viewers of a document are the members of the groups that it is shared with; what can be
  done are the viewers that are not banned. The datastore holds one tuple, the request adds another.
\<close>

definition sample_check_model :: "userset \<Rightarrow> authorization_model" where
  "sample_check_model can = \<lparr>am_id = ''01'', am_schemaVersion = ''1.1'',
     am_typeDefinitions =
       [\<lparr>td_type = ''u'', td_relations = [], td_metadata = []\<rparr>,
        \<lparr>td_type = ''g'', td_relations = [(''m'', Userset_This)],
         td_metadata = [(''m'', [DirectRelationReference ''u'' []])]\<rparr>,
        \<lparr>td_type = ''d'', td_relations = [(''v'', Userset_This), (''b'', Userset_This), (''c'', can)],
         td_metadata = [(''v'', [DirectRelationReference ''g'' ''m'']), (''b'', [DirectRelationReference ''u'' []])]\<rparr>],
     am_conditions = []\<rparr>"

definition sample_shared :: "unit memory_backend" where
  "sample_shared = snd (mem_Write (\<lambda>_. []) (\<lambda>n. n) 7 ''s'' [] [NewTupleKey ''d:1'' ''v'' ''g:x#m''] []
     (New [WithMaxTuplesPerWrite 10, WithMaxTypesPerAuthorizationModel 10]))"

definition sample_reader :: "(mem_iter, mem_iter) combined_reader" where
  "sample_reader = NewCombinedTupleReader (\<lambda>ts. ts) (memory_reader (\<lambda>rs. rs) sample_shared)
     [NewTupleKey ''g:x'' ''m'' ''u:a'']"

definition sample_params :: check_params where
  "sample_params = \<lparr>rp_StoreID = ''s'', rp_TupleKey = NewTupleKey ''d:1'' ''c'' ''u:a'', rp_ContextualTuples = [],
     rp_Context = None, rp_Consistency = UNSPECIFIED, rp_LastCacheInvalidationTime = 0,
     rp_AuthorizationModelID = ''01''\<rparr>"

definition sample_env :: "userset \<Rightarrow>
    ((pb_tuple static_iter + mem_iter) combined_iter, mem_iter starting_iter) check_env" where
  "sample_env can = new_env sample_cel \<lparr>cc_maxCost = 100, cc_checkFrequency = 100\<rparr>
     (graph_PathExists search_path) (NewAuthorizationModelGraph (\<lambda>_. ''00'') (sample_check_model can))
     (newWithoutGraphs (sample_check_model can)) (as_reader (\<lambda>_. False) sample_reader) 25 in_order"

lemma sample_known: "known_tuples sample_reader sample_shared ''s'' =
    {NewTupleKey ''g:x'' ''m'' ''u:a'', NewTupleKey ''d:1'' ''v'' ''g:x#m''}"
proof -
  have "cr_tuples sample_reader @ stored sample_shared ''s'' =
      [NewTupleKey ''g:x'' ''m'' ''u:a'', NewTupleKey ''d:1'' ''v'' ''g:x#m'']" by code_simp
  then show ?thesis unfolding known_tuples_def set_append [symmetric] by simp
qed

lemma sample_data_ok: "data_ok sample_reader sample_shared ''s''"
proof -
  have "tuples_ok sample_shared ''s''" by code_simp
  moreover have "contextual_ok (cr_tuples sample_reader) (set (stored sample_shared ''s''))" by code_simp
  moreover have "IsValidObject ''u:a''" "IsValidUserset ''g:x#m''" by code_simp+
  ultimately show ?thesis unfolding data_ok_def sample_known
    by (simp add: NewTupleKey_def full_form_def)
qed

lemma sample_relations:
  "TypeSystem_GetRelation (newWithoutGraphs (sample_check_model can)) T R = Inr rel \<longleftrightarrow>
    (T = ''g'' \<and> R = ''m'' \<and> rel = \<lparr>rel_name = ''m'', rel_rewrite = Userset_This,
       rel_typeInfo = Some [DirectRelationReference ''u'' []]\<rparr>) \<or>
    (T = ''d'' \<and> R = ''v'' \<and> rel = \<lparr>rel_name = ''v'', rel_rewrite = Userset_This,
       rel_typeInfo = Some [DirectRelationReference ''g'' ''m'']\<rparr>) \<or>
    (T = ''d'' \<and> R = ''b'' \<and> rel = \<lparr>rel_name = ''b'', rel_rewrite = Userset_This,
       rel_typeInfo = Some [DirectRelationReference ''u'' []]\<rparr>) \<or>
    (T = ''d'' \<and> R = ''c'' \<and> rel = \<lparr>rel_name = ''c'', rel_rewrite = can, rel_typeInfo = Some []\<rparr>)"
  by (auto simp: GetRelation_new model_type_def sample_check_model_def newRelation_def)

lemma sample_request: "\<exists>req. NewResolveCheckRequest (\<lambda>_ _ _ _. 0) sample_params = Inr req"
  by (simp add: NewResolveCheckRequest_def sample_params_def Let_def)

abbreviation sample_either :: userset where
  "sample_either \<equiv> Userset_Union [Userset_ComputedUserset ''v'', Userset_ComputedUserset ''b'']"

abbreviation sample_unbanned :: userset where
  "sample_unbanned \<equiv> Userset_Difference (Userset_ComputedUserset ''v'') (Userset_ComputedUserset ''b'')"

lemma sample_usable:
  assumes "can = sample_either \<or> can = sample_unbanned"
  shows "usable (sample_env can) None (known_tuples sample_reader sample_shared ''s'') =
    {NewTupleKey ''g:x'' ''m'' ''u:a'', NewTupleKey ''d:1'' ''v'' ''g:x#m''}"
proof -
  have "list_all (\<lambda>tk. ev_validTuple (sample_env can) tk \<and> ev_condition (sample_env can) None tk = Inr True)
      [NewTupleKey ''g:x'' ''m'' ''u:a'', NewTupleKey ''d:1'' ''v'' ''g:x#m'']"
    using assms by (elim disjE; hypsubst) code_simp+
  then show ?thesis unfolding usable_def sample_known by auto
qed

abbreviation sample_asked :: tuple_key where
  "sample_asked \<equiv> NewTupleKey ''d:1'' ''c'' ''u:a''"

lemma sample_setting:
  "data_ok sample_reader sample_shared (rp_StoreID sample_params)"
  "cr_reader sample_reader = memory_reader (\<lambda>rs. rs) sample_shared"
  "rp_TupleKey sample_params = sample_asked" "full_form (tk_user sample_asked)" "IsValidObject (tk_object sample_asked)"
proof -
  show "full_form (tk_user sample_asked)" "IsValidObject (tk_object sample_asked)" by code_simp+
  show "cr_reader sample_reader = memory_reader (\<lambda>rs. rs) sample_shared"
    by (simp add: sample_reader_def NewCombinedTupleReader_def)
qed (simp_all add: sample_params_def sample_data_ok)

abbreviation sample_validated :: "userset \<Rightarrow> bool" where
  "sample_validated can \<equiv> NewAndValidate (\<lambda>_. Inr ()) (build_graph (\<lambda>_. ''00'')) (sample_check_model can) =
     Inr (newWithoutGraphs (sample_check_model can), NewAuthorizationModelGraph (\<lambda>_. ''00'') (sample_check_model can))"

lemma sample_valid:
  "sample_validated sample_either" "sample_validated sample_unbanned"
  "well_shaped (sample_check_model sample_either)" "well_shaped (sample_check_model sample_unbanned)"
  by code_simp+

lemma sample_fuel: "check_fuel (newWithoutGraphs (sample_check_model sample_unbanned)) 25 \<le> 200"
    "check_fuel (newWithoutGraphs (sample_check_model sample_either)) 25 \<le> 200"
  by code_simp+

text \<open>What a check over the memory backend rests on, from what its model, data and request are.\<close>

lemma memory_setting:
  fixes cel :: "('e, 'a, 'p, 'x) cel"
  assumes validated: "NewAndValidate compile (build_graph mk) model = Inr (t, g)" and "well_shaped model"
    and "data_ok c s store" and "live \<sigma>" and "cr_reader c = memory_reader srt s"
    and env: "env = new_env cel cfg (graph_PathExists pathExistsIn) g t (as_reader ordered c) maxDepth \<sigma>"
    and "finds_paths pathExistsIn" and "full_form u"
  shows "tuples_ok s store \<and> contextual_ok (cr_tuples c) (set (stored s store))"
    and "checkable env (known_tuples c s store)"
    and "stable_reading t (usable env reqCtx (known_tuples c s store)) u H \<Longrightarrow>
      TypeSystem_GetRelation t (GetType ob) r = Inr rel \<Longrightarrow> ev_PathExists env u r (GetType ob) = Inr False \<Longrightarrow> \<not> H ob r"
    and "stable_reading t (usable env reqCtx (known_tuples c s store)) u H \<Longrightarrow> step_agrees env H store u reqCtx ik"
proof -
  note graph = validated_graph [OF validated]
  note model = valid_model_ok [OF graph(3) assms(2)]
  show valid: "tuples_ok s store \<and> contextual_ok (cr_tuples c) (set (stored s store))"
    using assms(3) by (simp add: data_ok_def)
  have users: "\<forall>tk \<in> known_tuples c s store. full_form (tk_user tk)"
    using assms(3) by (simp add: data_ok_def)
  show check: "checkable env (known_tuples c s store)"
    unfolding env graph(1) by (rule new_env_checkable [OF model assms(4) users])
  show path: "\<not> H ob r" if stable: "stable_reading t (usable env reqCtx (known_tuples c s store)) u H"
      and rel: "TypeSystem_GetRelation t (GetType ob) r = Inr rel"
      and path: "ev_PathExists env u r (GetType ob) = Inr False" for ob r rel H
  proof (rule stable_path [OF graph(3) assms(2,7,8) _ stable [unfolded graph(1)] rel [unfolded graph(1)]])
    show "\<forall>tk \<in> usable env reqCtx (known_tuples c s store). tuple_admitted (newWithoutGraphs model) tk"
      unfolding env graph(1) by (rule ballI) (rule usable_tuple_admitted [OF model users])
    show "PathExists (graph_PathExists pathExistsIn) (NewAuthorizationModelGraph mk model) u r (GetType ob) = Inr False"
      using path by (simp add: env graph(2))
  qed
  assume stable: "stable_reading t (usable env reqCtx (known_tuples c s store)) u H"
  show "step_agrees env H store u reqCtx ik"
  proof (rule tuple_reader.resolve_step_agrees [OF memory_reader_laws [OF assms(5), of ordered store] _ valid check])
    show "is_model (ev_typesys env) (usable env reqCtx (known_tuples c s store)) u H"
      using stable by (simp add: env stable_reading_def)
  qed (use path [OF stable] in \<open>simp_all add: env\<close>)
qed

lemma request_setting:
  assumes req: "NewResolveCheckRequest invariantKey params = Inr req"
    and k: "rp_TupleKey params = k" "full_form (tk_user k)" "IsValidObject (tk_object k)"
  shows "request_ok (rp_StoreID params) (tk_user k) (rp_Context params) (rq_invariantCacheKey req) req"
    and "rq_TupleKey req = k" and "rq_Depth req = 0"
  using new_request [OF req] k full_form_user by (simp_all add: request_ok_def)

text \<open>
  On a validated model and data as the datastore leaves them, a check of the local checker over
  the memory backend and the contextual tuples returns, whatever order its subproblems finish in; and
  a definite answer is the truth: an allowed request holds in every reading of the rewrites, unions,
  intersections and exclusions that the usable tuples support, a refused one that is not part of a
  cycle in none, and no allowed answer carries a cycle. The answers from the model graph are included.
\<close>

theorem check_sound:
  fixes cel :: "('e, 'a, 'p, 'x) cel"
  assumes "NewAndValidate compile (build_graph mk) model = Inr (t, g)" and "well_shaped model"
    and "data_ok c s (rp_StoreID params)" and "live \<sigma>" and "cr_reader c = memory_reader srt s"
    and env: "env = new_env cel cfg (graph_PathExists pathExistsIn) g t (as_reader ordered c) maxDepth \<sigma>"
    and "finds_paths pathExistsIn" and "NewResolveCheckRequest invariantKey params = Inr req"
    and "rp_TupleKey params = k" and "full_form (tk_user k)" and "IsValidObject (tk_object k)"
    and "check_fuel t maxDepth \<le> n"
    and stable: "stable_reading t (usable env (rp_Context params) (known_tuples c s (rp_StoreID params))) (tk_user k) H"
  shows "\<exists>out. ResolveCheck n env p req = Some (Returned out) \<and>
    (\<forall>resp. out = Inr resp \<longrightarrow>
      (rsp_Allowed resp \<longrightarrow> H (tk_object k) (tk_relation k) \<and> \<not> rsp_CycleDetected resp) \<and>
      (\<not> rsp_Allowed resp \<longrightarrow> \<not> rsp_CycleDetected resp \<longrightarrow> \<not> H (tk_object k) (tk_relation k)))"
proof -
  note R = memory_reader_laws [OF assms(5), of ordered "rp_StoreID params"]
  note m = memory_setting [OF assms(1-7,10)] and r = request_setting [OF assms(8-11)]
  have "handles agrees (H (tk_object k) (tk_relation k)) (ResolveCheck n env p req)"
    using chain_agrees [where F = "\<lambda>n. ResolveCheck n env" and D = "\<lambda>n. ResolveCheck n env",
        OF m(4) [OF stable] _ _ _ r(1), of n p] by (simp add: r(2))
  moreover have "ResolveCheck n env p req \<noteq> None"
    using tuple_reader.check_returns [OF R, of env req n p] assms(4,12) r(3) by (simp add: env)
  ultimately show ?thesis by (auto simp: handles_def agrees_def)
qed

definition sample_meaning :: "string \<Rightarrow> string \<Rightarrow> bool" where
  "sample_meaning ob r \<longleftrightarrow> (ob, r) \<in> {(''u:a'', []), (''g:x'', ''m''), (''d:1'', ''v''), (''d:1'', ''c'')}"

lemma sample_meaning_stable:
  "stable_reading (newWithoutGraphs (sample_check_model sample_unbanned))
     {NewTupleKey ''g:x'' ''m'' ''u:a'', NewTupleKey ''d:1'' ''v'' ''g:x#m''} ''u:a'' sample_meaning"
proof -
  let ?t = "newWithoutGraphs (sample_check_model sample_unbanned)"
    and ?T = "{NewTupleKey ''g:x'' ''m'' ''u:a'', NewTupleKey ''d:1'' ''v'' ''g:x#m''}"
  have parts: "SplitObjectRelation ''u:a'' = (''u:a'', [])" "SplitObjectRelation ''g:x#m'' = (''g:x'', ''m'')"
    "GetType ''g:x'' = ''g''" "GetType ''d:1'' = ''d''" "IsObjectRelation ''g:x#m''" "\<not> IsObjectRelation ''u:a''"
    "TypedPublicWildcard (GetType ''u:a'') = ''u:*''" by code_simp+
  note steps = IsSelfDefining_def NewTupleKey_def parts grants_user_def
  have "is_model ?t ?T ''u:a'' sample_meaning"
    unfolding is_model_def holds_relation_def sample_relations by (auto simp: sample_meaning_def steps)
  moreover have "supported ?t ?T ''u:a'' sample_meaning 3 ob r" if "sample_meaning ob r" for ob r
    using that unfolding numeral_3_eq_3 supported.simps sample_relations by (auto simp: sample_meaning_def steps)
  ultimately show ?thesis unfolding stable_reading_def by blast
qed

theorem check_sound_witness:
  "\<exists>req out. NewResolveCheckRequest (\<lambda>_ _ _ _. 0) sample_params = Inr req \<and>
    ResolveCheck 200 (sample_env sample_unbanned) [] req = Some (Returned out) \<and>
    (\<forall>resp. out = Inr resp \<longrightarrow> \<not> rsp_CycleDetected resp \<longrightarrow> rsp_Allowed resp)"
proof -
  obtain req where req: "NewResolveCheckRequest (\<lambda>_ _ _ _. 0) sample_params = Inr req" using sample_request by blast
  have stable: "stable_reading (newWithoutGraphs (sample_check_model sample_unbanned))
      (usable (sample_env sample_unbanned) (rp_Context sample_params)
        (known_tuples sample_reader sample_shared (rp_StoreID sample_params))) (tk_user sample_asked) sample_meaning"
    using sample_meaning_stable sample_usable [of sample_unbanned] by (simp add: sample_params_def NewTupleKey_def)
  have "sample_meaning (tk_object sample_asked) (tk_relation sample_asked)"
    by (simp add: sample_meaning_def NewTupleKey_def)
  with req check_sound [OF sample_valid(2,4) sample_setting(1) live_in_order sample_setting(2) sample_env_def
      search_path_finds req sample_setting(3-5) sample_fuel(1) stable, of "[]"]
  show ?thesis by blast
qed

text \<open>
  On a model without exclusions the check is complete as well: it returns an error, or it allows
  exactly what can be derived from the rewrites and the usable tuples, the checks that end in a cycle
  included.
\<close>

theorem check_decides:
  fixes cel :: "('e, 'a, 'p, 'x) cel"
  assumes "NewAndValidate compile (build_graph mk) model = Inr (t, g)" and "well_shaped model"
    and "data_ok c s (rp_StoreID params)" and "live \<sigma>" and "cr_reader c = memory_reader srt s"
    and env: "env = new_env cel cfg (graph_PathExists pathExistsIn) g t (as_reader ordered c) maxDepth \<sigma>"
    and "finds_paths pathExistsIn" and req: "NewResolveCheckRequest invariantKey params = Inr req"
    and "rp_TupleKey params = k" and "full_form (tk_user k)" and "IsValidObject (tk_object k)"
    and "check_fuel t maxDepth \<le> n"
    and T: "T = usable env (rp_Context params) (known_tuples c s (rp_StoreID params))" and noex: "no_exclusions t"
  shows "\<exists>out. ResolveCheck n env p req = Some (Returned out) \<and> ((\<exists>e. out = Inl e) \<or>
    (\<exists>resp. out = Inr resp \<and> (rsp_Allowed resp \<longleftrightarrow> has t T (tk_user k) (tk_object k) (tk_relation k))))"
proof -
  let ?u = "tk_user k"
  note R = memory_reader_laws [OF assms(5), of ordered "rp_StoreID params"]
  note m = memory_setting [OF assms(1-7,10)] and r = request_setting [OF assms(8-11)]
  note path = m(3) [of "rp_Context params", folded T, OF has_stable [OF noex]]
  obtain x where x: "ResolveCheck n env p req = Some x"
    using tuple_reader.check_returns [OF R, of env req n p] assms(4,12) r(3) by (auto simp: env)
  have "handles agrees (has t T ?u (tk_object k) (tk_relation k)) (ResolveCheck n env p req)"
    using chain_agrees [where F = "\<lambda>n. ResolveCheck n env" and D = "\<lambda>n. ResolveCheck n env",
        OF m(4) [of "rp_Context params", folded T, OF has_stable [OF noex]] _ _ _ r(1), of n p] by (simp add: r(2))
  then obtain out where out: "x = Returned out" "agrees (has t T ?u (tk_object k) (tk_relation k)) out"
    using x by (auto simp: handles_def)
  have "handles granted (level t T ?u m (tk_object k) (tk_relation k)) (ResolveCheck n env p req)" for m
  proof -
    have "clear_of (level (ev_typesys env) T ?u m) ?u (rq_VisitedPaths req)"
      using new_request(5) [OF req] by (simp add: clear_of_def)
    from tuple_reader.resolve_granted [OF R _ m(1,2) _ _ r(1), folded T, OF _ _ _ this, of n p] noex path
    show ?thesis unfolding r(2) env new_env_simps by simp
  qed
  then have "granted (level t T ?u m (tk_object k) (tk_relation k)) out" for m
    using x out(1) by (simp add: handles_def)
  then have "granted (has t T ?u (tk_object k) (tk_relation k)) out"
    unfolding has_def granted_def by blast
  with out(2) have "(\<exists>e. out = Inl e) \<or> (\<exists>resp. out = Inr resp \<and>
      (rsp_Allowed resp \<longleftrightarrow> has t T ?u (tk_object k) (tk_relation k)))"
    by (rule agrees_granted)
  with x out(1) show ?thesis by blast
qed

theorem check_decides_witness:
  "has (newWithoutGraphs (sample_check_model sample_either))
     {NewTupleKey ''g:x'' ''m'' ''u:a'', NewTupleKey ''d:1'' ''v'' ''g:x#m''} ''u:a'' ''d:1'' ''c''"
proof -
  obtain req where req: "NewResolveCheckRequest (\<lambda>_ _ _ _. 0) sample_params = Inr req" using sample_request by blast
  have "map_sum id (\<lambda>r. ResolveCheck 200 (sample_env sample_either) [] r =
      Some (Returned (Inr (allowed_response True)))) (NewResolveCheckRequest (\<lambda>_ _ _ _. 0) sample_params) = Inr True"
    by code_simp
  with req have allowed: "ResolveCheck 200 (sample_env sample_either) [] req =
      Some (Returned (Inr (allowed_response True)))" by simp
  have T: "{NewTupleKey ''g:x'' ''m'' ''u:a'', NewTupleKey ''d:1'' ''v'' ''g:x#m''} =
      usable (sample_env sample_either) (rp_Context sample_params)
        (known_tuples sample_reader sample_shared (rp_StoreID sample_params))"
    using sample_usable [of sample_either] by (simp add: sample_params_def)
  have "no_exclusions (newWithoutGraphs (sample_check_model sample_either))"
    by (auto simp: no_exclusions_def sample_relations)
  from check_decides [OF sample_valid(1,3) sample_setting(1) live_in_order sample_setting(2) sample_env_def
      search_path_finds req sample_setting(3-5) sample_fuel(2) T this, of "[]"] allowed
  show ?thesis by (simp add: allowed_response_def NewTupleKey_def)
qed

end
