(* ===== verification/Cache_Keys.thy ===== *)
theory Cache_Keys
  imports Memory_Store
begin

text \<open>
  The keys of the caches: the tagged encoding of \<open>pkg/storage/cache/keys\<close> (\<open>build.go\<close>, \<open>types.go\<close>,
  \<open>xtypes.go\<close>) and the keys built with it in \<open>pkg/storage/keys.go\<close> and \<open>pkg/storage/cache.go\<close>. The
  encoding is shown to be unambiguous, so that keys differ where what they stand for differs; the
  64-bit digest (xxhash, with a random seed) is a parameter, and its collisions are not excluded.
\<close>

section \<open>The builder\<close>

text \<open>A builder is its data, a string of bytes. The tags are numbered as the constants are.\<close>

type_synonym builder = string

definition tag :: "nat \<Rightarrow> char" where
  "tag n = char_of n"

definition tagNull :: char where "tagNull = tag 0"
definition tagByte :: char where "tagByte = tag 1"
definition tagBool :: char where "tagBool = tag 2"
definition tagUint64 :: char where "tagUint64 = tag 3"
definition tagString :: char where "tagString = tag 4"
definition tagBytes :: char where "tagBytes = tag 5"
definition tagArray :: char where "tagArray = tag 6"
definition tagMap :: char where "tagMap = tag 7"
definition tagPair :: char where "tagPair = tag 8"
definition tagKey :: char where "tagKey = tag 9"
definition tagValue :: char where "tagValue = tag 10"
definition tagUnset :: char where "tagUnset = tag 11"

text \<open>\<open>binary.AppendUvarint\<close> and \<open>binary.LittleEndian.AppendUint64\<close> of the standard library.\<close>

fun uvarint :: "nat \<Rightarrow> string" where
  "uvarint n = (if n < 128 then [char_of n] else char_of (n mod 128 + 128) # uvarint (n div 128))"

declare uvarint.simps [simp del]

definition little_endian :: "nat \<Rightarrow> string" where
  "little_endian n = map (\<lambda>j. char_of (int n div 256 ^ j)) [0..<8]"

definition EncodeBytes :: "string \<Rightarrow> builder \<Rightarrow> builder" where
  "EncodeBytes b kb = kb @ [tagBytes] @ uvarint (length b) @ b"

definition EncodeByte :: "char \<Rightarrow> builder \<Rightarrow> builder" where
  "EncodeByte b kb = kb @ [tagByte, b]"

definition EncodeNull :: "builder \<Rightarrow> builder" where
  "EncodeNull kb = kb @ [tagNull]"

definition EncodeUnset :: "builder \<Rightarrow> builder" where
  "EncodeUnset kb = kb @ [tagUnset]"

definition EncodeString :: "string \<Rightarrow> builder \<Rightarrow> builder" where
  "EncodeString s kb = kb @ [tagString] @ uvarint (length s) @ s"

definition EncodeBool :: "bool \<Rightarrow> builder \<Rightarrow> builder" where
  "EncodeBool b kb = kb @ [tagBool, if b then char_of (1::nat) else char_of (0::nat)]"

definition EncodeUint64 :: "nat \<Rightarrow> builder \<Rightarrow> builder" where
  "EncodeUint64 i kb = kb @ [tagUint64] @ little_endian i"

definition EncodeArrayHeader :: "nat \<Rightarrow> builder \<Rightarrow> builder" where
  "EncodeArrayHeader n kb = kb @ [tagArray] @ uvarint n"

definition EncodeMapHeader :: "nat \<Rightarrow> builder \<Rightarrow> builder" where
  "EncodeMapHeader n kb = kb @ [tagMap] @ uvarint n"

section \<open>Serializable values\<close>

subsection \<open>Protocol buffer values\<close>

text \<open>
  \<open>PbValue.WriteTo\<close>: a walk with an explicit stack. A frame is a value and, inside a struct, its key.
  The stack's top is the head of the list; the fields of a struct are pushed in reverse order of
  their keys.
\<close>

type_synonym frame = "string option \<times> pb_value"

definition encode_key :: "string option \<Rightarrow> builder \<Rightarrow> builder" where
  "encode_key key kb = (case key of None \<Rightarrow> kb | Some k \<Rightarrow> EncodeString k kb)"

definition sorted_fields :: "pb_struct \<Rightarrow> pb_struct" where
  "sorted_fields fs = sort_key fst fs"

fun weight :: "pb_value \<Rightarrow> nat" where
  "weight (StructValue fs) = Suc (sum_list (map (\<lambda>(_, v). weight v) fs))"
| "weight (ListValue vs) = Suc (sum_list (map weight vs))"
| "weight _ = 1"

lemma weight_pos: "weight v > 0" by (cases v) auto

lemma weight_sorted_fields:
  "sum_list (map (\<lambda>f. weight (snd f)) (sorted_fields fs)) = sum_list (map (\<lambda>f. weight (snd f)) fs)"
proof -
  have "mset (map (\<lambda>f. weight (snd f)) (sorted_fields fs)) = mset (map (\<lambda>f. weight (snd f)) fs)"
    by (simp add: sorted_fields_def)
  then show ?thesis by (metis sum_mset_sum_list)
qed

function walk_value :: "frame list \<Rightarrow> builder \<Rightarrow> builder" where
  "walk_value [] kb = kb"
| "walk_value ((key, BoolValue b) # stack) kb = walk_value stack (EncodeBool b (encode_key key kb))"
| "walk_value ((key, NullValue) # stack) kb = walk_value stack (EncodeNull (encode_key key kb))"
| "walk_value ((key, StringValue s) # stack) kb = walk_value stack (EncodeString s (encode_key key kb))"
| "walk_value ((key, NumberValue n) # stack) kb = walk_value stack (EncodeUint64 n (encode_key key kb))"
| "walk_value ((key, UnsetValue) # stack) kb = walk_value stack (EncodeUnset (encode_key key kb))"
| "walk_value ((key, ListValue vals) # stack) kb =
     walk_value (map (\<lambda>v. (None, v)) vals @ stack) (EncodeArrayHeader (length vals) (encode_key key kb))"
| "walk_value ((key, StructValue fs) # stack) kb =
     walk_value (map (\<lambda>(k, v). (Some k, v)) (sorted_fields fs) @ stack)
       (EncodeMapHeader (length fs) (encode_key key kb))"
  by pat_completeness auto
termination
  by (relation "measure (\<lambda>(stack, kb). sum_list (map (weight \<circ> snd) stack))")
    (auto simp: comp_def case_prod_unfold weight_sorted_fields)

definition PbValue_WriteTo :: "pb_value \<Rightarrow> builder \<Rightarrow> builder" where
  "PbValue_WriteTo v kb = walk_value [(None, v)] kb"

definition Tuple_WriteTo :: "tuple_key \<Rightarrow> builder \<Rightarrow> builder" where
  "Tuple_WriteTo t kb =
     (let kb = EncodeString (tk_user t) (EncodeString (tk_relation t) (EncodeString (tk_object t) kb)) in
      case tk_condition t of None \<Rightarrow> kb
      | Some condition \<Rightarrow>
          PbValue_WriteTo (StructValue (case cond_context condition of None \<Rightarrow> [] | Some fs \<Rightarrow> fs))
            (EncodeString (cond_name condition) kb))"

subsection \<open>The type \<open>Serializable\<close>\<close>

datatype serializable =
    S_Bytes string
  | S_Byte char
  | S_Bool bool
  | S_Null
  | S_Unset
  | S_Uint64 nat
  | S_String string
  | S_Array "serializable list"
  | S_Map "(serializable \<times> serializable) list"
  | S_Pair serializable serializable
  | S_PbValue pb_value
  | S_Tuple tuple_key

fun WriteTo :: "serializable \<Rightarrow> builder \<Rightarrow> builder" where
  "WriteTo (S_Bytes b) kb = EncodeBytes b kb"
| "WriteTo (S_Byte b) kb = EncodeByte b kb"
| "WriteTo (S_Bool b) kb = EncodeBool b kb"
| "WriteTo S_Null kb = EncodeNull kb"
| "WriteTo S_Unset kb = EncodeUnset kb"
| "WriteTo (S_Uint64 i) kb = EncodeUint64 i kb"
| "WriteTo (S_String s) kb = EncodeString s kb"
| "WriteTo (S_Array a) kb = fold WriteTo a (EncodeArrayHeader (length a) kb)"
| "WriteTo (S_Map m) kb = fold (\<lambda>(k, v) kb. WriteTo v (WriteTo k kb)) m (EncodeMapHeader (length m) kb)"
| "WriteTo (S_Pair k v) kb = WriteTo v (WriteTo k (kb @ [tagPair, tagKey]) @ [tagValue])"
| "WriteTo (S_PbValue v) kb = PbValue_WriteTo v kb"
| "WriteTo (S_Tuple t) kb = Tuple_WriteTo t kb"

section \<open>The encoding is unambiguous\<close>

text \<open>What a value of a protocol buffer is written as: a tree of the other values.\<close>

function value_tree :: "pb_value \<Rightarrow> serializable" where
  "value_tree (BoolValue b) = S_Bool b"
| "value_tree NullValue = S_Null"
| "value_tree (StringValue s) = S_String s"
| "value_tree (NumberValue n) = S_Uint64 n"
| "value_tree UnsetValue = S_Unset"
| "value_tree (ListValue vals) = S_Array (map value_tree vals)"
| "value_tree (StructValue fs) = S_Map (map (\<lambda>(k, v). (S_String k, value_tree v)) (sorted_fields fs))"
  by pat_completeness auto
termination
proof (relation "measure weight")
  fix fs z k v assume z: "z \<in> set (sorted_fields fs)" "(k, v) = z"
  then have "z \<in> set fs" by (simp add: sorted_fields_def)
  then have "weight v \<le> sum_list (map (\<lambda>(_, v). weight v) fs)"
    using z(2) by (intro member_le_sum_list) force+
  then show "(v, StructValue fs) \<in> measure weight" by simp
qed (auto simp: less_Suc_eq_le intro!: member_le_sum_list)

lemmas encode_defs = EncodeBytes_def EncodeByte_def EncodeNull_def EncodeUnset_def EncodeString_def EncodeBool_def
  EncodeUint64_def EncodeArrayHeader_def EncodeMapHeader_def

lemma encode_key_append: "encode_key key (kb @ x) = kb @ encode_key key x"
  by (simp add: encode_key_def EncodeString_def split: option.split)

text \<open>Everything that is written is appended; the walk is the recursion over the tree.\<close>

lemma WriteTo_walk:
  "fold (\<lambda>(key, v) kb. WriteTo (value_tree v) (encode_key key kb)) stack kb = walk_value stack kb"
proof (induction stack kb rule: walk_value.induct)
  case (8 key fs stack kb)
  have "fold (\<lambda>(k, v) kb. WriteTo v (WriteTo k kb)) (map (\<lambda>(k, v). (S_String k, value_tree v)) xs) kb' =
      fold (\<lambda>(key, v) kb. WriteTo (value_tree v) (encode_key key kb)) (map (\<lambda>(k, v). (Some k, v)) xs) kb'" for xs kb'
    by (induction xs arbitrary: kb') (auto simp: encode_key_def)
  with 8 show ?case by (simp add: sorted_fields_def)
next
  case (7 key vals stack kb)
  have "fold WriteTo (map value_tree xs) kb' =
      fold (\<lambda>(key, v) kb. WriteTo (value_tree v) (encode_key key kb)) (map (\<lambda>v. (None, v)) xs) kb'" for xs kb'
    by (induction xs arbitrary: kb') (auto simp: encode_key_def)
  with 7 show ?case by simp
qed simp_all

lemma PbValue_tree: "PbValue_WriteTo v kb = WriteTo (value_tree v) kb"
  using WriteTo_walk [of "[(None, v)]" kb] by (simp add: PbValue_WriteTo_def encode_key_def)

lemma walk_append: "walk_value stack (kb @ x) = kb @ walk_value stack x"
  by (induction stack x rule: walk_value.induct) (simp_all add: encode_key_append encode_defs)

lemma WriteTo_append: "WriteTo s kb = kb @ WriteTo s []"
proof -
  have "WriteTo s (kb @ x) = kb @ WriteTo s x" for x
  proof (induction s arbitrary: x)
    case (S_Array a)
    have "fold WriteTo xs (kb @ y) = kb @ fold WriteTo xs y" if "set xs \<subseteq> set a" for xs y
      using that S_Array by (induction xs arbitrary: y) auto
    from this [of a] show ?case by (simp add: EncodeArrayHeader_def)
  next
    case (S_Map m)
    have "fold (\<lambda>(k, v) kb. WriteTo v (WriteTo k kb)) xs (kb @ y) = kb @ fold (\<lambda>(k, v) kb. WriteTo v (WriteTo k kb)) xs y"
      if "set xs \<subseteq> set m" for xs y
      using that
    proof (induction xs arbitrary: y)
      case (Cons p xs)
      obtain k v where p: "p = (k, v)" by force
      have "WriteTo k (kb @ y) = kb @ WriteTo k y" "WriteTo v (kb @ WriteTo k y) = kb @ WriteTo v (WriteTo k y)"
        using S_Map [of p k] S_Map [of p v] Cons.prems by (auto simp: p)
      with Cons show ?case by (simp add: p)
    qed simp
    from this [of m] show ?case by (simp add: EncodeMapHeader_def)
  next
    case (S_PbValue v)
    then show ?case by (simp add: PbValue_WriteTo_def walk_append)
  next
    case (S_Tuple t)
    then show ?case
      by (simp add: Tuple_WriteTo_def PbValue_WriteTo_def Let_def EncodeString_def walk_append flip: append_assoc
          split: option.split)
  qed (auto simp: encode_defs)
  from this [of "[]"] show ?thesis by simp
qed

abbreviation enc :: "serializable \<Rightarrow> string" where
  "enc s \<equiv> WriteTo s []"

lemma fold_WriteTo: "fold WriteTo xs kb = kb @ concat (map enc xs)"
  by (induction xs arbitrary: kb) (simp_all, metis WriteTo_append append_assoc)

lemma fold_WriteTo_pairs:
  "fold (\<lambda>(k, v) kb. WriteTo v (WriteTo k kb)) m kb = kb @ concat (map (\<lambda>(k, v). enc k @ enc v) m)"
proof (induction m arbitrary: kb)
  case (Cons p m)
  obtain k v where p: "p = (k, v)" by force
  have "WriteTo v (WriteTo k kb) = kb @ enc k @ enc v" by (metis WriteTo_append append_assoc)
  with Cons show ?case by (simp add: p)
qed simp

lemma enc_array: "enc (S_Array a) = tagArray # uvarint (length a) @ concat (map enc a)"
  by (simp add: fold_WriteTo EncodeArrayHeader_def)

lemma enc_map: "enc (S_Map m) = tagMap # uvarint (length m) @ concat (map (\<lambda>(k, v). enc k @ enc v) m)"
  by (simp add: fold_WriteTo_pairs EncodeMapHeader_def)

lemma enc_pair: "enc (S_Pair k v) = tagPair # tagKey # enc k @ tagValue # enc v"
proof -
  have "enc (S_Pair k v) = WriteTo v (([tagPair, tagKey] @ enc k) @ [tagValue])"
    by (simp add: WriteTo_append [of k "[tagPair, tagKey]"])
  then show ?thesis by (subst (asm) WriteTo_append) simp
qed

lemma char_of_inj: "m < 256 \<Longrightarrow> n < 256 \<Longrightarrow> (char_of m :: char) = char_of n \<longleftrightarrow> m = (n :: nat)"
  by (metis mod_less of_char_of)

lemma uvarint_prefix: "uvarint m @ x = uvarint n @ y \<Longrightarrow> m = n \<and> x = y"
proof (induction m arbitrary: n rule: uvarint.induct)
  case (1 m)
  have low: "i < 128 \<Longrightarrow> i < 256" "i mod 128 + 128 < 256" for i :: nat
    using mod_less_divisor [of 128 i] by linarith+
  have apart: "char_of i \<noteq> (char_of (j mod 128 + 128) :: char)" if "i < 128" for i j :: nat
    using that char_of_inj [OF low(1) low(2), of i j] by auto
  consider (one) "m < 128" "n < 128" | (more) "\<not> m < 128" "\<not> n < 128" | (mixed) "m < 128 \<longleftrightarrow> \<not> n < 128" by blast
  then show ?case
  proof cases
    case one
    with 1(2) char_of_inj [OF low(1) low(1), of m n] show ?thesis
      by (subst (asm) (1 2) uvarint.simps) simp
  next
    case more
    with 1(2) have "char_of (m mod 128 + 128) = (char_of (n mod 128 + 128) :: char)"
      "uvarint (m div 128) @ x = uvarint (n div 128) @ y"
      by (subst (asm) (1 2) uvarint.simps, simp)+
    with 1(1) [OF more(1)] char_of_inj [OF low(2) low(2), of m n] have "m div 128 = n div 128" "m mod 128 = n mod 128" "x = y"
      by simp_all
    then show ?thesis by (metis div_mult_mod_eq)
  next
    case mixed
    with 1(2) show ?thesis
      using apart [of m n] apart [of n m] by (subst (asm) (1 2) uvarint.simps) (auto split: if_splits)
  qed
qed

text \<open>
  The encodings of values other than the raw \<open>Tuple\<close> are prefix-free: a sequence of them can be read
  back in one way only. Numbers of 64 bits are numbers of 64 bits.
\<close>

fun plain :: "serializable \<Rightarrow> bool" where
  "plain (S_Uint64 i) \<longleftrightarrow> i < 2 ^ 64"
| "plain (S_Array a) \<longleftrightarrow> (\<forall>s \<in> set a. plain s)"
| "plain (S_Map m) \<longleftrightarrow> (\<forall>(k, v) \<in> set m. plain k \<and> plain v)"
| "plain (S_Pair k v) \<longleftrightarrow> plain k \<and> plain v"
| "plain (S_PbValue v) = False"
| "plain (S_Tuple t) = False"
| "plain _ = True"

lemma tag_inj: "m < 256 \<Longrightarrow> n < 256 \<Longrightarrow> tag m = tag n \<longleftrightarrow> m = n"
  by (simp add: tag_def char_of_inj)

lemmas tag_defs = tagNull_def tagByte_def tagBool_def tagUint64_def tagString_def tagBytes_def tagArray_def
  tagMap_def tagPair_def tagKey_def tagValue_def tagUnset_def

lemma equal_digits:
  fixes m n b :: nat
  assumes "\<And>j. j < k \<Longrightarrow> m div b ^ j mod b = n div b ^ j mod b"
  shows "m mod b ^ k = n mod b ^ k"
  using assms
proof (induction k)
  case (Suc k)
  have step: "i mod b ^ Suc k = b ^ k * (i div b ^ k mod b) + i mod b ^ k" for i :: nat
    by (metis mod_mult2_eq mult.commute power_Suc)
  have "m mod b ^ k = n mod b ^ k" by (rule Suc.IH) (rule Suc.prems, simp)
  moreover have "m div b ^ k mod b = n div b ^ k mod b" by (rule Suc.prems) simp
  ultimately show ?case unfolding step by (simp only:)
qed simp

lemma little_endian_prefix:
  assumes "little_endian m @ x = little_endian n @ y" and "m < 2 ^ 64" and "n < 2 ^ 64"
  shows "m = n \<and> x = y"
proof -
  have len: "length (little_endian i) = 8" for i by (simp add: little_endian_def)
  from assms(1) have eq: "little_endian m = little_endian n" "x = y" by (simp_all add: append_eq_append_conv len)
  have "m mod 256 ^ 8 = n mod 256 ^ 8"
  proof (rule equal_digits)
    fix j :: nat assume j: "j < 8"
    have "little_endian m ! j = little_endian n ! j" using eq by simp
    with j have "(char_of (int m div 256 ^ j) :: char) = char_of (int n div 256 ^ j)" by (simp add: little_endian_def)
    then have "int m div 256 ^ j mod 256 = int n div 256 ^ j mod 256" by (metis of_char_of)
    then have "int (m div 256 ^ j mod 256) = int (n div 256 ^ j mod 256)" by (simp add: zdiv_int zmod_int)
    then show "m div 256 ^ j mod 256 = n div 256 ^ j mod 256" by simp
  qed
  moreover have "(256 :: nat) ^ 8 = 2 ^ 64" by simp
  ultimately have "m = n" using assms(2,3) by (simp only: mod_less)
  with eq show ?thesis by simp
qed

lemma concat_prefix:
  assumes "length as = length bs"
    and "\<And>a b x y. a \<in> set as \<Longrightarrow> b \<in> set bs \<Longrightarrow> f a @ x = f b @ y \<Longrightarrow> a = b \<and> x = y"
    and "concat (map f as) @ x = concat (map f bs) @ y"
  shows "as = bs \<and> x = y"
  using assms
proof (induction as bs arbitrary: x y rule: list_induct2)
  case (Cons a as b bs)
  have "f a @ (concat (map f as) @ x) = f b @ (concat (map f bs) @ y)" using Cons.prems(2) by (simp only: list.map concat.simps append_assoc)
  with Cons.prems(1) [of a b] have step: "a = b" "concat (map f as) @ x = concat (map f bs) @ y" by auto
  have "as = bs \<and> x = y"
    by (rule Cons.IH [OF _ step(2)]) (rule Cons.prems(1), auto)
  with step(1) show ?case by blast
qed simp

text \<open>What is written of a value determines the value.\<close>

lemma enc_leaf:
  "enc (S_Bytes b) = tagBytes # uvarint (length b) @ b" "enc (S_Byte c) = [tagByte, c]"
  "enc (S_Bool v) = [tagBool, if v then char_of (1::nat) else char_of (0::nat)]" "enc S_Null = [tagNull]"
  "enc S_Unset = [tagUnset]" "enc (S_Uint64 i) = tagUint64 # little_endian i"
  "enc (S_String s) = tagString # uvarint (length s) @ s"
  by (simp_all add: encode_defs)

lemmas enc_forms = enc_leaf enc_array enc_map enc_pair

lemma tags_differ [simp]: "tag m = tag n \<longleftrightarrow> m = n" if "m < 12" "n < 12"
  using that by (simp add: tag_inj)

lemma counted_prefix:
  assumes "uvarint (length as) @ concat (map f as) @ x = uvarint (length bs) @ concat (map f bs) @ y"
    and "\<And>a b x y. a \<in> set as \<Longrightarrow> b \<in> set bs \<Longrightarrow> f a @ x = f b @ y \<Longrightarrow> a = b \<and> x = y"
  shows "as = bs \<and> x = y"
  using uvarint_prefix [OF assms(1)] concat_prefix [of as bs f x y] assms(2) by blast

lemma enc_prefix: "plain a \<Longrightarrow> plain b \<Longrightarrow> enc a @ x = enc b @ y \<Longrightarrow> a = b \<and> x = y"
proof (induction a arbitrary: b x y)
  case (S_Bytes s)
  then show ?case
    by (cases b) (auto simp: enc_forms tag_defs simp del: WriteTo.simps dest: uvarint_prefix)
next
  case (S_String s)
  then show ?case
    by (cases b) (auto simp: enc_forms tag_defs simp del: WriteTo.simps dest: uvarint_prefix)
next
  case (S_Byte c)
  then show ?case by (cases b) (auto simp: enc_forms tag_defs simp del: WriteTo.simps)
next
  case (S_Bool v)
  then show ?case by (cases b) (auto simp: enc_forms tag_defs char_of_inj simp del: WriteTo.simps split: if_splits)
next
  case S_Null
  then show ?case by (cases b) (auto simp: enc_forms tag_defs simp del: WriteTo.simps)
next
  case S_Unset
  then show ?case by (cases b) (auto simp: enc_forms tag_defs simp del: WriteTo.simps)
next
  case (S_Uint64 i)
  then show ?case by (cases b) (auto simp: enc_forms tag_defs simp del: WriteTo.simps dest: little_endian_prefix)
next
  case (S_Array as)
  then obtain bs where b: "b = S_Array bs" "uvarint (length as) @ concat (map enc as) @ x = uvarint (length bs) @ concat (map enc bs) @ y"
    by (cases b) (auto simp: enc_forms tag_defs simp del: WriteTo.simps)
  have "as = bs \<and> x = y"
    using b(2) by (rule counted_prefix) (use S_Array b(1) in auto)
  with b(1) show ?case by simp
next
  case (S_Map m)
  then obtain m' where b: "b = S_Map m'" "uvarint (length m) @ concat (map (\<lambda>(k, v). enc k @ enc v) m) @ x =
      uvarint (length m') @ concat (map (\<lambda>(k, v). enc k @ enc v) m') @ y"
    by (cases b) (auto simp: enc_forms tag_defs simp del: WriteTo.simps)
  have "m = m' \<and> x = y"
    using b(2)
  proof (rule counted_prefix)
    fix p q x y assume p: "p \<in> set m" and q: "q \<in> set m'"
      and eq: "(case p of (k, v) \<Rightarrow> enc k @ enc v) @ x = (case q of (k, v) \<Rightarrow> enc k @ enc v) @ y"
    obtain k v k' v' where kv: "p = (k, v)" "q = (k', v')" by force
    have plain: "plain k" "plain v" "plain k'" "plain v'"
      using S_Map.prems(1,2) p q unfolding b(1) kv by auto
    have "k = k' \<and> enc v @ x = enc v' @ y"
      by (rule S_Map.IH) (use p kv plain eq in auto)
    moreover from this have "v = v' \<and> x = y"
      by (intro S_Map.IH) (use p kv plain in auto)
    ultimately show "p = q \<and> x = y" by (simp add: kv)
  qed
  with b(1) show ?case by simp
next
  case (S_Pair k v)
  obtain k' v' where b0: "b = S_Pair k' v'"
    using S_Pair.prems(2,3) by (cases b) (simp_all add: enc_forms tag_defs del: WriteTo.simps)
  have b: "b = S_Pair k' v'" "enc k @ (tagValue # enc v @ x) = enc k' @ (tagValue # enc v' @ y)"
    using S_Pair.prems(3) unfolding b0 enc_pair append.simps list.inject append_assoc by blast+
  have plain: "plain k" "plain v" "plain k'" "plain v'" using S_Pair.prems(1,2) by (simp_all add: b(1))
  from S_Pair.IH(1) [OF plain(1,3) b(2)] have "k = k'" "enc v @ x = enc v' @ y" by blast+
  with S_Pair.IH(2) [OF plain(2,4)] b(1) show ?case by blast
qed simp_all

section \<open>Keys\<close>

text \<open>
  A key is a snapshot of the builder's data. \<open>String\<close> prints it in hexadecimal; the code packs up to
  eight bytes at a time into words, stored in little-endian order, four entries of the table to a word.
\<close>

definition hex_digit :: "nat \<Rightarrow> char" where
  "hex_digit n = ''0123456789ABCDEF'' ! n"

text \<open>An entry of the table: the high digit in the low byte.\<close>

definition hexTable :: "int list" where
  "hexTable = map (\<lambda>i. of_char (hex_digit (i mod 16)) * 256 + of_char (hex_digit (i div 16))) [0..<256]"

definition put_little_endian :: "nat \<Rightarrow> int \<Rightarrow> string" where
  "put_little_endian bytes n = map (\<lambda>j. char_of (n div 256 ^ j)) [0..<bytes]"

definition hex_entry :: "char \<Rightarrow> int" where
  "hex_entry c = hexTable ! of_char c"

fun Key_String_loop :: "string \<Rightarrow> string" where
  "Key_String_loop (c0 # c1 # c2 # c3 # c4 # c5 # c6 # c7 # src) =
     put_little_endian 8 (hex_entry c0 + hex_entry c1 * 2 ^ 16 + hex_entry c2 * 2 ^ 32 + hex_entry c3 * 2 ^ 48) @
     put_little_endian 8 (hex_entry c4 + hex_entry c5 * 2 ^ 16 + hex_entry c6 * 2 ^ 32 + hex_entry c7 * 2 ^ 48) @
     Key_String_loop src"
| "Key_String_loop (c0 # c1 # c2 # c3 # src) =
     put_little_endian 8 (hex_entry c0 + hex_entry c1 * 2 ^ 16 + hex_entry c2 * 2 ^ 32 + hex_entry c3 * 2 ^ 48) @
     Key_String_loop src"
| "Key_String_loop [c0, c1, c2] =
     put_little_endian 4 (hex_entry c0 + hex_entry c1 * 2 ^ 16) @ put_little_endian 2 (hex_entry c2)"
| "Key_String_loop [c0, c1] = put_little_endian 4 (hex_entry c0 + hex_entry c1 * 2 ^ 16)"
| "Key_String_loop [c0] = put_little_endian 2 (hex_entry c0)"
| "Key_String_loop [] = []"

section \<open>Keys of check subproblems\<close>

definition CheckCacheKey :: "string \<Rightarrow> string \<Rightarrow> string \<Rightarrow> string \<Rightarrow> nat \<Rightarrow> string" where
  "CheckCacheKey storeID object relation user invariant =
     EncodeUint64 invariant (EncodeString user (EncodeString relation (EncodeString object
       (EncodeString storeID (EncodeString ''SP'' [])))))"

text \<open>
  What is hashed of the parts of a check that its subproblems share. \<open>srt\<close> is \<open>sort.Sort\<close> with the
  order \<open>TupleKeys.Less\<close>, which is no strict order: all that is relied on is that it permutes.
\<close>

definition invariant_bytes :: "(tuple_key list \<Rightarrow> tuple_key list) \<Rightarrow> string \<Rightarrow> string \<Rightarrow> pb_struct option \<Rightarrow>
    tuple_key list \<Rightarrow> string" where
  "invariant_bytes srt storeID modelID ctx contextualTuples =
     (let kb = EncodeString modelID (EncodeString storeID []);
          ts = map S_Tuple (srt contextualTuples);
          kb = WriteTo (S_Array ts) kb
      in WriteTo (S_PbValue (StructValue (case ctx of None \<Rightarrow> [] | Some fs \<Rightarrow> fs))) kb)"

definition InvariantCacheKey :: "(string \<Rightarrow> nat) \<Rightarrow> (tuple_key list \<Rightarrow> tuple_key list) \<Rightarrow> string \<Rightarrow> string \<Rightarrow>
    pb_struct option \<Rightarrow> tuple_key list \<Rightarrow> nat" where
  "InvariantCacheKey sum64 srt storeID modelID ctx contextualTuples =
     sum64 (invariant_bytes srt storeID modelID ctx contextualTuples)"

section \<open>Keys of the changelog and of invalidated iterators\<close>

definition ChangelogCacheKey :: "string \<Rightarrow> string" where
  "ChangelogCacheKey storeID = EncodeString storeID (EncodeString ''CC'' [])"

definition InvalidIteratorCacheKey :: "string \<Rightarrow> string" where
  "InvalidIteratorCacheKey storeID = EncodeString storeID (EncodeString ''IQ'' [])"

definition InvalidIteratorByObjectRelationCacheKey :: "string \<Rightarrow> string \<Rightarrow> string \<Rightarrow> string" where
  "InvalidIteratorByObjectRelationCacheKey storeID object relation =
     EncodeString relation (EncodeString object (EncodeString storeID (EncodeString ''OR'' (EncodeString ''IQ'' []))))"

definition InvalidIteratorByUserObjectTypeCacheKey :: "string \<Rightarrow> string \<Rightarrow> string \<Rightarrow> string" where
  "InvalidIteratorByUserObjectTypeCacheKey storeID user objectType =
     EncodeString objectType (EncodeString user (EncodeString storeID (EncodeString ''UOT'' (EncodeString ''IQ'' []))))"

section \<open>Keys of iterators\<close>

text \<open>
  The arrays that the code fills are as long as what it fills them with, so that all of it is copied.
\<close>

definition copyObjectRelations :: "object_relation list \<Rightarrow> serializable list" where
  "copyObjectRelations rels = map S_String (sort (map (\<lambda>rel.
     if or_relation rel \<noteq> [] then ToObjectRelationString (or_object rel) (or_relation rel) else or_object rel) rels))"

definition copyConditions :: "string list \<Rightarrow> serializable list" where
  "copyConditions conditions = map S_String (sort conditions)"

definition reference_part :: "relation_reference \<Rightarrow> string" where
  "reference_part ref = (case rr_relationOrWildcard ref of
     Some (RR_Relation r) \<Rightarrow> rr_type ref @ ''#'' @ r
   | Some (RR_Wildcard _) \<Rightarrow> rr_type ref @ '':*''
   | None \<Rightarrow> rr_type ref)"

definition copyRelationReferences :: "relation_reference list \<Rightarrow> serializable list" where
  "copyRelationReferences refs = map S_String (sort (map reference_part refs))"

definition starting_bytes :: "starting_filter \<Rightarrow> string" where
  "starting_bytes flt =
     WriteTo (S_Array (copyConditions (sf_Conditions flt)))
       (WriteTo (S_Array (case sf_ObjectIDs flt of None \<Rightarrow> [] | Some values \<Rightarrow> map S_String values))
         (WriteTo (S_Array (copyObjectRelations (sf_UserFilter flt))) []))"

definition ReadStartingWithUserKey :: "(string \<Rightarrow> nat) \<Rightarrow> string \<Rightarrow> starting_filter \<Rightarrow> string" where
  "ReadStartingWithUserKey sum64 store flt =
     EncodeUint64 (sum64 (starting_bytes flt)) (EncodeString (sf_Relation flt) (EncodeString (sf_ObjectType flt)
       (EncodeString store (EncodeString ''RSWU'' (EncodeString ''IC'' [])))))"

definition usersets_bytes :: "usersets_filter \<Rightarrow> string" where
  "usersets_bytes flt =
     WriteTo (S_Array (copyConditions (uf_Conditions flt)))
       (WriteTo (S_Array (copyRelationReferences (uf_AllowedUserTypeRestrictions flt))) [])"

definition ReadUsersetTuplesKey :: "(string \<Rightarrow> nat) \<Rightarrow> string \<Rightarrow> usersets_filter \<Rightarrow> string" where
  "ReadUsersetTuplesKey sum64 store flt =
     EncodeUint64 (sum64 (usersets_bytes flt)) (EncodeString (uf_Relation flt) (EncodeString (uf_Object flt)
       (EncodeString store (EncodeString ''RUT'' (EncodeString ''IC'' [])))))"

definition read_bytes :: "read_filter \<Rightarrow> string" where
  "read_bytes flt = WriteTo (S_Array (copyConditions (rf_Conditions flt))) []"

definition ReadKey :: "(string \<Rightarrow> nat) \<Rightarrow> string \<Rightarrow> read_filter \<Rightarrow> string" where
  "ReadKey sum64 store flt =
     EncodeUint64 (sum64 (read_bytes flt)) (EncodeString (rf_User flt) (EncodeString (rf_Relation flt)
       (EncodeString (rf_Object flt) (EncodeString store (EncodeString ''READ'' (EncodeString ''IC'' []))))))"

section \<open>Lifetimes\<close>

text \<open>
  Durations are \<open>int64\<close>s. \<open>random\<close> is \<open>rand.Int63n\<close>, or \<open>rand.Int63\<close> where the bound would overflow:
  a number from 0 to its argument.
\<close>

definition MaxInt64 :: int where
  "MaxInt64 = 2 ^ 63 - 1"

definition JitteredTTL :: "(int \<Rightarrow> int) \<Rightarrow> int \<Rightarrow> nat \<Rightarrow> int" where
  "JitteredTTL random baseTTL jitterPercentage =
     (if baseTTL \<le> 0 \<or> jitterPercentage = 0 then baseTTL
      else
       (let jitterPercentage = int (if jitterPercentage > 100 then 100 else jitterPercentage);
            quotient = baseTTL div 100; remainder = baseTTL mod 100;
            maxJitter = wrap64 (wrap64 (quotient * jitterPercentage) + wrap64 (remainder * jitterPercentage) div 100);
            jitter = random maxJitter
        in if jitter > wrap64 (MaxInt64 - baseTTL) then MaxInt64 else wrap64 (baseTTL + jitter)))"

text \<open>\<open>Set\<close> of the cache in front of theine, whose own \<open>SetWithTTL\<close> is \<open>client\<close>.\<close>

definition oneYear :: int where
  "oneYear = 365 * 24 * 3600 * 10 ^ 9"

definition LRUCache_Set :: "(string \<Rightarrow> 'v \<Rightarrow> int \<Rightarrow> 'c \<Rightarrow> 'c) \<Rightarrow> string \<Rightarrow> 'v \<Rightarrow> int \<Rightarrow> 'c \<Rightarrow> 'c" where
  "LRUCache_Set client key value ttl c =
     (let ttl = (if ttl \<ge> oneYear then oneYear else ttl) in
      if ttl < 0 then c else client key value ttl c)"

section \<open>What the keys tell apart\<close>

lemma enc_strings: "EncodeString s kb = kb @ enc (S_String s)" "EncodeUint64 i kb = kb @ enc (S_Uint64 i)"
  by (simp_all add: encode_defs)

lemma string_prefix: "enc (S_String s) @ x = enc (S_String s') @ y \<longleftrightarrow> s = s' \<and> x = y"
  using enc_prefix [of "S_String s" "S_String s'" x y] by auto

lemma string_word: "enc (S_String s) @ x \<noteq> enc (S_Uint64 i) @ y"
  by (simp add: encode_defs tag_defs)

lemma word_eq: "i < 2 ^ 64 \<Longrightarrow> j < 2 ^ 64 \<Longrightarrow> enc (S_Uint64 i) = enc (S_Uint64 j) \<longleftrightarrow> i = j"
  using enc_prefix [of "S_Uint64 i" "S_Uint64 j" "[]" "[]"] by auto

text \<open>A key is a sequence of strings and then possibly a number.\<close>

definition key_parts :: "string list \<Rightarrow> nat option \<Rightarrow> string" where
  "key_parts ss i = concat (map (\<lambda>s. enc (S_String s)) ss) @ (case i of None \<Rightarrow> [] | Some i \<Rightarrow> enc (S_Uint64 i))"

lemma key_parts_inj:
  assumes "\<forall>i. a = Some i \<longrightarrow> i < 2 ^ 64" and "\<forall>i. b = Some i \<longrightarrow> i < 2 ^ 64"
  shows "key_parts ss a = key_parts ts b \<longleftrightarrow> ss = ts \<and> a = b"
proof
  have stop: "(case i of None \<Rightarrow> [] | Some i \<Rightarrow> enc (S_Uint64 i)) \<noteq> enc (S_String s) @ x" for i s x
    by (simp add: encode_defs tag_defs split: option.split)
  have word: "enc (S_Uint64 i) \<noteq> []" for i by (simp add: encode_defs)
  show "key_parts ss a = key_parts ts b \<Longrightarrow> ss = ts \<and> a = b"
  proof (induction ss arbitrary: ts)
    case Nil
    then have "ts = []" using stop by (cases ts) (simp_all add: key_parts_def del: WriteTo.simps)
    with Nil assms word_eq show ?case
      by (auto simp: key_parts_def word word [symmetric] simp del: WriteTo.simps split: option.splits)
  next
    case (Cons s ss)
    then obtain t ts' where ts: "ts = t # ts'"
      using stop [symmetric] by (cases ts) (simp_all add: key_parts_def del: WriteTo.simps)
    with Cons.prems have "s = t" "key_parts ss a = key_parts ts' b"
      by (simp_all add: key_parts_def string_prefix del: WriteTo.simps)
    with Cons.IH ts show ?case by simp
  qed
qed simp

lemma key_parts_differ: "ss \<noteq> ts \<Longrightarrow> key_parts ss a \<noteq> key_parts ts b"
proof (induction ss arbitrary: ts)
  case Nil
  then show ?case by (cases ts) (simp_all add: key_parts_def encode_defs tag_defs split: option.split)
next
  case (Cons s ss)
  show ?case
  proof (cases ts)
    case Nil
    then show ?thesis by (simp add: key_parts_def encode_defs tag_defs split: option.split)
  next
    case (Cons t ts')
    with Cons.IH [of ts'] Cons.prems show ?thesis by (auto simp: key_parts_def string_prefix simp del: WriteTo.simps)
  qed
qed

lemma key_forms:
  "CheckCacheKey st ob r u i = key_parts [''SP'', st, ob, r, u] (Some i)"
  "ChangelogCacheKey st = key_parts [''CC'', st] None"
  "InvalidIteratorCacheKey st = key_parts [''IQ'', st] None"
  "InvalidIteratorByObjectRelationCacheKey st ob r = key_parts [''IQ'', ''OR'', st, ob, r] None"
  "InvalidIteratorByUserObjectTypeCacheKey st u ty = key_parts [''IQ'', ''UOT'', st, u, ty] None"
  "ReadStartingWithUserKey sum64 st sf = key_parts [''IC'', ''RSWU'', st, sf_ObjectType sf, sf_Relation sf] (Some (sum64 (starting_bytes sf)))"
  "ReadUsersetTuplesKey sum64 st uf = key_parts [''IC'', ''RUT'', st, uf_Object uf, uf_Relation uf] (Some (sum64 (usersets_bytes uf)))"
  "ReadKey sum64 st rf = key_parts [''IC'', ''READ'', st, rf_Object rf, rf_Relation rf, rf_User rf] (Some (sum64 (read_bytes rf)))"
  by (simp_all add: key_parts_def CheckCacheKey_def ChangelogCacheKey_def InvalidIteratorCacheKey_def
      InvalidIteratorByObjectRelationCacheKey_def InvalidIteratorByUserObjectTypeCacheKey_def ReadKey_def
      ReadStartingWithUserKey_def ReadUsersetTuplesKey_def enc_strings del: WriteTo.simps)

text \<open>The parts of a request that its invariant key is about; the order of fields in a context is none.\<close>

definition context_tree :: "pb_struct option \<Rightarrow> serializable" where
  "context_tree ctx = value_tree (StructValue (case ctx of None \<Rightarrow> [] | Some fs \<Rightarrow> fs))"

definition tuple_content :: "tuple_key \<Rightarrow> string \<times> string \<times> string \<times> (string \<times> serializable) option" where
  "tuple_content t = (tk_object t, tk_relation t, tk_user t,
     map_option (\<lambda>c. (cond_name c, context_tree (cond_context c))) (tk_condition t))"

fun numbers_64 :: "pb_value \<Rightarrow> bool" where
  "numbers_64 (NumberValue n) \<longleftrightarrow> n < 2 ^ 64"
| "numbers_64 (ListValue vs) \<longleftrightarrow> (\<forall>v \<in> set vs. numbers_64 v)"
| "numbers_64 (StructValue fs) \<longleftrightarrow> (\<forall>(_, v) \<in> set fs. numbers_64 v)"
| "numbers_64 _ \<longleftrightarrow> True"

definition context_64 :: "pb_struct option \<Rightarrow> bool" where
  "context_64 ctx \<longleftrightarrow> (\<forall>fs. ctx = Some fs \<longrightarrow> numbers_64 (StructValue fs))"

definition tuples_64 :: "tuple_key list \<Rightarrow> bool" where
  "tuples_64 ts \<longleftrightarrow> (\<forall>t \<in> set ts. \<forall>c. tk_condition t = Some c \<longrightarrow> context_64 (cond_context c))"

lemma plain_tree: "numbers_64 v \<Longrightarrow> plain (value_tree v)"
  by (induction v rule: value_tree.induct) (fastforce simp: sorted_fields_def)+

lemma plain_context: "context_64 ctx \<Longrightarrow> plain (context_tree ctx)"
  unfolding context_tree_def by (rule plain_tree) (auto simp: context_64_def split: option.split)

lemma context_enc:
  "PbValue_WriteTo (StructValue (case ctx of None \<Rightarrow> [] | Some fs \<Rightarrow> fs)) kb = kb @ enc (context_tree ctx)"
  unfolding PbValue_tree context_tree_def by (rule WriteTo_append)

lemma tuple_enc:
  "enc (S_Tuple t) = enc (S_String (tk_object t)) @ enc (S_String (tk_relation t)) @ enc (S_String (tk_user t)) @
     (case tk_condition t of None \<Rightarrow> []
      | Some c \<Rightarrow> enc (S_String (cond_name c)) @ enc (context_tree (cond_context c)))"
  unfolding WriteTo.simps(12) Tuple_WriteTo_def Let_def context_enc enc_strings
  by (simp split: option.split del: WriteTo.simps)

lemma context_map: "\<exists>m. context_tree ctx = S_Map m"
  by (simp add: context_tree_def)

lemma map_string: "enc (context_tree ctx) @ x \<noteq> enc (S_String s) @ y"
  using context_map [of ctx] by (auto simp: enc_forms tag_defs simp del: WriteTo.simps)

text \<open>Tuples need to look ahead: a condition is a string followed by a map, a tuple three strings.\<close>

lemma tuples_prefix:
  assumes "length ts = length ts'" and "tuples_64 ts" and "tuples_64 ts'" and "context_64 ctx" and "context_64 ctx'"
    and "concat (map (\<lambda>t. enc (S_Tuple t)) ts) @ enc (context_tree ctx) =
      concat (map (\<lambda>t. enc (S_Tuple t)) ts') @ enc (context_tree ctx')"
  shows "map tuple_content ts = map tuple_content ts' \<and> context_tree ctx = context_tree ctx'"
  using assms
proof (induction ts ts' rule: list_induct2)
  case Nil
  with enc_prefix [of "context_tree ctx" "context_tree ctx'" "[]" "[]"] plain_context show ?case by simp
next
  case (Cons t ts t' ts')
  let ?rest = "concat (map (\<lambda>t. enc (S_Tuple t)) ts) @ enc (context_tree ctx)"
    and ?rest' = "concat (map (\<lambda>t. enc (S_Tuple t)) ts') @ enc (context_tree ctx')"
  let ?cond = "\<lambda>t. case tk_condition t of None \<Rightarrow> []
      | Some c \<Rightarrow> enc (S_String (cond_name c)) @ enc (context_tree (cond_context c))"
  from Cons.prems(5) have parts: "tk_object t = tk_object t'" "tk_relation t = tk_relation t'" "tk_user t = tk_user t'"
    and conds: "?cond t @ ?rest = ?cond t' @ ?rest'"
    by (simp_all add: tuple_enc string_prefix del: WriteTo.simps)
  have ahead: "enc (S_String n) @ enc (context_tree c) @ y \<noteq>
      concat (map (\<lambda>t. enc (S_Tuple t)) us) @ enc (context_tree d)" for n c y us d
  proof (cases us)
    case Nil
    with not_sym [OF map_string [of d "[]" n "enc (context_tree c) @ y"]] show ?thesis by (simp del: WriteTo.simps)
  next
    case (Cons v vs)
    with map_string [of c y] show ?thesis by (auto simp: tuple_enc string_prefix simp del: WriteTo.simps)
  qed
  have wf: "tuples_64 ts" "tuples_64 ts'" using Cons.prems(1,2) by (simp_all add: tuples_64_def)
  consider (none) "tk_condition t = None" "tk_condition t' = None"
    | (some) c c' where "tk_condition t = Some c" "tk_condition t' = Some c'"
    | (mixed) c where "tk_condition t = Some c" "tk_condition t' = None" | (mixed') c where "tk_condition t' = Some c" "tk_condition t = None"
    by (cases "tk_condition t"; cases "tk_condition t'") auto
  then show ?case
  proof cases
    case none
    with conds Cons.IH [OF wf Cons.prems(3,4)] parts show ?thesis by (simp add: tuple_content_def del: WriteTo.simps)
  next
    case some
    have 64: "context_64 (cond_context c)" "context_64 (cond_context c')"
      using Cons.prems(1,2) some by (auto simp: tuples_64_def)
    from conds some have names: "cond_name c = cond_name c'"
      "enc (context_tree (cond_context c)) @ ?rest = enc (context_tree (cond_context c')) @ ?rest'"
      by (simp_all add: string_prefix del: WriteTo.simps)
    from enc_prefix [OF plain_context plain_context names(2)] 64 have
      "context_tree (cond_context c) = context_tree (cond_context c')" "?rest = ?rest'" by blast+
    with names(1) some parts Cons.IH [OF wf Cons.prems(3,4)] show ?thesis by (simp add: tuple_content_def del: WriteTo.simps)
  next
    case mixed
    with conds ahead [of "cond_name c" "cond_context c" ?rest] show ?thesis by (simp del: WriteTo.simps)
  next
    case mixed'
    with conds [symmetric] ahead [of "cond_name c" "cond_context c" ?rest'] show ?thesis by (simp del: WriteTo.simps)
  qed
qed

lemma invariant_bytes_enc:
  "invariant_bytes srt st m ctx ts = enc (S_String st) @ enc (S_String m) @ tagArray # uvarint (length (srt ts)) @
     concat (map (\<lambda>t. enc (S_Tuple t)) (srt ts)) @ enc (context_tree ctx)"
proof -
  have "invariant_bytes srt st m ctx ts =
      (enc (S_String st) @ enc (S_String m)) @ enc (S_Array (map S_Tuple (srt ts))) @ enc (context_tree ctx)"
    unfolding invariant_bytes_def Let_def enc_strings WriteTo.simps(11) context_enc WriteTo_append [of "S_Array _" "_ @ _"]
    by (simp del: WriteTo.simps)
  then show ?thesis by (simp add: enc_array comp_def del: WriteTo.simps)
qed

section \<open>Properties\<close>

text \<open>
  What is hashed for the invariant part of a check determines it: the store, the model, the
  contextual tuples with their conditions, up to their order, and the context, up to the order of
  fields; so two checks share cached answers only if they agree in these or their digests collide.
\<close>

theorem invariant_key_determines:
  assumes "\<And>ts. mset (srt ts) = mset ts" and "tuples_64 ts" and "tuples_64 ts'" and "context_64 ctx" and "context_64 ctx'"
    and "invariant_bytes srt st m ctx ts = invariant_bytes srt st' m' ctx' ts'"
  shows "st = st' \<and> m = m' \<and> mset (map tuple_content ts) = mset (map tuple_content ts') \<and>
    context_tree ctx = context_tree ctx'"
proof -
  from assms(6) have names: "st = st'" "m = m'"
    and counted: "uvarint (length (srt ts)) @ concat (map (\<lambda>t. enc (S_Tuple t)) (srt ts)) @ enc (context_tree ctx) =
      uvarint (length (srt ts')) @ concat (map (\<lambda>t. enc (S_Tuple t)) (srt ts')) @ enc (context_tree ctx')"
    by (simp_all add: invariant_bytes_enc string_prefix del: WriteTo.simps)
  have set: "set (srt us) = set us" for us using assms(1) by (metis set_mset_mset)
  have "map tuple_content (srt ts) = map tuple_content (srt ts') \<and> context_tree ctx = context_tree ctx'"
  proof (rule tuples_prefix)
    show "tuples_64 (srt ts)" "tuples_64 (srt ts')" using assms(2,3) by (simp_all add: tuples_64_def set)
  qed (use uvarint_prefix [OF counted] assms(4,5) in blast)+
  moreover have "mset (map tuple_content (srt us)) = mset (map tuple_content us)" for us by (simp add: assms(1))
  ultimately show ?thesis using names by metis
qed

theorem invariant_key_determines_witness:
  "mset (map tuple_content [NewTupleKey ''d:1'' ''v'' ''u:a'', NewTupleKey ''d:2'' ''v'' ''u:a'']) =
   mset (map tuple_content [NewTupleKey ''d:2'' ''v'' ''u:a'', NewTupleKey ''d:1'' ''v'' ''u:a''])"
proof -
  let ?a = "NewTupleKey ''d:1'' ''v'' ''u:a''" and ?b = "NewTupleKey ''d:2'' ''v'' ''u:a''"
  let ?srt = "sort_key tk_object"
  have 64: "tuples_64 [?a, ?b]" "tuples_64 [?b, ?a]" "context_64 (Some [(''x'', NumberValue 1), (''y'', NullValue)])"
    "context_64 (Some [(''y'', NullValue), (''x'', NumberValue 1)])"
    by (simp_all add: tuples_64_def context_64_def NewTupleKey_def)
  have "?srt [?a, ?b] = ?srt [?b, ?a]" by code_simp
  moreover have "context_tree (Some [(''x'', NumberValue 1), (''y'', NullValue)]) =
      context_tree (Some [(''y'', NullValue), (''x'', NumberValue 1)])" by code_simp
  ultimately have "invariant_bytes ?srt ''s'' ''m'' (Some [(''x'', NumberValue 1), (''y'', NullValue)]) [?a, ?b] =
      invariant_bytes ?srt ''s'' ''m'' (Some [(''y'', NullValue), (''x'', NumberValue 1)]) [?b, ?a]"
    unfolding invariant_bytes_enc by metis
  from invariant_key_determines [OF mset_sort 64 this] show ?thesis by blast
qed

text \<open>
  C13: The keys of the caches are unambiguous: a key of a subproblem is the key of exactly one store,
  object, relation, user and invariant; and no key of one kind is a key of another, whatever names
  the stores, objects, relations and users have.
\<close>

theorem cache_keys_unambiguous:
  assumes "i < 2 ^ 64" and "i' < 2 ^ 64"
  shows "(CheckCacheKey st ob r u i = CheckCacheKey st' ob' r' u' i' \<longleftrightarrow>
      st = st' \<and> ob = ob' \<and> r = r' \<and> u = u' \<and> i = i') \<and>
    (InvalidIteratorByObjectRelationCacheKey st ob r = InvalidIteratorByObjectRelationCacheKey st' ob' r' \<longleftrightarrow>
      st = st' \<and> ob = ob' \<and> r = r') \<and>
    distinct [CheckCacheKey st1 ob1 r1 u1 i, ChangelogCacheKey st2, InvalidIteratorCacheKey st3,
      InvalidIteratorByObjectRelationCacheKey st4 ob4 r4, InvalidIteratorByUserObjectTypeCacheKey st5 u5 ty5,
      ReadStartingWithUserKey sum64 st6 sf, ReadUsersetTuplesKey sum64 st7 uf, ReadKey sum64 st8 rf]"
proof (intro conjI)
  show "CheckCacheKey st ob r u i = CheckCacheKey st' ob' r' u' i' \<longleftrightarrow>
      st = st' \<and> ob = ob' \<and> r = r' \<and> u = u' \<and> i = i'"
    unfolding key_forms using assms(1,2) by (subst key_parts_inj) auto
  show "InvalidIteratorByObjectRelationCacheKey st ob r = InvalidIteratorByObjectRelationCacheKey st' ob' r' \<longleftrightarrow>
      st = st' \<and> ob = ob' \<and> r = r'"
    unfolding key_forms by (subst key_parts_inj) auto
  show "distinct [CheckCacheKey st1 ob1 r1 u1 i, ChangelogCacheKey st2, InvalidIteratorCacheKey st3,
      InvalidIteratorByObjectRelationCacheKey st4 ob4 r4, InvalidIteratorByUserObjectTypeCacheKey st5 u5 ty5,
      ReadStartingWithUserKey sum64 st6 sf, ReadUsersetTuplesKey sum64 st7 uf, ReadKey sum64 st8 rf]"
    unfolding key_forms by (simp add: key_parts_differ)
qed

theorem cache_keys_unambiguous_witness:
  "CheckCacheKey ''s'' ''d:1'' ''v'' ''u:a'' 7 \<noteq> CheckCacheKey ''s'' ''d:1'' '''' ''vu:a'' 7"
  using cache_keys_unambiguous [of 7 7 "''s''" "''d:1''" "''v''" "''u:a''" "''s''" "''d:1''" "[]" "''vu:a''"]
  by simp



text \<open>
  The walk with an explicit stack over a value of a protocol buffer writes what the recursive
  encoding of the value as a tree writes, nested structs and lists included.
\<close>

theorem walk_value_encodes:
  "PbValue_WriteTo v kb = WriteTo (value_tree v) kb"
  by (rule PbValue_tree)

lemma put_little_endian_Suc:
  assumes "0 \<le> a" and "a < 256"
  shows "put_little_endian (Suc k) (a + 256 * n) = char_of a # put_little_endian k n"
proof -
  have "(a + 256 * n) div 256 ^ Suc j = n div 256 ^ j" for j
    using assms by (simp add: zdiv_zmult2_eq)
  moreover have "(char_of (a + 256 * n) :: char) = char_of a" unfolding char_of_quasi_inj by (simp add: mod_mult_self2)
  ultimately show ?thesis by (simp add: put_little_endian_def upt_conv_Cons map_Suc_upt [symmetric] comp_def del: upt_Suc)
qed

definition hex_pair :: "char \<Rightarrow> string" where
  "hex_pair c = [hex_digit (of_char c div 16), hex_digit (of_char c mod 16)]"

lemma hex_entry_digits:
  "hex_entry c = of_char (hex_digit (of_char c div 16)) + 256 * of_char (hex_digit (of_char c mod 16))"
proof -
  have "(of_char c :: nat) < 256" by simp
  then show ?thesis by (simp add: hex_entry_def hexTable_def)
qed

text \<open>
  The unrolled loop that prints a key packs its digits in the right order: each byte is two
  hexadecimal digits, the high one first, so that different keys print differently.
\<close>

theorem key_string_hex:
  "Key_String_loop s = concat (map hex_pair s)"
proof -
  have char: "0 \<le> (of_char c :: int)" "(of_char c :: int) < 256" "char_of (of_char c :: int) = c" for c :: char
    using of_char_mod_256 [of c, where 'a = int] pos_mod_bound [of 256 "of_char c :: int"] pos_mod_sign [of 256 "of_char c :: int"]
    by simp_all
  have byte: "put_little_endian (Suc (Suc k)) (hex_entry c + 65536 * n) = hex_pair c @ put_little_endian k n" for c k n
  proof -
    have "hex_entry c + 65536 * n = of_char (hex_digit (of_char c div 16)) +
        256 * (of_char (hex_digit (of_char c mod 16)) + 256 * n)" by (simp add: hex_entry_digits)
    then show ?thesis by (simp only: put_little_endian_Suc char hex_pair_def append.simps)
  qed
  have none: "put_little_endian 0 n = []" for n by (simp add: put_little_endian_def)
  have 2: "put_little_endian 2 (hex_entry a) = hex_pair a" for a
    using byte [of 0 a 0] by (simp add: none numeral_2_eq_2)
  have 4: "put_little_endian 4 (hex_entry a + hex_entry b * 2 ^ 16) = hex_pair a @ hex_pair b" for a b
    using byte [of 2 a "hex_entry b"] by (simp add: 2 mult.commute)
  have 8: "put_little_endian 8 (hex_entry a + hex_entry b * 2 ^ 16 + hex_entry c * 2 ^ 32 + hex_entry d * 2 ^ 48) =
      hex_pair a @ hex_pair b @ hex_pair c @ hex_pair d" for a b c d
  proof -
    have eq: "hex_entry a + hex_entry b * 2 ^ 16 + hex_entry c * 2 ^ 32 + hex_entry d * 2 ^ 48 =
        hex_entry a + 65536 * (hex_entry b + 65536 * (hex_entry c + hex_entry d * 2 ^ 16))" by simp
    have wide: "put_little_endian 8 (hex_entry a + 65536 * n) = hex_pair a @ put_little_endian 6 n"
      "put_little_endian 6 (hex_entry b + 65536 * n) = hex_pair b @ put_little_endian 4 n" for n
      using byte [of 6 a n] byte [of 4 b n] by simp_all
    show ?thesis unfolding eq wide 4 ..
  qed
  show ?thesis by (induction s rule: Key_String_loop.induct) (simp_all add: 2 4 [simplified] 8 [simplified])
qed

lemma conditions_key: "enc (S_Array (copyConditions cs)) @ x = enc (S_Array (copyConditions cs')) @ y \<longleftrightarrow>
    mset cs = mset cs' \<and> x = y"
proof -
  have "sort cs = sort cs' \<longleftrightarrow> mset cs = mset cs'" by (metis mset_sort properties_for_sort sorted_sort)
  moreover have "inj_on S_String A" for A by (simp add: inj_on_def)
  ultimately show ?thesis
    using enc_prefix [of "S_Array (copyConditions cs)" "S_Array (copyConditions cs')" x y]
    by (auto simp: copyConditions_def inj_map_eq_map inj_def simp del: WriteTo.simps)
qed

text \<open>
  When the digest does not collide, iterators share a cache key exactly if they read the same: the
  same store, object and relation, and the same user, conditions and type restrictions, in any order.
\<close>

theorem iterator_keys_iff:
  assumes "\<And>b. sum64 b < 2 ^ 64"
    and "sum64 (read_bytes f) = sum64 (read_bytes f') \<Longrightarrow> read_bytes f = read_bytes f'"
    and "sum64 (usersets_bytes q) = sum64 (usersets_bytes q') \<Longrightarrow> usersets_bytes q = usersets_bytes q'"
  shows "(ReadKey sum64 st f = ReadKey sum64 st' f' \<longleftrightarrow> st = st' \<and> rf_Object f = rf_Object f' \<and>
      rf_Relation f = rf_Relation f' \<and> rf_User f = rf_User f' \<and> mset (rf_Conditions f) = mset (rf_Conditions f')) \<and>
    (ReadUsersetTuplesKey sum64 st q = ReadUsersetTuplesKey sum64 st' q' \<longleftrightarrow> st = st' \<and>
      uf_Object q = uf_Object q' \<and> uf_Relation q = uf_Relation q' \<and> mset (uf_Conditions q) = mset (uf_Conditions q') \<and>
      mset (map reference_part (uf_AllowedUserTypeRestrictions q)) = mset (map reference_part (uf_AllowedUserTypeRestrictions q')))"
proof (intro conjI)
  have digest: "sum64 (read_bytes f) = sum64 (read_bytes f') \<longleftrightarrow> mset (rf_Conditions f) = mset (rf_Conditions f')"
    using assms(2) conditions_key [of "rf_Conditions f" "[]" "rf_Conditions f'" "[]"]
    by (metis read_bytes_def append_Nil2)
  show "ReadKey sum64 st f = ReadKey sum64 st' f' \<longleftrightarrow> st = st' \<and> rf_Object f = rf_Object f' \<and>
      rf_Relation f = rf_Relation f' \<and> rf_User f = rf_User f' \<and> mset (rf_Conditions f) = mset (rf_Conditions f')"
    unfolding key_forms using assms(1) by (subst key_parts_inj) (auto simp: digest)
  have bytes: "usersets_bytes p = enc (S_Array (copyConditions (map reference_part (uf_AllowedUserTypeRestrictions p)))) @
      enc (S_Array (copyConditions (uf_Conditions p))) @ []" for p
    unfolding usersets_bytes_def WriteTo_append [of "S_Array (copyConditions _)" "WriteTo _ _"]
    by (simp add: copyRelationReferences_def copyConditions_def del: WriteTo.simps)
  have digest': "sum64 (usersets_bytes q) = sum64 (usersets_bytes q') \<longleftrightarrow>
      mset (map reference_part (uf_AllowedUserTypeRestrictions q)) = mset (map reference_part (uf_AllowedUserTypeRestrictions q')) \<and>
      mset (uf_Conditions q) = mset (uf_Conditions q')"
  proof -
    have "usersets_bytes q = usersets_bytes q' \<longleftrightarrow>
        mset (map reference_part (uf_AllowedUserTypeRestrictions q)) = mset (map reference_part (uf_AllowedUserTypeRestrictions q')) \<and>
        mset (uf_Conditions q) = mset (uf_Conditions q')"
      unfolding bytes conditions_key by (simp only: simp_thms)
    with assms(3) show ?thesis by auto
  qed
  show "ReadUsersetTuplesKey sum64 st q = ReadUsersetTuplesKey sum64 st' q' \<longleftrightarrow> st = st' \<and>
      uf_Object q = uf_Object q' \<and> uf_Relation q = uf_Relation q' \<and> mset (uf_Conditions q) = mset (uf_Conditions q') \<and>
      mset (map reference_part (uf_AllowedUserTypeRestrictions q)) = mset (map reference_part (uf_AllowedUserTypeRestrictions q'))"
    unfolding key_forms using assms(1) by (subst key_parts_inj) (auto simp: digest')
qed

theorem iterator_keys_iff_witness:
  "ReadKey (\<lambda>b. length b mod 256) ''s'' \<lparr>rf_Object = ''d:1'', rf_Relation = ''v'', rf_User = [], rf_Conditions = [''x'', []]\<rparr> =
     ReadKey (\<lambda>b. length b mod 256) ''s'' \<lparr>rf_Object = ''d:1'', rf_Relation = ''v'', rf_User = [], rf_Conditions = [[], ''x'']\<rparr>"
proof -
  let ?f = "\<lparr>rf_Object = ''d:1'', rf_Relation = ''v'', rf_User = [], rf_Conditions = [''x'', []]\<rparr>"
    and ?f' = "\<lparr>rf_Object = ''d:1'', rf_Relation = ''v'', rf_User = [], rf_Conditions = [[], ''x'']\<rparr>"
    and ?q = "\<lparr>uf_Object = ''d:1'', uf_Relation = ''v'', uf_AllowedUserTypeRestrictions = [], uf_Conditions = []\<rparr>"
  have same: "mset (rf_Conditions ?f) = mset (rf_Conditions ?f')" by simp
  have "copyConditions (rf_Conditions ?f) = copyConditions (rf_Conditions ?f')" by code_simp
  then have "read_bytes ?f = read_bytes ?f'" by (simp only: read_bytes_def)
  moreover have "length b mod 256 < 2 ^ 64" for b :: string
    by (rule less_le_trans [OF mod_less_divisor]) simp_all
  ultimately show ?thesis
    using iterator_keys_iff [of "\<lambda>b. length b mod 256" ?f ?f' ?q ?q "''s''" "''s''"] same
    by (simp only: read_filter.simps refl simp_thms)
qed

text \<open>A nil set of object identifiers and an empty one have the same key; the memory backend tells them apart.\<close>

lemma starting_key_collision:
  "ReadStartingWithUserKey sum64 st (flt\<lparr>sf_ObjectIDs := None\<rparr>) =
   ReadStartingWithUserKey sum64 st (flt\<lparr>sf_ObjectIDs := Some []\<rparr>)"
  by (simp add: ReadStartingWithUserKey_def starting_bytes_def)

end
