(* ===== verification/Cached_Resolver.thy ===== *)
theory Cached_Resolver
  imports Check_Decides Cache_Keys
begin

text \<open>
  The cache of check subproblems (\<open>internal/graph/cached_resolver.go\<close>) in front of the local checker,
  in the ring of resolvers that \<open>builder.go\<close> makes: a dispatched check asks the cache first. What a
  lookup finds is up to what other checks have put there in the meantime, so a lookup is an oracle,
  and the entries it may return are those that calls of the resolver can have set.
\<close>

section \<open>The resolver\<close>

record cache_entry =
  ce_LastModified :: nat
  ce_CheckResponse :: check_response

text \<open>
  \<open>look p key\<close> is what the cache answers to the call at the address \<open>p\<close>, \<open>now p\<close> the time at which it
  stores its own result. The result of the call comes with the entry that it sets, if it does; the
  lifetime of an entry is the cache's to enforce.
\<close>

type_synonym cache_look = "nat list \<Rightarrow> string \<Rightarrow> cache_entry option"

definition cached_ResolveCheck :: "cache_look \<Rightarrow> (nat list \<Rightarrow> nat) \<Rightarrow> resolver \<Rightarrow> nat list \<Rightarrow> check_request \<Rightarrow>
    handled \<times> (string \<times> cache_entry) option" where
  "cached_ResolveCheck look now delegate p req =
     (let tk = rq_TupleKey req;
          cacheKey = CheckCacheKey (rq_StoreID req) (tk_object tk) (tk_relation tk) (tk_user tk)
            (rq_invariantCacheKey req);
          tryCache = (rq_Consistency req \<noteq> HIGHER_CONSISTENCY);
          cached = (if tryCache then look p cacheKey else None);
          valid = (\<lambda>res. ce_LastModified res > rq_LastCacheInvalidationTime req)
      in case Option.bind cached (\<lambda>res. if valid res then Some res else None) of
           Some res \<Rightarrow> (Some (Returned (Inr (response_clone (ce_CheckResponse res)))), None)
         | None \<Rightarrow>
            (case delegate p req of
               Some (Returned (Inr resp)) \<Rightarrow>
                 if rsp_CycleDetected resp then (Some (Returned (Inr resp)), None)
                 else (Some (Returned (Inr resp)),
                   Some (cacheKey, \<lparr>ce_LastModified = now p, ce_CheckResponse = response_clone resp\<rparr>))
             | h \<Rightarrow> (h, None)))"

text \<open>
  \<open>Build\<close>: the cache delegates to the local checker, the local checker to the cache, or to itself when
  the cache is off. The throttling resolver between them only waits.
\<close>

fun local_chain :: "nat \<Rightarrow> cache_look \<Rightarrow> (nat list \<Rightarrow> nat) \<Rightarrow> ('i, 'k) check_env \<Rightarrow> resolver" where
  "local_chain 0 look now env p req = None"
| "local_chain (Suc n) look now env p req =
     ResolveCheck_step env (local_chain n look now env)
       (\<lambda>p req. fst (cached_ResolveCheck look now (local_chain n look now env) p req)) p req"

definition Build :: "bool \<Rightarrow> nat \<Rightarrow> cache_look \<Rightarrow> (nat list \<Rightarrow> nat) \<Rightarrow> ('i, 'k) check_env \<Rightarrow> resolver" where
  "Build cachedCheckResolverEnabled n look now env =
     (if cachedCheckResolverEnabled
      then (\<lambda>p req. fst (cached_ResolveCheck look now (local_chain n look now env) p req))
      else ResolveCheck n env)"

section \<open>What the cache can hold\<close>

text \<open>
  The checks over one store while it does not change: the invariant key of a request stands for its
  model, its contextual tuples and its context; the first two are in the environment, with the order in
  which the subproblems finish. An entry is set by a call whose own lookups return such entries, whatever
  other checks run at the same time; an entry may be evicted.
\<close>

inductive cacheable :: "(nat \<Rightarrow> schedule \<Rightarrow> ('i, 'k) check_env) \<Rightarrow> (nat \<Rightarrow> pb_struct option) \<Rightarrow> string \<Rightarrow> string \<Rightarrow>
    cache_entry \<Rightarrow> bool" for envs ctxs store where
  cacheable_set: "\<lbrakk>\<forall>p k e. look p k = Some e \<longrightarrow> cacheable envs ctxs store k e;
     request_ok store u (ctxs i) i req; full_form u; i < 2 ^ 64; live \<sigma>;
     snd (cached_ResolveCheck look now (local_chain n look now (envs i \<sigma>)) p req) = Some (key, ent)\<rbrakk>
   \<Longrightarrow> cacheable envs ctxs store key ent"

section \<open>Cached answers agree\<close>

lemma agrees_clone: "agrees b (Inr (response_clone r)) \<longleftrightarrow> agrees b (Inr r)"
  by (cases r) (simp add: response_clone_def)

text \<open>An entry agrees with the readings of the check that its key stands for.\<close>

definition good_entry :: "string \<Rightarrow> (nat \<Rightarrow> string \<Rightarrow> string \<Rightarrow> string \<Rightarrow> bool) \<Rightarrow> string \<Rightarrow> cache_entry \<Rightarrow> bool" where
  "good_entry store H key ent \<longleftrightarrow> (\<forall>i u ob r. i < 2 ^ 64 \<longrightarrow> key = CheckCacheKey store ob r u i \<longrightarrow>
     agrees (H i u ob r) (Inr (ce_CheckResponse ent)))"

lemma cached_agrees:
  assumes "\<forall>p k e. look p k = Some e \<longrightarrow> good_entry store H k e" and "i < 2 ^ 64"
    and "request_ok store u ctx i req"
    and "handles agrees (H i u (tk_object (rq_TupleKey req)) (tk_relation (rq_TupleKey req))) (delegate p req)"
  shows "handles agrees (H i u (tk_object (rq_TupleKey req)) (tk_relation (rq_TupleKey req)))
    (fst (cached_ResolveCheck look now delegate p req))"
    and "snd (cached_ResolveCheck look now delegate p req) = Some (key, ent) \<Longrightarrow> good_entry store H key ent"
proof -
  let ?k = "rq_TupleKey req"
  let ?key = "CheckCacheKey (rq_StoreID req) (tk_object ?k) (tk_relation ?k) (tk_user ?k) (rq_invariantCacheKey req)"
  let ?b = "H i u (tk_object ?k) (tk_relation ?k)"
  have key: "?key = CheckCacheKey store (tk_object ?k) (tk_relation ?k) u i"
    using assms(3) by (simp add: request_ok_def)
  let ?found = "Option.bind (if rq_Consistency req \<noteq> HIGHER_CONSISTENCY then look p ?key else None)
    (\<lambda>res. if ce_LastModified res > rq_LastCacheInvalidationTime req then Some res else None)"
  have "handles agrees ?b (fst (cached_ResolveCheck look now delegate p req)) \<and>
    (\<forall>key ent. snd (cached_ResolveCheck look now delegate p req) = Some (key, ent) \<longrightarrow> good_entry store H key ent)"
  proof (cases ?found)
    case (Some res)
    then have "look p ?key = Some res" by (auto split: if_splits bind_splits)
    with assms(1,2) have "agrees ?b (Inr (ce_CheckResponse res))" unfolding good_entry_def key by blast
    with Some show ?thesis by (simp add: cached_ResolveCheck_def Let_def agrees_clone)
  next
    case None
    show ?thesis
    proof (cases "\<exists>resp. delegate p req = Some (Returned (Inr resp)) \<and> \<not> rsp_CycleDetected resp")
      case True
      then obtain resp where resp: "delegate p req = Some (Returned (Inr resp))" "\<not> rsp_CycleDetected resp" by blast
      with assms(4) have "agrees ?b (Inr resp)" by simp
      then have "good_entry store H ?key \<lparr>ce_LastModified = now p, ce_CheckResponse = response_clone resp\<rparr>"
        unfolding good_entry_def key using assms(2) by (auto simp: key_forms key_parts_inj agrees_clone)
      with resp None assms(4) show ?thesis by (simp add: cached_ResolveCheck_def Let_def)
    next
      case False
      with None have "cached_ResolveCheck look now delegate p req = (delegate p req, None)"
        by (auto simp: cached_ResolveCheck_def Let_def split: option.splits ran.splits sum.splits)
      with assms(4) show ?thesis by simp
    qed
  qed
  then show "handles agrees ?b (fst (cached_ResolveCheck look now delegate p req))"
    "snd (cached_ResolveCheck look now delegate p req) = Some (key, ent) \<Longrightarrow> good_entry store H key ent" by blast+
qed

lemma cached_returns:
  "delegate p req \<noteq> None \<Longrightarrow> fst (cached_ResolveCheck look now delegate p req) \<noteq> None"
  by (auto simp: cached_ResolveCheck_def Let_def split: option.splits ran.splits sum.splits)

lemma local_chain_agrees:
  assumes "step_agrees env (H i u) store u ctx i" and "i < 2 ^ 64"
    and "\<forall>p k e. look p k = Some e \<longrightarrow> good_entry store H k e" and "request_ok store u ctx i req"
  shows "handles agrees (H i u (tk_object (rq_TupleKey req)) (tk_relation (rq_TupleKey req)))
    (local_chain n look now env p req)"
  using chain_agrees [where F = "\<lambda>n. local_chain n look now env" and
      D = "\<lambda>n p req. fst (cached_ResolveCheck look now (local_chain n look now env) p req)", OF assms(1) _ _ _ assms(4)]
    cached_agrees(1) [of look store H i u ctx, OF assms(3,2)] by simp

lemma cacheable_good:
  assumes "\<And>i u \<sigma>. full_form u \<Longrightarrow> live \<sigma> \<Longrightarrow> step_agrees (envs i \<sigma>) (H i u) store u (ctxs i) i"
    and "cacheable envs ctxs store key ent"
  shows "good_entry store H key ent"
  using assms(2)
proof (induction rule: cacheable.induct)
  case (cacheable_set look u i req \<sigma> now n p key ent)
  then have look: "\<forall>p k e. look p k = Some e \<longrightarrow> good_entry store H k e" by blast
  note req = \<open>i < 2 ^ 64\<close> \<open>request_ok store u (ctxs i) i req\<close>
  have "handles agrees (H i u (tk_object (rq_TupleKey req)) (tk_relation (rq_TupleKey req)))
      (local_chain n look now (envs i \<sigma>) p req)"
    by (rule local_chain_agrees [OF assms(1) req(1) look req(2)]) (rule cacheable_set.hyps)+
  from cached_agrees(2) [where delegate = "local_chain n look now (envs i \<sigma>)" and p = p, OF look req this] cacheable_set.hyps
  show ?case by blast
qed

lemma cached_chain_agrees:
  assumes "\<And>i u \<sigma>. full_form u \<Longrightarrow> live \<sigma> \<Longrightarrow> step_agrees (envs i \<sigma>) (H i u) store u (ctxs i) i"
    and "\<forall>p k e. look p k = Some e \<longrightarrow> cacheable envs ctxs store k e"
    and "i < 2 ^ 64" and "full_form u" and "live \<sigma>" and "request_ok store u (ctxs i) i req"
  shows "handles agrees (H i u (tk_object (rq_TupleKey req)) (tk_relation (rq_TupleKey req)))
    (Build True n look now (envs i \<sigma>) p req)"
proof -
  have look: "\<forall>p k e. look p k = Some e \<longrightarrow> good_entry store H k e"
    using cacheable_good [of envs H store ctxs, OF assms(1)] assms(2) by blast
  show ?thesis
    unfolding Build_def if_True
    by (rule cached_agrees(1) [OF look assms(3,6)], rule local_chain_agrees [OF _ assms(3) look assms(6)])
      (rule assms(1) [OF assms(4,5)])
qed

lemma Build_uncached: "Build False n look now env = ResolveCheck n env"
  by (simp add: Build_def)

section \<open>A session of checks\<close>

text \<open>
  The checks of a session over one store of the memory backend: the invariant key of each stands for its
  model, its contextual tuples (over the same datastore) and its context.
\<close>

definition session_ok :: "(condition \<Rightarrow> (string, unit) result) \<Rightarrow> (nat \<Rightarrow> string) \<Rightarrow> (tuple_record list \<Rightarrow> tuple_record list) \<Rightarrow>
    'a memory_backend \<Rightarrow> string \<Rightarrow> (nat \<Rightarrow> authorization_model \<times> type_system \<times> model_graph) \<Rightarrow>
    (nat \<Rightarrow> (mem_iter, mem_iter) combined_reader) \<Rightarrow> bool" where
  "session_ok compile mk srt s store models readers \<longleftrightarrow>
     (\<forall>i. case models i of (model, t, g) \<Rightarrow>
       NewAndValidate compile (build_graph mk) model = Inr (t, g) \<and> well_shaped model \<and>
       data_ok (readers i) s store \<and> cr_reader (readers i) = memory_reader srt s)"

definition session_env :: "('e, 'a, 'p, 'x) cel \<Rightarrow> cond_config \<Rightarrow> ((string \<times> string) list \<Rightarrow> string \<Rightarrow> string \<Rightarrow> bool) \<Rightarrow>
    ('o \<Rightarrow> bool) \<Rightarrow> nat \<Rightarrow> (nat \<Rightarrow> authorization_model \<times> type_system \<times> model_graph) \<Rightarrow>
    (nat \<Rightarrow> ('i, 'o) combined_reader) \<Rightarrow> nat \<Rightarrow> schedule \<Rightarrow>
    ((pb_tuple static_iter + 'i) combined_iter, 'o starting_iter) check_env" where
  "session_env cel cfg pathExistsIn ordered maxDepth models readers i =
     (case models i of (_, t, g) \<Rightarrow>
       new_env cel cfg (graph_PathExists pathExistsIn) g t (as_reader ordered (readers i)) maxDepth)"


text \<open>A session of the example: the membership of the group has been checked before.\<close>

definition sample_session :: "nat \<Rightarrow> schedule \<Rightarrow>
    ((pb_tuple static_iter + mem_iter) combined_iter, mem_iter starting_iter) check_env" where
  "sample_session = session_env sample_cel \<lparr>cc_maxCost = 100, cc_checkFrequency = 100\<rparr> search_path (\<lambda>_. False) 25
     (\<lambda>_. (sample_check_model sample_either, newWithoutGraphs (sample_check_model sample_either),
       NewAuthorizationModelGraph (\<lambda>_. ''00'') (sample_check_model sample_either))) (\<lambda>_. sample_reader)"

definition sample_entry :: cache_entry where
  "sample_entry = \<lparr>ce_LastModified = 9, ce_CheckResponse = allowed_response True\<rparr>"

definition sample_look :: cache_look where
  "sample_look p key = (if key = CheckCacheKey ''s'' ''g:x'' ''m'' ''u:a'' 0 then Some sample_entry else None)"

lemma sample_session_env: "sample_session i in_order = sample_env sample_either"
  by (simp add: sample_session_def session_env_def sample_env_def)

lemma sample_cacheable: "cacheable sample_session (\<lambda>_. None) ''s'' (CheckCacheKey ''s'' ''g:x'' ''m'' ''u:a'' 0) sample_entry"
proof -
  let ?params = "sample_params\<lparr>rp_TupleKey := NewTupleKey ''g:x'' ''m'' ''u:a''\<rparr>"
  obtain req where req: "NewResolveCheckRequest (\<lambda>_ _ _ _. 0) ?params = Inr req"
    by (simp add: NewResolveCheckRequest_def sample_params_def Let_def)
  have user: "full_form ''u:a''" by code_simp
  have "IsValidObject ''g:x''" by code_simp
  from req user this have "request_ok ''s'' ''u:a'' None 0 req"
    using full_form_user by (auto simp: NewResolveCheckRequest_def sample_params_def Let_def request_ok_def NewTupleKey_def)
  moreover have "map_sum id (\<lambda>r. snd (cached_ResolveCheck (\<lambda>_ _. None) (\<lambda>_. 9)
      (local_chain 200 (\<lambda>_ _. None) (\<lambda>_. 9) (sample_env sample_either)) [] r))
      (NewResolveCheckRequest (\<lambda>_ _ _ _. 0) ?params) = Inr (Some (CheckCacheKey ''s'' ''g:x'' ''m'' ''u:a'' 0, sample_entry))"
    by code_simp
  ultimately show ?thesis
    using cacheable_set [where look = "\<lambda>_ _. None" and now = "\<lambda>_. 9" and n = 200 and p = "[]" and i = 0
        and envs = sample_session and \<sigma> = in_order and ctxs = "\<lambda>_. None" and req = req] user req live_in_order
    by (simp add: sample_session_env)
qed


end
