(* ===== verification/Encoder.thy ===== *)
theory Encoder
  imports Go_Prelude
begin

text \<open>
  Continuation tokens (\<open>pkg/encoder\<close>): the URL alphabet of \<open>encoding/base64\<close> with padding, which the
  encoders call, the serializer of a ULID and an object type, and the encoder that encrypts. What a
  server hands out it reads back.
\<close>

section \<open>The standard library's \<open>base64.URLEncoding\<close>\<close>

definition encodeURL :: string where
  "encodeURL = ''ABCDEFGHIJKLMNOPQRSTUVWXYZabcdefghijklmnopqrstuvwxyz0123456789-_''"

definition encode_digit :: "int \<Rightarrow> char" where
  "encode_digit v = encodeURL ! nat (v mod 64)"

definition decode_digit :: "char \<Rightarrow> int option" where
  "decode_digit c = (let i = IndexByte encodeURL c in if i < 0 then None else Some i)"

definition byte_of :: "int \<Rightarrow> char" where
  "byte_of v = char_of (v mod 256)"

text \<open>Three bytes are four digits; what is left at the end is padded.\<close>

fun EncodeToString :: "string \<Rightarrow> string" where
  "EncodeToString (a # b # c # src) =
     (let v = of_char a * 65536 + of_char b * 256 + of_char c
      in [encode_digit (v div 262144), encode_digit (v div 4096), encode_digit (v div 64), encode_digit v] @
         EncodeToString src)"
| "EncodeToString [a, b] =
     (let v = of_char a * 65536 + of_char b * 256
      in [encode_digit (v div 262144), encode_digit (v div 4096), encode_digit (v div 64), CHR ''=''])"
| "EncodeToString [a] =
     (let v = of_char a * 65536
      in [encode_digit (v div 262144), encode_digit (v div 4096), CHR ''='', CHR ''=''])"
| "EncodeToString [] = []"

text \<open>
  Decoding skips line breaks. A quantum is four digits; padding ends the input, and the bits that it
  leaves over are not looked at. \<open>None\<close> is a \<open>CorruptInputError\<close>.
\<close>

fun decode_quanta :: "string \<Rightarrow> string option" where
  "decode_quanta [] = Some []"
| "decode_quanta (a # b # c # d # src) =
     (case (decode_digit a, decode_digit b, decode_digit c, decode_digit d) of
        (Some x, Some y, Some z, Some w) \<Rightarrow>
          (let v = x * 262144 + y * 4096 + z * 64 + w
           in map_option (\<lambda>rest. [byte_of (v div 65536), byte_of (v div 256), byte_of v] @ rest) (decode_quanta src))
      | (Some x, Some y, Some z, None) \<Rightarrow>
          if d = CHR ''='' \<and> src = [] then
            (let v = x * 262144 + y * 4096 + z * 64 in Some [byte_of (v div 65536), byte_of (v div 256)])
          else None
      | (Some x, Some y, None, _) \<Rightarrow>
          if c = CHR ''='' \<and> d = CHR ''='' \<and> src = [] then
            (let v = x * 262144 + y * 4096 in Some [byte_of (v div 65536)])
          else None
      | _ \<Rightarrow> None)"
| "decode_quanta _ = None"

definition DecodeString :: "string \<Rightarrow> string option" where
  "DecodeString s = decode_quanta (filter (\<lambda>c. c \<noteq> CHR 0x0A \<and> c \<noteq> CHR 0x0D) s)"

section \<open>Encoders\<close>

text \<open>An encoder is its two methods; the errors of \<open>Decode\<close> are not told apart by any caller.\<close>

record encoder =
  enc_Decode :: "string \<Rightarrow> (unit, string) result"
  enc_Encode :: "string \<Rightarrow> (unit, string) result"

definition Base64Encoder :: encoder where
  "Base64Encoder =
     \<lparr>enc_Decode = (\<lambda>s. case DecodeString s of None \<Rightarrow> Inl () | Some data \<Rightarrow> Inr data),
      enc_Encode = (\<lambda>data. Inr (EncodeToString data))\<rparr>"

definition NoopEncoder :: encoder where
  "NoopEncoder = \<lparr>enc_Decode = (\<lambda>s. Inr s), enc_Encode = (\<lambda>data. Inr data)\<rparr>"

text \<open>
  \<open>pkg/encrypter\<close>: the cipher (AES in GCM mode, of the standard library) is a parameter; \<open>random\<close> is what
  reading a nonce gives.
\<close>

record encrypter =
  cry_Decrypt :: "string \<Rightarrow> (unit, string) result"
  cry_Encrypt :: "string \<Rightarrow> (unit, string) result"

record aead =
  ae_NonceSize :: nat
  ae_Seal :: "string \<Rightarrow> string \<Rightarrow> string"
  ae_Open :: "string \<Rightarrow> string \<Rightarrow> (unit, string) result"

definition GCM_Decrypt :: "aead \<Rightarrow> string \<Rightarrow> (unit, string) result" where
  "GCM_Decrypt cipherMode data =
     (if data = [] then Inr data
      else if length data < ae_NonceSize cipherMode then Inl ()
      else ae_Open cipherMode (take (ae_NonceSize cipherMode) data) (drop (ae_NonceSize cipherMode) data))"

definition GCM_Encrypt :: "aead \<Rightarrow> (unit, string) result \<Rightarrow> string \<Rightarrow> (unit, string) result" where
  "GCM_Encrypt cipherMode random data =
     (if data = [] then Inr data
      else rbind random (\<lambda>nonce. Inr (nonce @ ae_Seal cipherMode nonce data)))"

definition GCMEncrypter :: "aead \<Rightarrow> (unit, string) result \<Rightarrow> encrypter" where
  "GCMEncrypter cipherMode random = \<lparr>cry_Decrypt = GCM_Decrypt cipherMode, cry_Encrypt = GCM_Encrypt cipherMode random\<rparr>"

definition TokenEncoder :: "encrypter \<Rightarrow> encoder \<Rightarrow> encoder" where
  "TokenEncoder cry e =
     \<lparr>enc_Decode = (\<lambda>s. rbind (enc_Decode e s) (cry_Decrypt cry)),
      enc_Encode = (\<lambda>data. rbind (cry_Encrypt cry data) (enc_Encode e))\<rparr>"

section \<open>The serializer\<close>

definition Serialize :: "string \<Rightarrow> string \<Rightarrow> (unit, string) result" where
  "Serialize ulid objType = (if ulid = [] then Inl () else Inr (ulid @ ''|'' @ objType))"

definition Deserialize :: "string \<Rightarrow> (unit, string \<times> string) result" where
  "Deserialize continuationToken =
     (let (ulid, objType, found) = Cut continuationToken (CHR ''|'') in
      if \<not> found \<or> ulid = [] then Inl () else Inr (ulid, objType))"

section \<open>Round trips\<close>

lemma digits_decode: "list_all (\<lambda>v. decode_digit (encode_digit v) = Some v \<and>
    encode_digit v \<notin> {CHR 0x0A, CHR 0x0D, CHR ''=''}) [0..63]"
  by code_simp

lemma decode_encode_digit:
  "decode_digit (encode_digit v) = Some (v mod 64)"
  "encode_digit v \<noteq> CHR 0x0A" "encode_digit v \<noteq> CHR 0x0D" "encode_digit v \<noteq> CHR ''=''"
proof -
  have "v mod 64 \<in> set [0..63]" by simp
  with digits_decode have "decode_digit (encode_digit (v mod 64)) = Some (v mod 64) \<and>
      encode_digit (v mod 64) \<notin> {CHR 0x0A, CHR 0x0D, CHR ''=''}"
    unfolding list_all_iff by blast
  then show "decode_digit (encode_digit v) = Some (v mod 64)"
    "encode_digit v \<noteq> CHR 0x0A" "encode_digit v \<noteq> CHR 0x0D" "encode_digit v \<noteq> CHR ''=''"
    by (simp_all add: encode_digit_def)
qed

lemma decode_padding: "decode_digit (CHR ''='') = None"
  by code_simp

lemma char_range: "0 \<le> (of_char c :: int)" "(of_char c :: int) < 256" "char_of (of_char c :: int) = c"
  using of_char_mod_256 [of c, where 'a = int] pos_mod_bound [of 256 "of_char c :: int"]
    pos_mod_sign [of 256 "of_char c :: int"] by simp_all

lemma byte_of_eq: "v mod 256 = of_char c \<Longrightarrow> byte_of v = c"
  by (simp add: byte_of_def char_range(3) del: char_of_mod_256)

lemma digits_value: "x div 262144 mod 64 * 262144 + x div 4096 mod 64 * 4096 + x div 64 mod 64 * 64 + x mod 64 = x"
  if "0 \<le> x" "x < 16777216" for x :: int
proof -
  have "x div 262144 mod 64 = x div 262144" using that by (intro mod_pos_pos_trivial) (auto simp: div_less_iff_less_mult)
  moreover have "x = x div 64 * 64 + x mod 64" "x div 64 = x div 4096 * 64 + x div 64 mod 64"
    "x div 4096 = x div 262144 * 64 + x div 4096 mod 64"
    using div_mult_mod_eq [of x 64] div_mult_mod_eq [of "x div 64" 64] div_mult_mod_eq [of "x div 4096" 64]
    by (simp_all add: zdiv_zmult2_eq [symmetric])
  ultimately show ?thesis by linarith
qed

lemma bytes_value:
  fixes a b c :: int
  assumes "0 \<le> a" "a < 256" "0 \<le> b" "b < 256" "0 \<le> c" "c < 256"
  shows "(a * 65536 + b * 256 + c) div 65536 mod 256 = a" "(a * 65536 + b * 256 + c) div 256 mod 256 = b"
    "(a * 65536 + b * 256 + c) mod 256 = c" "0 \<le> a * 65536 + b * 256 + c" "a * 65536 + b * 256 + c < 16777216"
proof -
  have v: "a * 65536 + b * 256 + c = c + 256 * (b + 256 * a)" by simp
  have q: "(c + 256 * (b + 256 * a)) div 256 = b + 256 * a" using assms by simp
  then show "(a * 65536 + b * 256 + c) div 256 mod 256 = b" unfolding v using assms by simp
  have "(c + 256 * (b + 256 * a)) mod 256 = c mod 256" by (rule mod_mult_self2)
  then show "(a * 65536 + b * 256 + c) mod 256 = c" unfolding v using assms by simp
  have "(c + 256 * (b + 256 * a)) div 65536 = (c + 256 * (b + 256 * a)) div 256 div 256"
    by (simp add: zdiv_zmult2_eq [symmetric])
  also have "\<dots> = a" unfolding q using assms by simp
  finally show "(a * 65536 + b * 256 + c) div 65536 mod 256 = a" unfolding v using assms by simp
  show "0 \<le> a * 65536 + b * 256 + c" "a * 65536 + b * 256 + c < 16777216" using assms by linarith+
qed

lemma EncodeToString_digits: "set (EncodeToString s) \<inter> {CHR 0x0A, CHR 0x0D} = {}"
  by (induction s rule: EncodeToString.induct) (simp_all add: Let_def decode_encode_digit)

lemma quanta:
  assumes "decode_digit a = Some x" and "decode_digit b = Some y"
  shows "decode_digit c = Some z \<Longrightarrow> decode_digit d = Some w \<Longrightarrow> decode_quanta (a # b # c # d # src) =
      map_option ((@) [byte_of ((x * 262144 + y * 4096 + z * 64 + w) div 65536),
        byte_of ((x * 262144 + y * 4096 + z * 64 + w) div 256), byte_of (x * 262144 + y * 4096 + z * 64 + w)])
        (decode_quanta src)"
    and "decode_digit c = Some z \<Longrightarrow> decode_quanta [a, b, c, CHR ''=''] =
      Some [byte_of ((x * 262144 + y * 4096 + z * 64) div 65536), byte_of ((x * 262144 + y * 4096 + z * 64) div 256)]"
    and "decode_quanta [a, b, CHR ''='', CHR ''=''] = Some [byte_of ((x * 262144 + y * 4096) div 65536)]"
  using assms by (simp_all add: Let_def decode_padding del: append.simps)

lemma decode_encode_quanta: "decode_quanta (EncodeToString s) = Some s"
proof (induction s rule: EncodeToString.induct)
  case (1 a b c src)
  define v :: int where "v = of_char a * 65536 + of_char b * 256 + of_char c"
  note bytes = bytes_value [OF char_range(1,2) [of a] char_range(1,2) [of b] char_range(1,2) [of c], folded v_def]
  note digits = decode_encode_digit(1) [of "v div 262144"] decode_encode_digit(1) [of "v div 4096"]
    decode_encode_digit(1) [of "v div 64"] decode_encode_digit(1) [of v]
  show ?case
    unfolding EncodeToString.simps v_def [symmetric] Let_def append_Cons append_Nil quanta(1) [OF digits]
      digits_value [OF bytes(4,5)] 1 [OF refl] option.map byte_of_eq [OF bytes(1)] byte_of_eq [OF bytes(2)] byte_of_eq [OF bytes(3)] ..
next
  case (2 a b)
  define v :: int where "v = of_char a * 65536 + of_char b * 256"
  have "0 \<le> (0 :: int)" "(0 :: int) < 256" by simp_all
  note bytes = bytes_value [OF char_range(1,2) [of a] char_range(1,2) [of b] this, unfolded add_0_right, folded v_def]
  note digits = decode_encode_digit(1) [of "v div 262144"] decode_encode_digit(1) [of "v div 4096"]
    decode_encode_digit(1) [of "v div 64"]
  have "v = 64 * (1024 * of_char a + 4 * of_char b)" unfolding v_def by simp
  then have "v mod 64 = 0" by (simp only: mod_mult_self1_is_0)
  with digits_value [OF bytes(4,5)] have whole: "v div 262144 mod 64 * 262144 + v div 4096 mod 64 * 4096 + v div 64 mod 64 * 64 = v"
    by linarith
  show ?case
    unfolding EncodeToString.simps v_def [symmetric] Let_def quanta(2) [OF digits] whole
      byte_of_eq [OF bytes(1)] byte_of_eq [OF bytes(2)] ..
next
  case (3 a)
  define v :: int where "v = of_char a * 65536"
  have "0 \<le> (0 :: int)" "(0 :: int) < 256" by simp_all
  note bytes = bytes_value [OF char_range(1,2) [of a] this this, unfolded mult_zero_left add_0_right, folded v_def]
  note digits = decode_encode_digit(1) [of "v div 262144"] decode_encode_digit(1) [of "v div 4096"]
  have "v = 64 * (64 * (16 * of_char a))" unfolding v_def by simp
  then have "v mod 64 = 0" "v div 64 mod 64 = 0" by (simp_all only: nonzero_mult_div_cancel_left mod_mult_self1_is_0 simp_thms numeral_neq_zero)
  with digits_value [OF bytes(4,5)] have whole: "v div 262144 mod 64 * 262144 + v div 4096 mod 64 * 4096 = v" by linarith
  show ?case
    unfolding EncodeToString.simps v_def [symmetric] Let_def quanta(3) [OF digits] whole byte_of_eq [OF bytes(1)] ..
qed (simp only: EncodeToString.simps decode_quanta.simps)

lemma Base64_roundtrip: "enc_Encode Base64Encoder data = Inr (EncodeToString data) \<and>
    enc_Decode Base64Encoder (EncodeToString data) = Inr data"
proof -
  have "filter (\<lambda>c. c \<noteq> CHR 0x0A \<and> c \<noteq> CHR 0x0D) (EncodeToString data) = EncodeToString data"
    using EncodeToString_digits [of data] by (simp add: filter_id_conv) blast
  then show ?thesis by (simp add: Base64Encoder_def DecodeString_def decode_encode_quanta)
qed

text \<open>An interface for the commands: an encoder reads back what it wrote.\<close>

locale token_encoder =
  fixes e :: encoder
  assumes decode_encode: "enc_Encode e data = Inr s \<Longrightarrow> enc_Decode e s = Inr data"
    and decode_empty: "enc_Decode e [] = Inr []"
begin

lemma encoded_empty: "enc_Encode e data = Inr [] \<Longrightarrow> data = []"
  using decode_encode decode_empty by fastforce

lemma serialized: "ulid \<noteq> [] \<Longrightarrow> CHR ''|'' \<notin> set ulid \<Longrightarrow> rbind (Serialize ulid ty) (enc_Encode e) = Inr s \<Longrightarrow>
    rbind (enc_Decode e s) Deserialize = Inr (ulid, ty)"
  by (auto simp: Serialize_def Deserialize_def decode_encode Cut_append)

lemma encrypted:
  assumes "\<And>data s. cry_Encrypt cry data = Inr s \<Longrightarrow> cry_Decrypt cry s = Inr data"
    and "enc_Encode (TokenEncoder cry e) data = Inr s"
  shows "enc_Decode (TokenEncoder cry e) s = Inr data"
  using assms by (auto simp: TokenEncoder_def dest: decode_encode)

end

text \<open>One that does not fail.\<close>

locale total_encoder = token_encoder +
  assumes encodes: "\<exists>s. enc_Encode e data = Inr s"
begin

lemma serializes:
  assumes "ulid \<noteq> []" and "CHR ''|'' \<notin> set ulid"
  obtains s where "rbind (Serialize ulid ty) (enc_Encode e) = Inr s" "s \<noteq> []"
    "rbind (enc_Decode e s) Deserialize = Inr (ulid, ty)" "enc_Decode e s = Inr (ulid @ ''|'' @ ty)"
proof -
  obtain s where s: "enc_Encode e (ulid @ ''|'' @ ty) = Inr s" using encodes by blast
  then have made: "rbind (Serialize ulid ty) (enc_Encode e) = Inr s" using assms(1) by (simp add: Serialize_def)
  from s have "s \<noteq> []" using encoded_empty assms(1) by fastforce
  from that [OF made this serialized [OF assms made] decode_encode [OF s]] show thesis .
qed

end

interpretation base64: total_encoder Base64Encoder
  by unfold_locales (use Base64_roundtrip [of "[]"] Base64_roundtrip in auto)

interpretation noop: total_encoder NoopEncoder
  by unfold_locales (simp_all add: NoopEncoder_def)

text \<open>The law of the cipher: opening what was sealed under the same nonce; sealing adds a tag.\<close>

definition aead_ok :: "aead \<Rightarrow> bool" where
  "aead_ok c \<longleftrightarrow> (\<forall>nonce data. length nonce = ae_NonceSize c \<longrightarrow> ae_Open c nonce (ae_Seal c nonce data) = Inr data \<and>
     ae_Seal c nonce data \<noteq> [])"

lemma GCM_roundtrip:
  assumes "aead_ok c" and "\<And>nonce. random = Inr nonce \<Longrightarrow> length nonce = ae_NonceSize c"
    and "GCM_Encrypt c random data = Inr s"
  shows "GCM_Decrypt c s = Inr data"
  using assms by (auto simp: GCM_Encrypt_def GCM_Decrypt_def aead_ok_def split: if_splits)

lemma encrypted_encoder:
  assumes "aead_ok c" and "\<And>nonce. random = Inr nonce \<Longrightarrow> length nonce = ae_NonceSize c"
  shows "token_encoder (TokenEncoder (GCMEncrypter c random) Base64Encoder)"
    and "random = Inr nonce \<Longrightarrow> total_encoder (TokenEncoder (GCMEncrypter c random) Base64Encoder)"
proof -
  show enc: "token_encoder (TokenEncoder (GCMEncrypter c random) Base64Encoder)"
  proof
    show "enc_Decode (TokenEncoder (GCMEncrypter c random) Base64Encoder) s = Inr data"
      if "enc_Encode (TokenEncoder (GCMEncrypter c random) Base64Encoder) data = Inr s" for data s
      by (rule base64.encrypted [OF _ that]) (simp add: GCMEncrypter_def GCM_roundtrip [OF assms])
    show "enc_Decode (TokenEncoder (GCMEncrypter c random) Base64Encoder) [] = Inr []"
      by (simp add: TokenEncoder_def base64.decode_empty GCMEncrypter_def GCM_Decrypt_def)
  qed
  show "total_encoder (TokenEncoder (GCMEncrypter c random) Base64Encoder)" if "random = Inr nonce"
    using enc unfolding total_encoder_def total_encoder_axioms_def
    by (simp add: that TokenEncoder_def GCMEncrypter_def GCM_Encrypt_def base64.encodes)
qed

text \<open>
  C12: A continuation token that the server hands out, encrypted or not, is read back as the ULID and the
  object type that it was made of, as long as the ULID is not empty and holds no separator; the type
  may hold one.
\<close>

theorem continuation_token_roundtrip:
  assumes "aead_ok c" and "\<And>nonce. random = Inr nonce \<Longrightarrow> length nonce = ae_NonceSize c"
    and "e = Base64Encoder \<or> e = TokenEncoder (GCMEncrypter c random) Base64Encoder"
    and "ulid \<noteq> []" and "CHR ''|'' \<notin> set ulid" and "rbind (Serialize ulid objType) (enc_Encode e) = Inr token"
  shows "rbind (enc_Decode e token) Deserialize = Inr (ulid, objType)"
proof -
  have "token_encoder e"
    using assms(3) encrypted_encoder(1) [OF assms(1,2)] base64.token_encoder_axioms by blast
  then show ?thesis by (rule token_encoder.serialized) (rule assms)+
qed

theorem continuation_token_roundtrip_witness:
  "rbind (Serialize ''01J'' ''doc|v2'') (enc_Encode (TokenEncoder (GCMEncrypter \<lparr>ae_NonceSize = 2,
     ae_Seal = (\<lambda>n d. CHR ''t'' # d), ae_Open = (\<lambda>n d. Inr (tl d))\<rparr> (Inr ''nn'')) Base64Encoder)) = Inr ''bm50MDFKfGRvY3x2Mg=='' \<and>
   rbind (enc_Decode (TokenEncoder (GCMEncrypter \<lparr>ae_NonceSize = 2,
     ae_Seal = (\<lambda>n d. CHR ''t'' # d), ae_Open = (\<lambda>n d. Inr (tl d))\<rparr> (Inr ''nn'')) Base64Encoder) ''bm50MDFKfGRvY3x2Mg=='')
     Deserialize = Inr (''01J'', ''doc|v2'')"
proof -
  let ?c = "\<lparr>ae_NonceSize = 2, ae_Seal = (\<lambda>n d. CHR ''t'' # d), ae_Open = (\<lambda>n d. Inr (tl d))\<rparr> :: aead"
  have made: "rbind (Serialize ''01J'' ''doc|v2'') (enc_Encode (TokenEncoder (GCMEncrypter ?c (Inr ''nn'')) Base64Encoder)) =
      Inr ''bm50MDFKfGRvY3x2Mg==''" by code_simp
  have "rbind (enc_Decode (TokenEncoder (GCMEncrypter ?c (Inr ''nn'')) Base64Encoder) ''bm50MDFKfGRvY3x2Mg=='') Deserialize =
      Inr (''01J'', ''doc|v2'')"
    by (rule continuation_token_roundtrip [where c = ?c and random = "Inr ''nn''", OF _ _ _ _ _ made]) (auto simp: aead_ok_def)
  with made show ?thesis by simp
qed

end
