(* ===== verification/Commands.thy ===== *)
theory Commands
  imports Encoder Memory_Store Tuple_Validation Check_Reducers
begin

text \<open>
  The commands of the server that keep the datastore (\<open>pkg/server/commands\<close>) and the errors that a
  client sees (\<open>pkg/server/errors\<close>): writing tuples, models and assertions, creating and deleting
  stores, and the paged reads. A command gets the datastore's state and returns it updated. The graph
  builder, CEL and the wire size of a message (\<open>proto.Size\<close>) are parameters.
\<close>

section \<open>Errors\<close>

text \<open>
  The statuses that clients see. The constructors of \<open>cause\<close> stand for the texts that are made into
  validation errors.
\<close>

datatype cause =
    CauseTuple val_error
  | CauseSchema
  | CauseImplicit tuple_key
  | CauseContextSize tuple_key int int
  | CauseMalformedUser tuple_key
  | CauseOnDuplicate string
  | CauseOnMissing string
  | CauseTupleKeyIncomplete
  | CauseInlineExpression
  | CauseModel ts_error
  | CauseRelation val_error
  | CauseContext val_error
  | CauseCondition string
  | CauseBatch string

datatype internal_error =
    InternalStore store_err
  | InternalModel ts_error
  | InternalEncoding
  | InternalTuple val_error
  | InternalCheck check_err
  | InternalRequest string

datatype server_error =
    SE_ErrAuthorizationModelResolutionTooComplex
  | SE_ErrInvalidWriteInput
  | SE_ErrInvalidContinuationToken
  | SE_ErrInvalidStartTime
  | SE_ErrInvalidExpandInput
  | SE_ErrUnsupportedUserSet
  | SE_ErrStoreIDNotFound
  | SE_ErrMismatchObjectType
  | SE_ErrRequestCancelled
  | SE_ErrRequestDeadlineExceeded
  | SE_ErrThrottledTimeout
  | SE_InternalError string internal_error
  | SE_ValidationError cause
  | SE_Aborted store_err
  | SE_AuthorizationModelNotFound string
  | SE_LatestAuthorizationModelNotFound string
  | SE_TypeNotFound string
  | SE_RelationNotFound string string tuple_key
  | SE_InvalidTuple val_error
  | SE_ExceededEntityLimit string int
  | SE_ModelTooLarge int int
  | SE_DuplicateTupleInWrite tuple_key
  | SE_WriteFailedDueToInvalidInput store_err
  | SE_InvalidAuthorizationModelInput ts_error
  | SE_TypeSystem ts_error
  | SE_Unauthorized
  | SE_InvalidArgument

definition InternalServerErrorMsg :: string where
  "InternalServerErrorMsg = ''Internal Server Error''"

definition NewInternalError :: "string \<Rightarrow> internal_error \<Rightarrow> server_error" where
  "NewInternalError public internal =
     SE_InternalError (if public = [] then InternalServerErrorMsg else public) internal"

text \<open>No operation of the memory backend is throttled.\<close>

definition HandleError :: "string \<Rightarrow> internal_error \<Rightarrow> server_error" where
  "HandleError public err = (case err of
     InternalStore (ErrIter ErrCanceled) \<Rightarrow> SE_ErrRequestCancelled
   | InternalStore (ErrIter ErrDeadlineExceeded) \<Rightarrow> SE_ErrRequestDeadlineExceeded
   | InternalStore ErrInvalidContinuationToken \<Rightarrow> SE_ErrInvalidContinuationToken
   | InternalCheck (CE_Store (ErrIter ErrCanceled)) \<Rightarrow> SE_ErrRequestCancelled
   | InternalCheck (CE_Store (ErrIter ErrDeadlineExceeded)) \<Rightarrow> SE_ErrRequestDeadlineExceeded
   | InternalCheck (CE_Iterator ErrCanceled) \<Rightarrow> SE_ErrRequestCancelled
   | InternalCheck (CE_Iterator ErrDeadlineExceeded) \<Rightarrow> SE_ErrRequestDeadlineExceeded
   | InternalCheck (CE_Context ErrCanceled) \<Rightarrow> SE_ErrRequestCancelled
   | InternalCheck (CE_Context ErrDeadlineExceeded) \<Rightarrow> SE_ErrRequestDeadlineExceeded
   | _ \<Rightarrow> NewInternalError public err)"

definition HandleTupleValidateError :: "tuple_key \<Rightarrow> val_error \<Rightarrow> server_error" where
  "HandleTupleValidateError tk err = (case err of
     InvalidTupleError cause \<Rightarrow> SE_InvalidTuple cause
   | TypeNotFoundError typeName \<Rightarrow> SE_TypeNotFound typeName
   | RelationNotFoundError relation typeName \<Rightarrow> SE_RelationNotFound relation typeName tk
   | InvalidConditionalTupleError _ \<Rightarrow> SE_ValidationError (CauseTuple err)
   | _ \<Rightarrow> HandleError [] (InternalTuple err))"

section \<open>The write command\<close>

record write_request =
  wr_StoreId :: string
  wr_AuthorizationModelId :: string
  wr_Writes :: "tuple_key list"
  wr_OnDuplicate :: string
  wr_Deletes :: "tuple_key list"
  wr_OnMissing :: string

text \<open>What the command calls: the graph builder, the checks of conditions by CEL, sizes; and its limit.\<close>

record 'g write_command =
  wc_build :: "authorization_model \<Rightarrow> (ts_error, 'g) result"
  wc_inline :: "tuple_key \<Rightarrow> (string, unit) result"
  wc_cast :: "condition \<Rightarrow> pb_struct \<Rightarrow> (string, string list) result"
  wc_size :: "pb_struct option \<Rightarrow> int"
  wc_conditionContextByteLimit :: int

definition parseOptionOnDuplicate :: "write_request \<Rightarrow> (server_error, on_duplicate_insert) result" where
  "parseOptionOnDuplicate wr =
     (if wr_OnDuplicate wr = [] \<or> wr_OnDuplicate wr = ''error'' then Inr OnDuplicateInsertError
      else if wr_OnDuplicate wr = ''ignore'' then Inr OnDuplicateInsertIgnore
      else Inl (SE_ValidationError (CauseOnDuplicate (wr_OnDuplicate wr))))"

definition parseOptionOnMissing :: "write_request \<Rightarrow> (server_error, on_missing_delete) result" where
  "parseOptionOnMissing wr =
     (if wr_OnMissing wr = [] \<or> wr_OnMissing wr = ''error'' then Inr OnMissingDeleteError
      else if wr_OnMissing wr = ''ignore'' then Inr OnMissingDeleteIgnore
      else Inl (SE_ValidationError (CauseOnMissing (wr_OnMissing wr))))"

text \<open>The loops over the deletes and the writes fill one set of strings.\<close>

fun collect_keys :: "string list \<Rightarrow> tuple_key list \<Rightarrow> (server_error, string list) result" where
  "collect_keys tuples [] = Inr tuples"
| "collect_keys tuples (tk # tks) =
     (if TupleKeyToString tk \<in> set tuples then Inl (SE_DuplicateTupleInWrite tk)
      else collect_keys (TupleKeyToString tk # tuples) tks)"

definition validateNoDuplicatesAndCorrectSize :: "'a memory_backend \<Rightarrow> tuple_key list \<Rightarrow> tuple_key list \<Rightarrow>
    (server_error, unit) result" where
  "validateNoDuplicatesAndCorrectSize s deletes writes =
     rbind (collect_keys [] deletes) (\<lambda>tuples. rbind (collect_keys tuples writes) (\<lambda>tuples.
       if int (length tuples) > MaxTuplesPerWrite s
       then Inl (SE_ExceededEntityLimit ''write operations'' (MaxTuplesPerWrite s)) else Inr ()))"

definition validateNotImplicit :: "tuple_key \<Rightarrow> (server_error, unit) result" where
  "validateNotImplicit tk =
     (let (userObject, userRelation) = SplitObjectRelation (tk_user tk) in
      if tk_relation tk = userRelation \<and> tk_object tk = userObject
      then Inl (SE_ValidationError (CauseImplicit tk)) else Inr ())"

definition validate_write :: "'g write_command \<Rightarrow> type_system \<Rightarrow> tuple_key \<Rightarrow> (server_error, unit) result" where
  "validate_write c typesys tk =
     (case ValidateTupleForWrite (wc_inline c) (wc_cast c) typesys tk of
        Inl err \<Rightarrow> Inl (SE_ValidationError (CauseTuple err))
      | Inr _ \<Rightarrow> rbind (validateNotImplicit tk) (\<lambda>_.
          let contextSize = wc_size c (get_cond_context tk) in
          if contextSize > wc_conditionContextByteLimit c then
            Inl (SE_ValidationError (CauseContextSize tk contextSize (wc_conditionContextByteLimit c)))
          else Inr ()))"

definition validate_writes :: "'g write_command \<Rightarrow> 'a memory_backend \<Rightarrow> write_request \<Rightarrow> (server_error, unit) result" where
  "validate_writes c s req =
     (case mem_ReadAuthorizationModel s (wr_StoreId req) (wr_AuthorizationModelId req) of
        Inl ErrNotFound \<Rightarrow> Inl (SE_AuthorizationModelNotFound (wr_AuthorizationModelId req))
      | Inl err \<Rightarrow> Inl (HandleError [] (InternalStore err))
      | Inr authModel \<Rightarrow>
          if \<not> IsSchemaVersionSupported (am_schemaVersion authModel) then Inl (SE_ValidationError CauseSchema)
          else (case TypeSystem_New (wc_build c) authModel of
              Inl err \<Rightarrow> Inl (SE_TypeSystem err)
            | Inr (typesys, _) \<Rightarrow> for_each (validate_write c typesys) (wr_Writes req)))"

definition validate_delete :: "tuple_key \<Rightarrow> (server_error, unit) result" where
  "validate_delete tk =
     (if IsValidUser (tk_user tk) then Inr () else Inl (SE_ValidationError (CauseMalformedUser tk)))"

definition validateWriteRequest :: "'g write_command \<Rightarrow> 'a memory_backend \<Rightarrow> write_request \<Rightarrow>
    (server_error, unit) result" where
  "validateWriteRequest c s req =
     (if wr_Deletes req = [] \<and> wr_Writes req = [] then Inl SE_ErrInvalidWriteInput
      else rbind (if wr_Writes req \<noteq> [] then validate_writes c s req else Inr ()) (\<lambda>_.
        rbind (for_each validate_delete (wr_Deletes req)) (\<lambda>_.
        validateNoDuplicatesAndCorrectSize s (wr_Deletes req) (wr_Writes req))))"

text \<open>An error of \<open>Write\<close>: a conflict of conditions wraps \<open>ErrTransactionalWriteFailed\<close>.\<close>

definition write_error :: "store_err \<Rightarrow> server_error" where
  "write_error err = (case err of
     ErrTupleConditionConflict _ \<Rightarrow> SE_Aborted err
   | ErrInvalidWriteInput _ _ \<Rightarrow> SE_WriteFailedDueToInvalidInput err
   | _ \<Rightarrow> HandleError [] (InternalStore err))"

definition WriteCommand_Execute :: "'g write_command \<Rightarrow> (pb_struct option \<Rightarrow> string) \<Rightarrow> (nat \<Rightarrow> nat) \<Rightarrow> nat \<Rightarrow>
    write_request \<Rightarrow> 'a memory_backend \<Rightarrow> (server_error, unit) result \<times> 'a memory_backend" where
  "WriteCommand_Execute c ctx_string mk now req s =
     (case rbind (validateWriteRequest c s req) (\<lambda>_. rbind (parseOptionOnDuplicate req) (\<lambda>onDuplicateInsert.
             rbind (parseOptionOnMissing req) (\<lambda>onEmptyDelete. Inr (onDuplicateInsert, onEmptyDelete)))) of
        Inl err \<Rightarrow> (Inl err, s)
      | Inr (onDuplicateInsert, onEmptyDelete) \<Rightarrow>
         (case mem_Write ctx_string mk now (wr_StoreId req) (wr_Deletes req) (wr_Writes req)
                 [WithOnMissingDelete onEmptyDelete, WithOnDuplicateInsert onDuplicateInsert] s of
            (Inl err, s') \<Rightarrow> (Inl (write_error err), s')
          | (Inr _, s') \<Rightarrow> (Inr (), s')))"

section \<open>Models and assertions\<close>

record model_request =
  mr_StoreId :: string
  mr_SchemaVersion :: string
  mr_TypeDefinitions :: "type_definition list"
  mr_Conditions :: "(string \<times> condition) list"

text \<open>\<open>model_size\<close> is the size of the model's encoding, \<open>ulid\<close> the identifier that the command makes.\<close>

definition WriteAuthorizationModelCommand_Execute :: "(condition \<Rightarrow> (string, unit) result) \<Rightarrow>
    (authorization_model \<Rightarrow> (ts_error, 'g) result) \<Rightarrow> (authorization_model \<Rightarrow> int) \<Rightarrow> int \<Rightarrow> string \<Rightarrow>
    model_request \<Rightarrow> 'a memory_backend \<Rightarrow> (server_error, string) result \<times> 'a memory_backend" where
  "WriteAuthorizationModelCommand_Execute compile build model_size maxAuthorizationModelSizeInBytes ulid req s =
     (if int (length (mr_TypeDefinitions req)) > MaxTypesPerAuthorizationModel s then
        (Inl (SE_ExceededEntityLimit ''type definitions in an authorization model'' (MaxTypesPerAuthorizationModel s)), s)
      else
       (let model = \<lparr>am_id = ulid,
              am_schemaVersion = (if mr_SchemaVersion req = [] then SchemaVersion1_1 else mr_SchemaVersion req),
              am_typeDefinitions = mr_TypeDefinitions req, am_conditions = mr_Conditions req\<rparr>;
            modelSize = model_size model
        in if modelSize > maxAuthorizationModelSizeInBytes then
             (Inl (SE_ModelTooLarge modelSize maxAuthorizationModelSizeInBytes), s)
           else (case NewAndValidate compile build model of
               Inl err \<Rightarrow> (Inl (SE_InvalidAuthorizationModelInput err), s)
             | Inr _ \<Rightarrow> (Inr (am_id model), mem_WriteAuthorizationModel (mr_StoreId req) model s))))"

record assertion =
  as_TupleKey :: tuple_key
  as_Expectation :: bool
  as_ContextualTuples :: "tuple_key list"
  as_Context :: "pb_struct option"

text \<open>The key of an assertion has no condition.\<close>

definition ConvertAssertionTupleKeyToTupleKey :: "tuple_key \<Rightarrow> tuple_key" where
  "ConvertAssertionTupleKeyToTupleKey tk = NewTupleKey (tk_object tk) (tk_relation tk) (tk_user tk)"

definition validate_assertion :: "'g write_command \<Rightarrow> type_system \<Rightarrow> assertion \<Rightarrow> (server_error, unit) result" where
  "validate_assertion c typesys a =
     (case ValidateUserObjectRelation typesys (ConvertAssertionTupleKeyToTupleKey (as_TupleKey a)) of
        Inl err \<Rightarrow> Inl (SE_ValidationError (CauseTuple err))
      | Inr _ \<Rightarrow> for_each (\<lambda>ct. case ValidateTupleForWrite (wc_inline c) (wc_cast c) typesys ct of
            Inl err \<Rightarrow> Inl (SE_ValidationError (CauseTuple err)) | Inr _ \<Rightarrow> Inr ()) (as_ContextualTuples a))"

definition WriteAssertionsCommand_Execute :: "'g write_command \<Rightarrow> (assertion \<Rightarrow> int) \<Rightarrow> int \<Rightarrow> string \<Rightarrow> string \<Rightarrow>
    assertion list \<Rightarrow> assertion memory_backend \<Rightarrow> (server_error, unit) result \<times> assertion memory_backend" where
  "WriteAssertionsCommand_Execute c assertion_size maxAssertionSizeInBytes store modelID assertions s =
     (case (case mem_ReadAuthorizationModel s store modelID of
              Inl ErrNotFound \<Rightarrow> Inl (SE_AuthorizationModelNotFound modelID)
            | Inl err \<Rightarrow> Inl (HandleError [] (InternalStore err))
            | Inr model \<Rightarrow>
                if \<not> IsSchemaVersionSupported (am_schemaVersion model) then Inl (SE_ValidationError CauseSchema)
                else (case TypeSystem_New (wc_build c) model of
                    Inl err \<Rightarrow> Inl (HandleError [] (InternalModel err))
                  | Inr (typesys, _) \<Rightarrow>
                      if sum_list (map assertion_size assertions) > maxAssertionSizeInBytes then
                        Inl (SE_ExceededEntityLimit ''bytes'' maxAssertionSizeInBytes)
                      else for_each (validate_assertion c typesys) assertions)) of
        Inl err \<Rightarrow> (Inl err, s)
      | Inr _ \<Rightarrow> (Inr (), mem_WriteAssertions store modelID assertions s))"

definition ReadAuthorizationModelQuery_Execute :: "string \<Rightarrow> string \<Rightarrow> 'a memory_backend \<Rightarrow>
    (server_error, authorization_model) result" where
  "ReadAuthorizationModelQuery_Execute store modelID s =
     (case mem_ReadAuthorizationModel s store modelID of
        Inl ErrNotFound \<Rightarrow> Inl (SE_AuthorizationModelNotFound modelID)
      | Inl err \<Rightarrow> Inl (HandleError [] (InternalStore err))
      | Inr azm \<Rightarrow> Inr azm)"

definition ReadAssertionsQuery_Execute :: "string \<Rightarrow> string \<Rightarrow> 'a memory_backend \<Rightarrow>
    (server_error, string \<times> 'a list) result" where
  "ReadAssertionsQuery_Execute store authorizationModelID s =
     Inr (authorizationModelID, mem_ReadAssertions s store authorizationModelID)"

section \<open>Stores\<close>

definition CreateStoreCommand_Execute :: "nat \<Rightarrow> string \<Rightarrow> string \<Rightarrow> 'a memory_backend \<Rightarrow>
    (server_error, fga_store) result \<times> 'a memory_backend" where
  "CreateStoreCommand_Execute now ulid name s =
     (case mem_CreateStore now \<lparr>store_id = ulid, store_name = name, store_created_at = 0, store_updated_at = 0\<rparr> s of
        (Inl err, s') \<Rightarrow> (Inl (HandleError [] (InternalStore err)), s')
      | (Inr store, s') \<Rightarrow> (Inr store, s'))"

definition DeleteStoreCommand_Execute :: "string \<Rightarrow> 'a memory_backend \<Rightarrow> (server_error, unit) result \<times> 'a memory_backend" where
  "DeleteStoreCommand_Execute store s =
     (case mem_GetStore s store of
        Inl ErrNotFound \<Rightarrow> (Inr (), s)
      | Inl err \<Rightarrow> (Inl (HandleError [] (InternalStore err)), s)
      | Inr st \<Rightarrow> (Inr (), mem_DeleteStore (store_id st) s))"

definition GetStoreQuery_Execute :: "string \<Rightarrow> 'a memory_backend \<Rightarrow> (server_error, fga_store) result" where
  "GetStoreQuery_Execute storeID s =
     (case mem_GetStore s storeID of
        Inl ErrNotFound \<Rightarrow> Inl SE_ErrStoreIDNotFound
      | Inl err \<Rightarrow> Inl (HandleError [] (InternalStore err))
      | Inr store \<Rightarrow> Inr store)"

section \<open>Paged reads\<close>

text \<open>What the encoders and the serializer fail with is not told apart.\<close>

definition decode_token :: "encoder \<Rightarrow> string \<Rightarrow> (server_error, string) result" where
  "decode_token e token = (case enc_Decode e token of Inl _ \<Rightarrow> Inl SE_ErrInvalidContinuationToken | Inr t \<Rightarrow> Inr t)"

definition encoding :: "(unit, string) result \<Rightarrow> (server_error, string) result" where
  "encoding r = (case r of Inl _ \<Rightarrow> Inl (HandleError [] InternalEncoding) | Inr t \<Rightarrow> Inr t)"

definition ListStoresQuery_Execute :: "encoder \<Rightarrow> string list \<Rightarrow> string \<Rightarrow> int \<Rightarrow> string \<Rightarrow> 'a memory_backend \<Rightarrow>
    (server_error, fga_store list \<times> string) result" where
  "ListStoresQuery_Execute e storeIDs name pageSize token s =
     rbind (decode_token e token) (\<lambda>decodedContToken.
       (case mem_ListStores s storeIDs name (NewPaginationOptions pageSize decodedContToken) of
          Inl err \<Rightarrow> Inl (HandleError [] (InternalStore err))
        | Inr (stores, continuationToken) \<Rightarrow>
            rbind (encoding (enc_Encode e continuationToken)) (\<lambda>encodedToken. Inr (stores, encodedToken))))"

definition ReadAuthorizationModelsQuery_Execute :: "encoder \<Rightarrow> string \<Rightarrow> int \<Rightarrow> string \<Rightarrow> 'a memory_backend \<Rightarrow>
    (server_error, authorization_model list \<times> string) result" where
  "ReadAuthorizationModelsQuery_Execute e store pageSize token s =
     rbind (decode_token e token) (\<lambda>decodedContToken.
       (case mem_ReadAuthorizationModels s store (NewPaginationOptions pageSize decodedContToken) of
          Inl err \<Rightarrow> Inl (HandleError [] (InternalStore err))
        | Inr (models, contToken) \<Rightarrow>
            rbind (encoding (enc_Encode e contToken)) (\<lambda>encodedContToken. Inr (models, encodedContToken))))"

text \<open>
  \<open>ReadQuery\<close>: the token of a page is that of the datastore with an empty type. \<open>None\<close> is a panic of
  the datastore.
\<close>

record read_request =
  rr_StoreId :: string
  rr_TupleKey :: "tuple_key option"
  rr_PageSize :: int
  rr_ContinuationToken :: string

definition read_page_token :: "encoder \<Rightarrow> string \<Rightarrow> (server_error, string) result" where
  "read_page_token e token =
     rbind (decode_token e token) (\<lambda>decodedContToken.
       if decodedContToken \<noteq> [] then
         (case Deserialize decodedContToken of
            Inl _ \<Rightarrow> Inl SE_ErrInvalidContinuationToken | Inr (from, _) \<Rightarrow> Inr from)
       else Inr decodedContToken)"

definition ReadQuery_Execute :: "encoder \<Rightarrow> string ctx \<Rightarrow> read_request \<Rightarrow> 'a memory_backend \<Rightarrow>
    (server_error, pb_tuple list \<times> string) result option" where
  "ReadQuery_Execute e ctx req s =
     (let incomplete = (case rr_TupleKey req of None \<Rightarrow> False
          | Some tk \<Rightarrow> (let (objectType, objectID) = SplitObject (tk_object tk)
              in objectType = [] \<or> (objectID = [] \<and> tk_user tk = []))) in
      if incomplete then Some (Inl (SE_ValidationError CauseTupleKeyIncomplete))
      else (case read_page_token e (rr_ContinuationToken req) of
          Inl err \<Rightarrow> Some (Inl err)
        | Inr from \<Rightarrow>
            (let opts = NewPaginationOptions (rr_PageSize req) from;
                 flt = (case rr_TupleKey req of None \<Rightarrow> \<lparr>rf_Object = [], rf_Relation = [], rf_User = [], rf_Conditions = []\<rparr>
                   | Some tk \<Rightarrow> \<lparr>rf_Object = tk_object tk, rf_Relation = tk_relation tk, rf_User = tk_user tk, rf_Conditions = []\<rparr>)
             in map_option (\<lambda>r. case r of
                  Inl err \<Rightarrow> Inl (HandleError [] (InternalStore err))
                | Inr (tuples, contUlid) \<Rightarrow>
                    if contUlid = [] then Inr (tuples, [])
                    else rbind (encoding (rbind (Serialize contUlid []) (enc_Encode e)))
                      (\<lambda>encodedContToken. Inr (tuples, encodedContToken)))
                (mem_ReadPage ctx s (rr_StoreId req) flt opts))))"

text \<open>
  \<open>ReadChangesQuery\<close>: a start time other than the zero time is a ULID of that time (\<open>ulid.New\<close>, of a
  module outside, is \<open>ulid_at\<close>); the token wins over it. \<open>storage.ErrNotFound\<close> is an empty page.
\<close>

record changes_request =
  cq_StoreId :: string
  cq_Type :: string
  cq_PageSize :: int
  cq_ContinuationToken :: string
  cq_StartTime :: "nat option"

definition changes_from :: "encoder \<Rightarrow> (nat \<Rightarrow> string option) \<Rightarrow> changes_request \<Rightarrow> (server_error, string) result" where
  "changes_from e ulid_at req =
     rbind (decode_token e (cq_ContinuationToken req)) (\<lambda>token.
       if token \<noteq> [] then
         (case Deserialize token of
            Inl _ \<Rightarrow> Inl SE_ErrInvalidContinuationToken
          | Inr (fromUlid, objType) \<Rightarrow> if objType \<noteq> cq_Type req then Inl SE_ErrMismatchObjectType else Inr fromUlid)
       else (case cq_StartTime req of
            None \<Rightarrow> Inr []
          | Some startTime \<Rightarrow> (case ulid_at startTime of None \<Rightarrow> Inl SE_ErrInvalidStartTime | Some tokenUlid \<Rightarrow> Inr tokenUlid)))"

definition ReadChangesQuery_Execute :: "encoder \<Rightarrow> (nat \<Rightarrow> string option) \<Rightarrow> (string \<Rightarrow> nat option) \<Rightarrow> (nat \<Rightarrow> string) \<Rightarrow>
    int \<Rightarrow> int \<Rightarrow> changes_request \<Rightarrow> 'a memory_backend \<Rightarrow> (server_error, tuple_change list \<times> string) result" where
  "ReadChangesQuery_Execute e ulid_at ulid_parse ulid_string now horizonOffset req s =
     rbind (changes_from e ulid_at req) (\<lambda>fromUlid.
       (case mem_ReadChanges ulid_parse ulid_string now s (cq_StoreId req)
               \<lparr>cf_ObjectType = cq_Type req, cf_HorizonOffset = horizonOffset\<rparr>
               (NewPaginationOptions (cq_PageSize req) fromUlid) False of
          Inl ErrNotFound \<Rightarrow> Inr ([], cq_ContinuationToken req)
        | Inl err \<Rightarrow> Inl (HandleError [] (InternalStore err))
        | Inr (changes, contUlid) \<Rightarrow>
            if contUlid = [] then Inr (changes, [])
            else rbind (encoding (rbind (Serialize contUlid (cq_Type req)) (enc_Encode e)))
              (\<lambda>encodedContToken. Inr (changes, encodedContToken))))"

section \<open>Following the pages of the read command\<close>

fun follow_read :: "nat \<Rightarrow> encoder \<Rightarrow> 'a memory_backend \<Rightarrow> read_request \<Rightarrow> pb_tuple list option" where
  "follow_read 0 e s req = None"
| "follow_read (Suc n) e s req =
     (case ReadQuery_Execute e None req s of
        Some (Inr (ts, token)) \<Rightarrow>
          if token = [] then Some ts
          else map_option (\<lambda>rest. ts @ rest) (follow_read n e s (req\<lparr>rr_ContinuationToken := token\<rparr>))
      | _ \<Rightarrow> None)"

definition complete_key :: "tuple_key option \<Rightarrow> bool" where
  "complete_key k \<longleftrightarrow> (case k of None \<Rightarrow> True
     | Some tk \<Rightarrow> fst (SplitObject (tk_object tk)) \<noteq> [] \<and> (snd (SplitObject (tk_object tk)) \<noteq> [] \<or> tk_user tk \<noteq> []))"

definition filter_of :: "tuple_key option \<Rightarrow> read_filter" where
  "filter_of k = (case k of None \<Rightarrow> \<lparr>rf_Object = [], rf_Relation = [], rf_User = [], rf_Conditions = []\<rparr>
     | Some tk \<Rightarrow> \<lparr>rf_Object = tk_object tk, rf_Relation = tk_relation tk, rf_User = tk_user tk, rf_Conditions = []\<rparr>)"

lemma Itoa_no_separator: "0 \<le> k \<Longrightarrow> CHR ''|'' \<notin> set (Itoa k)"
proof
  assume "CHR ''|'' \<in> set (Itoa k)" "0 \<le> k"
  then have "is_digit (CHR ''|'')" using nat_digits_spec by (auto simp: Itoa_def)
  then show False by (simp add: is_digit_def)
qed

context total_encoder
begin

lemma follow_read_spec:
  assumes "complete_key (rr_TupleKey req)" and "ms = read_matches s (rr_StoreId req) (filter_of (rr_TupleKey req))"
    and "int (length ms) < 2 ^ 63" and "k \<le> length ms" and "length ms - k < n"
    and "rr_ContinuationToken req = [] \<and> k = 0 \<or> enc_Decode e (rr_ContinuationToken req) = Inr (Itoa (int k) @ ''|'')"
  shows "follow_read n e s req = Some (map AsTuple (drop k ms))"
  using assms
proof (induction n arbitrary: k req)
  case (Suc n)
  define psize where "psize = (if rr_PageSize req > 0 then rr_PageSize req else DefaultPageSize)"
  have size: "0 < psize" "NewPaginationOptions (rr_PageSize req) tok = \<lparr>pg_size = psize, pg_from = tok\<rparr>" for tok
    by (simp_all add: psize_def NewPaginationOptions_def DefaultPageSize_def)
  obtain tok where tok: "tok = [] \<and> k = 0 \<or> tok = Itoa (int k)" "read_page_token e (rr_ContinuationToken req) = Inr tok"
    using Suc.prems(6) Itoa_no_separator [of "int k"]
    by (fastforce simp: read_page_token_def decode_token_def decode_empty Deserialize_def Cut_append)
  note page = ReadPage_spec [OF size(1), of k s "rr_StoreId req" "filter_of (rr_TupleKey req)" tok, folded Suc.prems(2),
      OF Suc.prems(4,3) tok(1)]
  have run: "ReadQuery_Execute e None req s =
      map_option (\<lambda>r. case r of Inl err \<Rightarrow> Inl (HandleError [] (InternalStore err))
        | Inr (tuples, contUlid) \<Rightarrow> if contUlid = [] then Inr (tuples, [])
            else rbind (encoding (rbind (Serialize contUlid []) (enc_Encode e))) (\<lambda>t. Inr (tuples, t)))
        (mem_ReadPage None s (rr_StoreId req) (filter_of (rr_TupleKey req)) \<lparr>pg_size = psize, pg_from = tok\<rparr>)"
    using Suc.prems(1)
    by (auto simp: ReadQuery_Execute_def tok(2) size(2) complete_key_def filter_of_def split: option.splits prod.splits)
  let ?k = "k + nat psize"
  show ?case
  proof (cases "?k < length ms")
    case True
    obtain token where token: "rbind (Serialize (Itoa (int ?k)) []) (enc_Encode e) = Inr token" "token \<noteq> []"
        "enc_Decode e token = Inr (Itoa (int ?k) @ ''|'' @ [])"
      by (rule serializes [of "Itoa (int ?k)" "[]"]) (simp_all only: Itoa_not_Nil Itoa_no_separator of_nat_0_le_iff not_False_eq_True)
    have "follow_read n e s (req\<lparr>rr_ContinuationToken := token\<rparr>) = Some (map AsTuple (drop ?k ms))"
      by (rule Suc.IH) (use Suc.prems True token size(1) in auto)
    moreover have "drop k ms = take (nat psize) (drop k ms) @ drop ?k ms"
      by (metis append_take_drop_id drop_drop add.commute)
    then have "map AsTuple (drop k ms) = map AsTuple (take (nat psize) (drop k ms)) @ map AsTuple (drop ?k ms)"
      by (metis map_append)
    moreover have "ReadQuery_Execute e None req s = Some (Inr (map AsTuple (take (nat psize) (drop k ms)), token))"
      by (simp only: run page True if_True if_False option.map sum.case prod.case Itoa_not_Nil token(1) encoding_def rbind.simps)
    ultimately show ?thesis
      using token(2) by (simp only: follow_read.simps option.case sum.case prod.case if_False option.map)
  next
    case False
    then have "take (nat psize) (drop k ms) = drop k ms" by simp
    with False show ?thesis by (simp add: run page)
  qed
qed simp

end

text \<open>
  C10: A client that follows the continuation tokens of the read command, plain or encrypted, with any page
  size, ends with exactly the tuples that match its key, in the order of the store.
\<close>

theorem read_command_pages:
  assumes "e = Base64Encoder \<or> e = TokenEncoder (GCMEncrypter c (Inr nonce)) Base64Encoder"
    and "aead_ok c" and "length nonce = ae_NonceSize c"
    and "complete_key (rr_TupleKey req)" and "rr_ContinuationToken req = []"
    and "ms = read_matches s (rr_StoreId req) (filter_of (rr_TupleKey req))"
    and "int (length ms) < 2 ^ 63" and "length ms < n"
  shows "follow_read n e s req = Some (map AsTuple ms)"
proof -
  have "total_encoder e"
    using assms(1) encrypted_encoder(2) [of c "Inr nonce" nonce, OF assms(2)] assms(3) base64.total_encoder_axioms by auto
  from total_encoder.follow_read_spec [OF this assms(4,6,7), of 0] assms(5,8) show ?thesis by simp
qed

definition sample_stored :: "unit memory_backend" where
  "sample_stored = snd (mem_Write (\<lambda>_. []) (\<lambda>n. n) 7 ''s'' []
     [NewTupleKey ''d:1'' ''v'' ''u:a'', NewTupleKey ''d:1'' ''w'' ''u:a'', NewTupleKey ''d:2'' ''v'' ''u:b''] []
     (New [WithMaxTuplesPerWrite 10, WithMaxTypesPerAuthorizationModel 10]))"

theorem read_command_pages_witness:
  "follow_read 4 Base64Encoder sample_stored
     \<lparr>rr_StoreId = ''s'', rr_TupleKey = None, rr_PageSize = 1, rr_ContinuationToken = []\<rparr> =
   Some (map AsTuple (mb_tuples sample_stored ''s''))"
proof -
  let ?req = "\<lparr>rr_StoreId = ''s'', rr_TupleKey = None, rr_PageSize = 1, rr_ContinuationToken = []\<rparr>"
  have ms: "read_matches sample_stored ''s'' (filter_of None) = mb_tuples sample_stored ''s''" by code_simp
  have "int (length (mb_tuples sample_stored ''s'')) = 3" by code_simp
  with ms show ?thesis
    using read_command_pages [of Base64Encoder "\<lparr>ae_NonceSize = 0, ae_Seal = (\<lambda>_ d. CHR ''t'' # d), ae_Open = (\<lambda>_ d. Inr (tl d))\<rparr>"
        "[]" ?req "mb_tuples sample_stored ''s''" sample_stored 4]
    by (simp add: complete_key_def aead_ok_def)
qed

section \<open>What the write command lets through\<close>

lemma collect_keys_spec:
  "collect_keys tuples tks = Inr tuples' \<longleftrightarrow> tuples' = rev (map TupleKeyToString tks) @ tuples \<and>
     distinct (map TupleKeyToString tks) \<and> set (map TupleKeyToString tks) \<inter> set tuples = {}"
  by (induction tks arbitrary: tuples) auto

lemma no_duplicates_iff:
  "validateNoDuplicatesAndCorrectSize s deletes writes = Inr () \<longleftrightarrow>
     distinct (map TupleKeyToString (deletes @ writes)) \<and> int (length (deletes @ writes)) \<le> MaxTuplesPerWrite s"
  by (auto simp: validateNoDuplicatesAndCorrectSize_def collect_keys_spec split: if_splits)

lemma validate_write_ok:
  "validate_write c typesys tk = Inr () \<longleftrightarrow> ValidateTupleForWrite (wc_inline c) (wc_cast c) typesys tk = Inr () \<and>
     validateNotImplicit tk = Inr () \<and> wc_size c (get_cond_context tk) \<le> wc_conditionContextByteLimit c"
  by (auto simp: validate_write_def Let_def split: sum.splits)

lemma validate_writes_ok:
  "validate_writes c s req = Inr () \<longleftrightarrow> (\<exists>model t g.
     mem_ReadAuthorizationModel s (wr_StoreId req) (wr_AuthorizationModelId req) = Inr model \<and>
     IsSchemaVersionSupported (am_schemaVersion model) \<and> TypeSystem_New (wc_build c) model = Inr (t, g) \<and>
     (\<forall>tk \<in> set (wr_Writes req). validate_write c t tk = Inr ()))"
  by (auto simp: validate_writes_def split: sum.splits prod.splits store_err.splits)

text \<open>
  The requests that are carried out: tuples that the model of the request admits, none implied by itself,
  contexts within the limit, users of deletes well formed, and no key twice.
\<close>

definition write_allowed :: "'g write_command \<Rightarrow> 'a memory_backend \<Rightarrow> write_request \<Rightarrow> bool" where
  "write_allowed c s req \<longleftrightarrow> wr_Deletes req @ wr_Writes req \<noteq> [] \<and>
     (wr_Writes req \<noteq> [] \<longrightarrow> (\<exists>model t g.
        mem_ReadAuthorizationModel s (wr_StoreId req) (wr_AuthorizationModelId req) = Inr model \<and>
        IsSchemaVersionSupported (am_schemaVersion model) \<and> TypeSystem_New (wc_build c) model = Inr (t, g) \<and>
        (\<forall>tk \<in> set (wr_Writes req). ValidateTupleForWrite (wc_inline c) (wc_cast c) t tk = Inr () \<and>
           (tk_object tk, tk_relation tk) \<noteq> SplitObjectRelation (tk_user tk) \<and>
           wc_size c (get_cond_context tk) \<le> wc_conditionContextByteLimit c))) \<and>
     (\<forall>tk \<in> set (wr_Deletes req). IsValidUser (tk_user tk)) \<and>
     distinct (map TupleKeyToString (wr_Deletes req @ wr_Writes req)) \<and>
     int (length (wr_Deletes req @ wr_Writes req)) \<le> MaxTuplesPerWrite s"

lemma validateWriteRequest_iff: "validateWriteRequest c s req = Inr () \<longleftrightarrow> write_allowed c s req"
proof -
  have implicit: "validateNotImplicit tk = Inr () \<longleftrightarrow> (tk_object tk, tk_relation tk) \<noteq> SplitObjectRelation (tk_user tk)" for tk
    by (auto simp: validateNotImplicit_def split: prod.split)
  have deletes: "validate_delete tk = Inr () \<longleftrightarrow> IsValidUser (tk_user tk)" for tk
    by (simp add: validate_delete_def)
  show ?thesis
    by (auto simp: validateWriteRequest_def write_allowed_def no_duplicates_iff validate_writes_ok validate_write_ok
        implicit deletes)
qed

lemma WriteCommand_cases:
  obtains (refused) err where "WriteCommand_Execute c ctx_string mk now req s = (Inl err, s)"
  | (written) opts where "write_allowed c s req"
      "fst (mem_Write ctx_string mk now (wr_StoreId req) (wr_Deletes req) (wr_Writes req) opts s) = Inr ()"
      "WriteCommand_Execute c ctx_string mk now req s =
        (Inr (), snd (mem_Write ctx_string mk now (wr_StoreId req) (wr_Deletes req) (wr_Writes req) opts s))"
proof (cases "rbind (validateWriteRequest c s req) (\<lambda>_. rbind (parseOptionOnDuplicate req) (\<lambda>dup.
    rbind (parseOptionOnMissing req) (\<lambda>miss. Inr (dup, miss))))")
  case (Inl err)
  then show thesis by (intro refused [of err]) (simp add: WriteCommand_Execute_def)
next
  case (Inr r)
  then obtain dup miss where r: "r = (dup, miss)" "write_allowed c s req"
    unfolding validateWriteRequest_iff [symmetric] by auto
  let ?o = "[WithOnMissingDelete miss, WithOnDuplicateInsert dup]"
  let ?w = "mem_Write ctx_string mk now (wr_StoreId req) (wr_Deletes req) (wr_Writes req) ?o s"
  show thesis
  proof (cases "fst ?w")
    case (Inl err)
    then have "snd ?w = s" by (intro Write_failed) simp
    with Inl Inr r(1) show thesis
      by (intro refused [of "write_error err"]) (auto simp: WriteCommand_Execute_def split: prod.split)
  next
    case ok: (Inr u)
    with Inr r show thesis
      by (intro written [of ?o]) (auto simp: WriteCommand_Execute_def split: prod.split)
  qed
qed


text \<open>
  C11: The command checks no more of a delete than its user, so that a key without object and relation
  passes; over the memory datastore it deletes every tuple of the user.
\<close>

theorem partial_delete_deletes_all:
  assumes "tuples_ok s store" and "full_user u" and "IsValidUser u" and "1 \<le> MaxTuplesPerWrite s"
    and "t \<in> set (stored s store)" and "tk_user t = u"
    and "req = \<lparr>wr_StoreId = store, wr_AuthorizationModelId = model, wr_Writes = [], wr_OnDuplicate = [],
      wr_Deletes = [NewTupleKey [] [] u], wr_OnMissing = []\<rparr>"
  shows "fst (WriteCommand_Execute c ctx_string mk now req s) = Inr () \<and>
    stored (snd (WriteCommand_Execute c ctx_string mk now req s)) store = filter (\<lambda>t. tk_user t \<noteq> u) (stored s store)"
proof -
  let ?k = "NewTupleKey [] [] u" and ?rs = "mb_tuples s store"
  let ?o = "[WithOnMissingDelete OnMissingDeleteError, WithOnDuplicateInsert OnDuplicateInsertError]"
  have wf: "\<forall>r \<in> set ?rs. wf_record r" using assms(1) by (simp add: tuples_ok_def)
  have match: "match r ?k \<longleftrightarrow> rec_User r = u" for r
    using assms(2) by (auto simp: match_def NewTupleKey_def full_user_def Let_def split: prod.split)
  have "find_record rs ?k \<noteq> None" if "r \<in> set rs" "rec_User r = u" for rs r
    using that by (induction rs) (auto simp: match)
  moreover obtain r where "r \<in> set ?rs" "rec_User r = u" using assms(5,6) wf by (auto simp: stored_def)
  ultimately have found: "find_record ?rs ?k \<noteq> None" by blast
  have k: "TupleKeyWithoutConditionToTupleKey ?k = ?k"
    by (simp add: TupleKeyWithoutConditionToTupleKey_def NewTupleKey_def)
  have ok: "fst (mem_Write ctx_string mk now store [?k] [] ?o s) = Inr ()"
    using Write_ok_iff [of ctx_string mk now store "[?k]" "[]" ?o s] found by (simp add: is_ok_iff)
  obtain dups where dups: "sanitize_deletes ?rs (NewTupleWriteOptions ?o) 0 [?k] = Inr dups"
      "stored (snd (mem_Write ctx_string mk now store [?k] [] ?o s)) store =
        (let kept = map stored_key (filter (\<lambda>r. \<not> delete_matched r dups 0 [?k]) ?rs) in kept @ fresh_writes kept [])"
    by (rule Write_kept [OF ok refl _ assms(1)]) simp_all
  from dups(1) found have "dups = []" by (simp add: k)
  with dups(2) have "stored (snd (mem_Write ctx_string mk now store [?k] [] ?o s)) store =
      map stored_key (filter (\<lambda>r. rec_User r \<noteq> u) ?rs)" by (simp add: Let_def k match)
  also have "\<dots> = filter (\<lambda>t. tk_user t \<noteq> u) (stored s store)"
  proof -
    have "filter (\<lambda>r. rec_User r \<noteq> u) ?rs = filter (\<lambda>r. tk_user (stored_key r) \<noteq> u) ?rs"
      using wf by (intro filter_cong) auto
    then show ?thesis by (simp only: stored_def filter_map o_def)
  qed
  finally have "stored (snd (mem_Write ctx_string mk now store [?k] [] ?o s)) store =
      filter (\<lambda>t. tk_user t \<noteq> u) (stored s store)" .
  moreover have "validateWriteRequest c s req = Inr ()"
    unfolding validateWriteRequest_iff write_allowed_def using assms(3,4) by (simp add: assms(7) NewTupleKey_def)
  ultimately show ?thesis
    using ok by (auto simp: WriteCommand_Execute_def assms(7) parseOptionOnDuplicate_def parseOptionOnMissing_def split: prod.split)
qed

definition sample_command :: "unit write_command" where
  "sample_command = \<lparr>wc_build = (\<lambda>_. Inr ()), wc_inline = (\<lambda>_. Inr ()), wc_cast = (\<lambda>_ _. Inr []), wc_size = (\<lambda>_. 0),
     wc_conditionContextByteLimit = 100\<rparr>"

definition sample_delete :: "string \<Rightarrow> write_request" where
  "sample_delete user = \<lparr>wr_StoreId = ''s'', wr_AuthorizationModelId = [], wr_Writes = [], wr_OnDuplicate = [],
     wr_Deletes = [NewTupleKey ''d:1'' ''w'' user], wr_OnMissing = []\<rparr>"


theorem partial_delete_deletes_all_witness:
  "stored (snd (WriteCommand_Execute sample_command (\<lambda>_. []) (\<lambda>n. n) 9
     \<lparr>wr_StoreId = ''s'', wr_AuthorizationModelId = [], wr_Writes = [], wr_OnDuplicate = [],
      wr_Deletes = [NewTupleKey [] [] ''u:a''], wr_OnMissing = []\<rparr> sample_stored)) ''s'' = [NewTupleKey ''d:2'' ''v'' ''u:b'']"
proof -
  have ok: "tuples_ok sample_stored ''s''" and user: "full_user ''u:a''" "IsValidUser ''u:a''" and
    limit: "1 \<le> MaxTuplesPerWrite sample_stored" by code_simp+
  have held: "stored sample_stored ''s'' = [NewTupleKey ''d:1'' ''v'' ''u:a'', NewTupleKey ''d:1'' ''w'' ''u:a'',
      NewTupleKey ''d:2'' ''v'' ''u:b'']" by code_simp
  from partial_delete_deletes_all [where c = sample_command and ctx_string = "\<lambda>_. []" and mk = "\<lambda>n. n" and now = 9
      and model = "[]", OF ok user limit, of "NewTupleKey ''d:1'' ''v'' ''u:a''", OF _ _ refl]
  show ?thesis by (simp add: held NewTupleKey_def)
qed

end
