(* ===== verification/Server_State.thy ===== *)
theory Server_State
  imports Commands Check_Decides
begin

text \<open>
  The states that a server can bring its datastore to through its commands, and what holds in all of
  them: every model is valid, every tuple was admitted by a model of its store, and the datastore is
  consistent. It is what the checks rest on.
\<close>

section \<open>Reachable states\<close>

text \<open>
  A step is a command, carried out or refused. Identifiers are ULIDs that the server makes, and the
  validation of requests asks for at least one type definition; that identifiers are new, and that a
  model has a type, is all that is relied on.
\<close>

inductive server_step :: "(condition \<Rightarrow> (string, unit) result) \<Rightarrow> 'g write_command \<Rightarrow> (pb_struct option \<Rightarrow> string) \<Rightarrow>
    assertion memory_backend \<Rightarrow> assertion memory_backend \<Rightarrow> bool" for compile c ctx_string where
  server_write: "server_step compile c ctx_string s (snd (WriteCommand_Execute c ctx_string mk now req s))"
| server_model: "\<lbrakk>\<And>tm. mb_models s (mr_StoreId req) = Some tm \<Longrightarrow> ulid \<notin> fst ` set tm; ulid \<noteq> []; mr_TypeDefinitions req \<noteq> []\<rbrakk> \<Longrightarrow>
    server_step compile c ctx_string s
      (snd (WriteAuthorizationModelCommand_Execute compile (wc_build c) model_size maxSize ulid req s))"
| server_assertions: "server_step compile c ctx_string s
    (snd (WriteAssertionsCommand_Execute c assertion_size maxAssertionSize store modelID assertions s))"
| server_create: "server_step compile c ctx_string s (snd (CreateStoreCommand_Execute now ulid name s))"
| server_delete: "server_step compile c ctx_string s (snd (DeleteStoreCommand_Execute store s))"

inductive server_reachable :: "(condition \<Rightarrow> (string, unit) result) \<Rightarrow> 'g write_command \<Rightarrow> (pb_struct option \<Rightarrow> string) \<Rightarrow>
    assertion memory_backend \<Rightarrow> bool" for compile c ctx_string where
  server_new: "server_reachable compile c ctx_string (New [WithMaxTuplesPerWrite n, WithMaxTypesPerAuthorizationModel m])"
| server_next: "server_reachable compile c ctx_string s \<Longrightarrow> server_step compile c ctx_string s s' \<Longrightarrow>
    server_reachable compile c ctx_string s'"

section \<open>The invariant\<close>

definition stored_models :: "'a memory_backend \<Rightarrow> string \<Rightarrow> authorization_model set" where
  "stored_models s store = (case mb_models s store of None \<Rightarrow> {} | Some tm \<Rightarrow> (\<lambda>p. me_model (snd p)) ` set tm)"

definition admitted_by :: "(condition \<Rightarrow> (string, unit) result) \<Rightarrow> 'g write_command \<Rightarrow> authorization_model \<Rightarrow> tuple_key \<Rightarrow> bool" where
  "admitted_by compile c model tk \<longleftrightarrow> (\<exists>t g tk'. NewAndValidate compile (wc_build c) model = Inr (t, g) \<and>
     ValidateTupleForWrite (wc_inline c) (wc_cast c) t tk' = Inr () \<and>
     (tk_object tk', tk_relation tk') \<noteq> SplitObjectRelation (tk_user tk') \<and>
     wc_size c (get_cond_context tk') \<le> wc_conditionContextByteLimit c \<and> tk = normal_key tk')"

definition server_ok :: "(condition \<Rightarrow> (string, unit) result) \<Rightarrow> 'g write_command \<Rightarrow> 'a memory_backend \<Rightarrow> bool" where
  "server_ok compile c s \<longleftrightarrow> backend_ok s \<and>
     (\<forall>store. \<forall>model \<in> stored_models s store. is_ok (NewAndValidate compile (wc_build c) model) \<and>
        am_id model \<noteq> [] \<and> am_typeDefinitions model \<noteq> []) \<and>
     (\<forall>store. \<forall>tk \<in> set (stored s store). \<exists>model \<in> stored_models s store. admitted_by compile c model tk)"

lemma NewAndValidate_facts:
  assumes "NewAndValidate compile build model = Inr (t, g)"
  shows "t = newWithoutGraphs model" and "IsSchemaVersionSupported (ts_schemaVersion t)" and "build model = Inr g"
proof -
  note v = NewAndValidate_Inr [OF assms]
  show t: "t = newWithoutGraphs model" using validateModel_sound [OF v(1)] by simp
  show "IsSchemaVersionSupported (ts_schemaVersion t)"
    using v(1) t by (auto simp: validateModel_def Let_def split: if_splits)
  show "build model = Inr g" by (rule v(2))
qed

lemma TypeSystem_New_validated:
  assumes "NewAndValidate compile build model = Inr (t, g)" and "TypeSystem_New build model = Inr (t', g')"
  shows "t' = t" and "g' = g"
  using NewAndValidate_facts [OF assms(1)] assms(2) by (auto simp: TypeSystem_New_def attachGraphs_def)

lemma validated_parts:
  assumes "ValidateUserObjectRelation t tk = Inr ()" and "IsSchemaVersionSupported (ts_schemaVersion t)"
  shows "full_form (tk_user tk)" and "IsValidObject (tk_object tk)" and "full_key tk"
proof -
  have v: "user_defined t (tk_user tk)" "object_relation_defined t tk"
    using ValidateUserObjectRelation_iff [OF assms(2)] assms(1) by blast+
  then show form: "full_form (tk_user tk)" and ob: "IsValidObject (tk_object tk)"
    by (auto simp: user_defined_def object_relation_defined_def full_form_def)
  have "tk_relation tk \<noteq> []" using v(2) by (auto simp: object_relation_defined_def IsValidRelation_iff)
  with full_form_user [OF form] valid_object_full [OF ob] show "full_key tk" by (simp add: full_key_def)
qed

lemma write_validated_key:
  assumes "ValidateTupleForWrite inline cast t tk = Inr ()" and "IsSchemaVersionSupported (ts_schemaVersion t)"
  shows "full_key tk" and "full_form (tk_user tk)"
  using validated_parts [OF _ assms(2), of tk] assms(1) by (auto simp: ValidateTupleForWrite_def split: sum.splits)

lemma fresh_writes_from: "set (fresh_writes ts ws) \<subseteq> normal_key ` set ws"
  by (induction ws arbitrary: ts) auto

lemma read_stored_model: "mem_ReadAuthorizationModel s store modelID = Inr model \<Longrightarrow> model \<in> stored_models s store"
proof -
  have "find_latest es = Some model \<Longrightarrow> model \<in> (\<lambda>p. me_model (snd p)) ` set es" for es
    by (induction es rule: find_latest.induct) (auto split: if_splits)
  then show "mem_ReadAuthorizationModel s store modelID = Inr model \<Longrightarrow> model \<in> stored_models s store"
    by (force simp: mem_ReadAuthorizationModel_def findAuthorizationModelByID_def stored_models_def
        split: option.splits if_splits dest: map_of_SomeD)
qed

text \<open>The commands, in turn.\<close>

lemma write_keeps:
  assumes ok: "server_ok compile c s"
  shows "server_ok compile c (snd (WriteCommand_Execute c ctx_string mk now req s))"
proof (cases rule: WriteCommand_cases [of c ctx_string mk now req s])
  case (refused err)
  with ok show ?thesis by simp
next
  case (written opts)
  let ?w = "mem_Write ctx_string mk now (wr_StoreId req) (wr_Deletes req) (wr_Writes req) opts s"
  have models: "mb_models (snd ?w) = mb_models s" by (rule Write_others)
  then have models': "stored_models (snd ?w) store = stored_models s store" for store by (simp add: stored_models_def)
  have new: "full_key tk \<and> (\<exists>model \<in> stored_models s (wr_StoreId req). admitted_by compile c model (normal_key tk))"
    if tk: "tk \<in> set (wr_Writes req)" for tk
  proof -
    from tk written(1) obtain model t g where m: "mem_ReadAuthorizationModel s (wr_StoreId req) (wr_AuthorizationModelId req) = Inr model"
        "TypeSystem_New (wc_build c) model = Inr (t, g)" and v: "ValidateTupleForWrite (wc_inline c) (wc_cast c) t tk = Inr ()"
        "(tk_object tk, tk_relation tk) \<noteq> SplitObjectRelation (tk_user tk)"
        "wc_size c (get_cond_context tk) \<le> wc_conditionContextByteLimit c"
      unfolding write_allowed_def by fastforce
    note stored = read_stored_model [OF m(1)]
    with ok have "is_ok (NewAndValidate compile (wc_build c) model)" unfolding server_ok_def by blast
    then obtain t' g' where valid: "NewAndValidate compile (wc_build c) model = Inr (t', g')"
      by (auto simp: is_ok_iff)
    note same = TypeSystem_New_validated [OF valid m(2)]
    have "admitted_by compile c model (normal_key tk)"
      unfolding admitted_by_def using valid v same(1) by blast
    with write_validated_key(1) [OF v(1)] same(1) NewAndValidate_facts(2) [OF valid] stored show ?thesis by blast
  qed
  then have full: "\<forall>tk \<in> set (wr_Writes req). full_key tk" by blast
  have "\<exists>model \<in> stored_models s store. admitted_by compile c model tk" if tk: "tk \<in> set (stored (snd ?w) store)" for tk store
  proof (cases "store = wr_StoreId req")
    case True
    have held: "tuples_ok s (wr_StoreId req)" using ok by (simp add: server_ok_def backend_ok_def)
    obtain dups where "stored (snd ?w) (wr_StoreId req) =
        (let kept = map stored_key (filter (\<lambda>r. \<not> delete_matched r dups 0 (wr_Deletes req)) (mb_tuples s (wr_StoreId req)))
         in kept @ fresh_writes kept (wr_Writes req))"
      using Write_kept [OF written(2) refl full held] by metis
    then have "set (stored (snd ?w) (wr_StoreId req)) \<subseteq> set (stored s (wr_StoreId req)) \<union> normal_key ` set (wr_Writes req)"
      using fresh_writes_from by (simp add: Let_def stored_def) (blast intro: rev_image_eqI)
    with tk True have "tk \<in> set (stored s store) \<or> tk \<in> normal_key ` set (wr_Writes req)" by blast
    with ok new True show ?thesis unfolding server_ok_def by blast
  next
    case False
    then have "stored (snd ?w) store = stored s store" by (simp add: stored_def Write_other)
    with tk ok show ?thesis by (simp add: server_ok_def)
  qed
  moreover have "backend_ok (snd ?w)"
    using ok full by (simp add: server_ok_def backend_ok_def Write_tuples_ok Write_others)
  ultimately show ?thesis using ok unfolding written(3) by (simp add: server_ok_def models')
qed

lemma set_AList_update_new:
  "distinct (map fst xs) \<Longrightarrow> k \<notin> fst ` set xs \<Longrightarrow> set (AList.update k v xs) = insert (k, v) (set xs)"
  unfolding set_AList_update by force

lemma write_model_cases:
  obtains "snd (WriteAuthorizationModelCommand_Execute compile build model_size maxSize ulid req s) = s"
  | model where "am_id model = ulid" "am_typeDefinitions model = mr_TypeDefinitions req" "is_ok (NewAndValidate compile build model)"
      "snd (WriteAuthorizationModelCommand_Execute compile build model_size maxSize ulid req s) =
        mem_WriteAuthorizationModel (mr_StoreId req) model s"
proof -
  let ?r = "WriteAuthorizationModelCommand_Execute compile build model_size maxSize ulid req s"
  let ?model = "\<lparr>am_id = ulid, am_schemaVersion = (if mr_SchemaVersion req = [] then SchemaVersion1_1 else mr_SchemaVersion req),
    am_typeDefinitions = mr_TypeDefinitions req, am_conditions = mr_Conditions req\<rparr>"
  have "snd ?r = s \<or> is_ok (NewAndValidate compile build ?model) \<and>
      snd ?r = mem_WriteAuthorizationModel (mr_StoreId req) ?model s"
    by (simp add: WriteAuthorizationModelCommand_Execute_def Let_def split: sum.split)
  then show thesis using that(1) that(2) [of ?model] by force
qed

lemma model_keeps:
  assumes ok: "server_ok compile c s" and new: "\<And>tm. mb_models s (mr_StoreId req) = Some tm \<Longrightarrow> ulid \<notin> fst ` set tm"
    and nonempty: "ulid \<noteq> []" "mr_TypeDefinitions req \<noteq> []"
  shows "server_ok compile c
    (snd (WriteAuthorizationModelCommand_Execute compile (wc_build c) model_size maxSize ulid req s))"
proof -
  show ?thesis
  proof (cases rule: write_model_cases [of compile "wc_build c" model_size maxSize ulid req s])
    case (2 model)
    let ?s = "mem_WriteAuthorizationModel (mr_StoreId req) model s"
    have backend: "backend_ok ?s"
      using backend_ok_step [OF step_model] ok by (auto simp: server_ok_def)
    have tuples: "stored ?s store = stored s store" for store
      by (simp add: stored_def mem_WriteAuthorizationModel_def Let_def)
    have models: "stored_models ?s store = (if store = mr_StoreId req then insert model (stored_models s store)
        else stored_models s store)" for store
    proof (cases "store = mr_StoreId req")
      case True
      define tm where "tm = (case mb_models s (mr_StoreId req) of None \<Rightarrow> [] | Some tm \<Rightarrow> tm)"
      let ?old = "map (\<lambda>(id, entry). (id, entry\<lparr>me_latest := False\<rparr>)) tm"
      have keys: "map fst ?old = map fst tm" by (simp add: case_prod_beta comp_def)
      have distinct: "distinct (map fst tm)"
        using ok unfolding tm_def server_ok_def backend_ok_def models_ok_def
        by (cases "mb_models s (mr_StoreId req)") auto
      have "am_id model \<notin> fst ` set tm"
      proof (cases "mb_models s (mr_StoreId req)")
        case (Some a)
        then have "tm = a" by (simp add: tm_def)
        with new [OF Some] 2(1) show ?thesis by simp
      qed (simp add: tm_def)
      then have "am_id model \<notin> fst ` set ?old" using arg_cong [OF keys, of set] unfolding set_map by argo
      from set_AList_update_new [OF distinct [folded keys] this]
      have "set (AList.update (am_id model) \<lparr>me_model = model, me_latest = True\<rparr> ?old) =
          insert (am_id model, \<lparr>me_model = model, me_latest = True\<rparr>) (set ?old)" .
      then have "stored_models ?s store = insert model ((\<lambda>p. me_model (snd p)) ` set tm)"
        using True by (simp add: stored_models_def mem_WriteAuthorizationModel_def Let_def tm_def [symmetric] image_image case_prod_beta)
      moreover have "stored_models s store = (\<lambda>p. me_model (snd p)) ` set tm"
        using True by (simp add: stored_models_def tm_def split: option.split)
      ultimately show ?thesis using True by simp
    qed (simp add: stored_models_def mem_WriteAuthorizationModel_def Let_def)
    from 2(2,3) nonempty ok backend show ?thesis unfolding 2(4) server_ok_def tuples models by (auto simp: 2(1) split: if_splits)
  qed (use ok in simp)
qed

lemma others_keep:
  assumes ok: "server_ok compile c s"
  shows "server_ok compile c (snd (CreateStoreCommand_Execute now ulid name s))"
    and "server_ok compile c (snd (DeleteStoreCommand_Execute store s))"
proof -
  have same: "server_ok compile c s'" if "backend_ok s'" "mb_models s' = mb_models s" "mb_tuples s' = mb_tuples s" for s'
    using ok that by (simp add: server_ok_def stored_models_def stored_def)
  show "server_ok compile c (snd (CreateStoreCommand_Execute now ulid name s))"
  proof (rule same)
    let ?st = "\<lparr>store_id = ulid, store_name = name, store_created_at = 0, store_updated_at = 0\<rparr> :: fga_store"
    have snd: "snd (CreateStoreCommand_Execute now ulid name s) = snd (mem_CreateStore now ?st s)"
      by (auto simp: CreateStoreCommand_Execute_def split: prod.split sum.split)
    show "backend_ok (snd (CreateStoreCommand_Execute now ulid name s))"
      unfolding snd using backend_ok_step [OF step_create] ok by (auto simp: server_ok_def)
  qed (auto simp: CreateStoreCommand_Execute_def mem_CreateStore_def Let_def split: prod.split sum.split option.split)
  show "server_ok compile c (snd (DeleteStoreCommand_Execute store s))"
  proof (rule same)
    have "\<exists>i. snd (DeleteStoreCommand_Execute store s) \<in> {s, mem_DeleteStore i s}"
      by (auto simp: DeleteStoreCommand_Execute_def split: sum.split store_err.split)
    then show "backend_ok (snd (DeleteStoreCommand_Execute store s))"
      using backend_ok_step [OF step_delete] ok by (auto simp: server_ok_def)
  qed (auto simp: DeleteStoreCommand_Execute_def mem_DeleteStore_def split: sum.split store_err.split)
qed

lemma assertions_keep:
  assumes ok: "server_ok compile c s"
  shows "server_ok compile c (snd (WriteAssertionsCommand_Execute c assertion_size maxAssertionSize store modelID assertions s))"
proof -
  have "snd (WriteAssertionsCommand_Execute c assertion_size maxAssertionSize store modelID assertions s) \<in>
      {s, mem_WriteAssertions store modelID assertions s}"
    by (auto simp: WriteAssertionsCommand_Execute_def split: sum.split)
  moreover have "server_ok compile c (mem_WriteAssertions store modelID assertions s)"
    using ok backend_ok_step [OF step_assertions, of s]
    by (auto simp: server_ok_def stored_models_def stored_def mem_WriteAssertions_def)
  ultimately show ?thesis using ok by auto
qed

lemma step_keeps: "server_step compile c ctx_string s s' \<Longrightarrow> server_ok compile c s \<Longrightarrow> server_ok compile c s'"
  by (induction rule: server_step.induct) (simp_all add: write_keeps model_keeps others_keep assertions_keep)

lemma reachable_ok: "server_reachable compile c ctx_string s \<Longrightarrow> server_ok compile c s"
proof (induction rule: server_reachable.induct)
  case (server_new n m)
  have "stored (New [WithMaxTuplesPerWrite n, WithMaxTypesPerAuthorizationModel m] :: assertion memory_backend) store = []" for store
    by (simp add: stored_def New_def WithMaxTuplesPerWrite_def WithMaxTypesPerAuthorizationModel_def)
  moreover have "stored_models (New [WithMaxTuplesPerWrite n, WithMaxTypesPerAuthorizationModel m] :: assertion memory_backend) store = {}" for store
    by (simp add: stored_models_def New_def WithMaxTuplesPerWrite_def WithMaxTypesPerAuthorizationModel_def)
  ultimately show ?case using backend_ok_New by (simp add: server_ok_def)
qed (rule step_keeps)

text \<open>
  C5: in every state the commands can bring the datastore to, whatever they were asked, the datastore
  is consistent, every model of every store is valid and has an identifier and a type, and every tuple of every store was admitted by
  some model of that store, with its condition's context within the limit, and is not implied by the
  model alone; deletes, refused commands and new models take none of it away.
\<close>

theorem server_invariant:
  assumes "server_reachable compile c ctx_string s"
  shows "backend_ok s \<and>
    (\<forall>store. \<forall>model \<in> stored_models s store. is_ok (NewAndValidate compile (wc_build c) model) \<and>
       am_id model \<noteq> [] \<and> am_typeDefinitions model \<noteq> []) \<and>
    (\<forall>store. \<forall>tk \<in> set (stored s store). \<exists>model \<in> stored_models s store. \<exists>t g tk'.
       NewAndValidate compile (wc_build c) model = Inr (t, g) \<and>
       ValidateTupleForWrite (wc_inline c) (wc_cast c) t tk' = Inr () \<and>
       (tk_object tk', tk_relation tk') \<noteq> SplitObjectRelation (tk_user tk') \<and>
       wc_size c (get_cond_context tk') \<le> wc_conditionContextByteLimit c \<and> tk = normal_key tk')"
  using reachable_ok [OF assms] by (simp add: server_ok_def admitted_by_def)

text \<open>A server with one model and one tuple written under it.\<close>

definition sample_server :: "model_graph write_command" where
  "sample_server = \<lparr>wc_build = build_graph (\<lambda>_. ''00''), wc_inline = wc_inline sample_command, wc_cast = wc_cast sample_command,
     wc_size = wc_size sample_command, wc_conditionContextByteLimit = wc_conditionContextByteLimit sample_command\<rparr>"

definition sample_opened :: "userset \<Rightarrow> assertion memory_backend" where
  "sample_opened can = snd (WriteAuthorizationModelCommand_Execute (\<lambda>_. Inr ()) (wc_build sample_server) (\<lambda>_. 1) 100 ''01''
     \<lparr>mr_StoreId = ''s'', mr_SchemaVersion = [], mr_TypeDefinitions = am_typeDefinitions (sample_check_model can),
      mr_Conditions = []\<rparr> (New [WithMaxTuplesPerWrite 10, WithMaxTypesPerAuthorizationModel 10]))"

definition sample_served :: "userset \<Rightarrow> assertion memory_backend" where
  "sample_served can = snd (WriteCommand_Execute sample_server (\<lambda>_. []) (\<lambda>n. n) 7
     \<lparr>wr_StoreId = ''s'', wr_AuthorizationModelId = ''01'', wr_Writes = [NewTupleKey ''d:1'' ''v'' ''g:x#m''],
      wr_OnDuplicate = [], wr_Deletes = [], wr_OnMissing = []\<rparr> (sample_opened can))"

lemma sample_served_reachable: "server_reachable (\<lambda>_. Inr ()) sample_server (\<lambda>_. []) (sample_served can)"
  unfolding sample_served_def sample_opened_def
  by (rule server_next [OF server_next [OF server_new server_model] server_write])
    (simp_all add: New_def WithMaxTuplesPerWrite_def WithMaxTypesPerAuthorizationModel_def sample_check_model_def)

theorem server_invariant_witness:
  "stored (sample_served sample_unbanned) ''s'' = [NewTupleKey ''d:1'' ''v'' ''g:x#m''] \<and>
   (\<exists>model \<in> stored_models (sample_served sample_unbanned) ''s''. is_ok (NewAndValidate (\<lambda>_. Inr ()) (wc_build sample_server) model))"
proof -
  have held: "stored (sample_served sample_unbanned) ''s'' = [NewTupleKey ''d:1'' ''v'' ''g:x#m'']" by code_simp
  with server_invariant [OF sample_served_reachable] show ?thesis by fastforce
qed

text \<open>What a check needs of the tuples is there: keys without empty fields and users of a known form.\<close>

lemma reachable_users:
  assumes "server_reachable compile c ctx_string s" and "tk \<in> set (stored s store)"
  shows "full_form (tk_user tk)"
proof -
  from reachable_ok [OF assms(1)] assms(2) obtain model where "admitted_by compile c model tk"
    unfolding server_ok_def by blast
  then obtain t g tk' where valid: "NewAndValidate compile (wc_build c) model = Inr (t, g)"
    and tk': "ValidateTupleForWrite (wc_inline c) (wc_cast c) t tk' = Inr ()" "tk = normal_key tk'"
    unfolding admitted_by_def by blast
  show ?thesis using write_validated_key(2) [OF tk'(1) NewAndValidate_facts(2) [OF valid]] tk'(2) by simp
qed

lemma reachable_data_ok:
  assumes "server_reachable compile c ctx_string s" and "contextual_ok (cr_tuples rd) (set (stored s store))"
    and "\<forall>tk \<in> set (cr_tuples rd). full_form (tk_user tk)"
  shows "data_ok rd s store"
  using reachable_ok [OF assms(1)] reachable_users [OF assms(1)] assms(2,3)
  by (auto simp: data_ok_def known_tuples_def server_ok_def backend_ok_def)

end
