(* ===== verification/Typesystem_Resolver.thy ===== *)
theory Typesystem_Resolver
  imports Server_State Cache_Keys
begin

text \<open>
  The resolver of type systems (\<open>pkg/typesystem/resolver.go\<close>): a model is read from the datastore and
  validated once, and then kept in a cache. Its answers over the states of a server, with the commands,
  other lookups and evictions in between.
\<close>

section \<open>The resolver\<close>

datatype resolve_error =
    ErrModelNotFound
  | FailedToFindLatest store_err
  | FailedToRead store_err
  | ErrInvalidModel ts_error

text \<open>
  The cache keeps what it likes for as long as it likes; a type system comes with its graph. A ULID is
  parsed by a library. Calls that read the same at the same time share one read.
\<close>

type_synonym 'g ts_cache = "string \<Rightarrow> (type_system \<times> 'g) option"

definition typesystem_key :: "string \<Rightarrow> string \<Rightarrow> string" where
  "typesystem_key storeID modelID = EncodeString modelID (EncodeString storeID (EncodeString ''TS'' []))"

definition MemoizedTypesystemResolverFunc :: "(condition \<Rightarrow> (string, unit) result) \<Rightarrow>
    (authorization_model \<Rightarrow> (ts_error, 'g) result) \<Rightarrow> (string \<Rightarrow> bool) \<Rightarrow> 'a memory_backend \<Rightarrow> string \<Rightarrow> string \<Rightarrow>
    'g ts_cache \<Rightarrow> (resolve_error, type_system \<times> 'g) result \<times> 'g ts_cache" where
  "MemoizedTypesystemResolverFunc compile build is_ulid datastore storeID modelID cache =
     (if modelID \<noteq> [] \<and> \<not> is_ulid modelID then (Inl ErrModelNotFound, cache)
      else
       (case (if modelID = [] then
                (case mem_FindLatestAuthorizationModel datastore storeID of
                   Inl err \<Rightarrow> Inl (if err = ErrNotFound then ErrModelNotFound else FailedToFindLatest err)
                 | Inr v \<Rightarrow> Inr (Some v))
              else Inr None) of
          Inl err \<Rightarrow> (Inl err, cache)
        | Inr model \<Rightarrow>
           (let modelID = (case model of None \<Rightarrow> modelID | Some m \<Rightarrow> am_id m);
                key = typesystem_key storeID modelID
            in case cache key of Some item \<Rightarrow> (Inr item, cache)
               | None \<Rightarrow>
                  (case (case model of Some m \<Rightarrow> Inr m
                         | None \<Rightarrow> (case mem_ReadAuthorizationModel datastore storeID modelID of
                             Inl err \<Rightarrow> Inl (if err = ErrNotFound then ErrModelNotFound else FailedToRead err)
                           | Inr v \<Rightarrow> Inr v)) of
                     Inl err \<Rightarrow> (Inl err, cache)
                   | Inr model \<Rightarrow>
                      (case NewAndValidate compile build model of
                         Inl err \<Rightarrow> (Inl (ErrInvalidModel err), cache)
                       | Inr typesys \<Rightarrow> (Inr typesys, cache(key \<mapsto> typesys)))))))"

text \<open>\<open>Server.resolveTypesystem\<close>.\<close>

definition resolveTypesystem :: "(condition \<Rightarrow> (string, unit) result) \<Rightarrow>
    (authorization_model \<Rightarrow> (ts_error, 'g) result) \<Rightarrow> (string \<Rightarrow> bool) \<Rightarrow> 'a memory_backend \<Rightarrow> string \<Rightarrow> string \<Rightarrow>
    'g ts_cache \<Rightarrow> (server_error, type_system \<times> 'g) result \<times> 'g ts_cache" where
  "resolveTypesystem compile build is_ulid datastore storeID modelID cache =
     (case MemoizedTypesystemResolverFunc compile build is_ulid datastore storeID modelID cache of
        (Inl ErrModelNotFound, cache) \<Rightarrow>
          (Inl (if modelID = [] then SE_LatestAuthorizationModelNotFound storeID
                else SE_AuthorizationModelNotFound modelID), cache)
      | (Inl (ErrInvalidModel err), cache) \<Rightarrow> (Inl (SE_ValidationError (CauseModel err)), cache)
      | (Inl (FailedToFindLatest err), cache) \<Rightarrow> (Inl (HandleError [] (InternalStore err)), cache)
      | (Inl (FailedToRead err), cache) \<Rightarrow> (Inl (HandleError [] (InternalStore err)), cache)
      | (Inr typesys, cache) \<Rightarrow> (Inr typesys, cache))"

section \<open>A server with its cache\<close>

inductive served :: "(condition \<Rightarrow> (string, unit) result) \<Rightarrow> 'g write_command \<Rightarrow> (pb_struct option \<Rightarrow> string) \<Rightarrow>
    (string \<Rightarrow> bool) \<Rightarrow> assertion memory_backend \<Rightarrow> 'g ts_cache \<Rightarrow> bool" for compile c ctx_string is_ulid where
  served_new: "served compile c ctx_string is_ulid
     (New [WithMaxTuplesPerWrite n, WithMaxTypesPerAuthorizationModel m]) Map.empty"
| served_command: "\<lbrakk>served compile c ctx_string is_ulid s cache; server_step compile c ctx_string s s'\<rbrakk> \<Longrightarrow>
     served compile c ctx_string is_ulid s' cache"
| served_lookup: "served compile c ctx_string is_ulid s cache \<Longrightarrow> served compile c ctx_string is_ulid s
     (snd (MemoizedTypesystemResolverFunc compile (wc_build c) is_ulid s storeID modelID cache))"
| served_evict: "served compile c ctx_string is_ulid s cache \<Longrightarrow> served compile c ctx_string is_ulid s (cache |` kept)"

lemma served_reachable: "served compile c ctx_string is_ulid s cache \<Longrightarrow> server_reachable compile c ctx_string s"
  by (induction rule: served.induct) (auto intro: server_reachable.intros)

section \<open>A model never changes\<close>

definition model_at :: "'a memory_backend \<Rightarrow> string \<Rightarrow> string \<Rightarrow> authorization_model option" where
  "model_at s store ident = Option.bind (mb_models s store) (\<lambda>tm. map_option me_model (map_of tm ident))"

lemma model_at_write:
  assumes "model_at s store ident = Some model" and "\<And>tm. mb_models s store' = Some tm \<Longrightarrow> am_id new \<notin> fst ` set tm"
  shows "model_at (mem_WriteAuthorizationModel store' new s) store ident = Some model"
proof (cases "store = store'")
  case True
  with assms(1) obtain tm e where tm: "mb_models s store' = Some tm" "map_of tm ident = Some e" "me_model e = model"
    by (auto simp: model_at_def bind_eq_Some_conv)
  with assms(2) [OF tm(1)] have "ident \<noteq> am_id new" using map_of_SomeD [OF tm(2)] by force
  with tm True show ?thesis
    by (simp add: model_at_def mem_WriteAuthorizationModel_def Let_def update_conv' map_of_map)
next
  case False
  with assms(1) show ?thesis by (simp add: model_at_def mem_WriteAuthorizationModel_def Let_def)
qed

lemma model_at_step:
  assumes "server_step compile c ctx_string s s'" and "model_at s store ident = Some model"
  shows "model_at s' store ident = Some model"
  using assms
proof (induction rule: server_step.induct)
  case (server_write s mk now req)
  have "mb_models (snd (WriteCommand_Execute c ctx_string mk now req s)) = mb_models s"
    by (cases rule: WriteCommand_cases [of c ctx_string mk now req s]) (simp_all add: Write_others)
  with server_write show ?case by (simp add: model_at_def)
next
  case (server_model s req ulid model_size maxSize)
  show ?case
  proof (cases rule: write_model_cases [of compile "wc_build c" model_size maxSize ulid req s])
    case (2 model)
    show ?thesis unfolding 2(4) by (rule model_at_write [OF server_model.prems]) (use server_model.hyps(1) 2(1) in simp)
  qed (use server_model in simp)
next
  case (server_assertions s assertion_size maxAssertionSize store' modelID assertions)
  then show ?case
    by (auto simp: WriteAssertionsCommand_Execute_def model_at_def mem_WriteAssertions_def split: sum.split)
next
  case (server_create s now ulid name)
  then show ?case
    by (auto simp: CreateStoreCommand_Execute_def mem_CreateStore_def model_at_def Let_def split: prod.split sum.split option.split)
next
  case (server_delete s store')
  then show ?case
    by (auto simp: DeleteStoreCommand_Execute_def mem_DeleteStore_def model_at_def split: sum.split store_err.split)
qed

section \<open>The cache is transparent\<close>

definition ts_cache_ok :: "(condition \<Rightarrow> (string, unit) result) \<Rightarrow> (authorization_model \<Rightarrow> (ts_error, 'g) result) \<Rightarrow>
    'a memory_backend \<Rightarrow> 'g ts_cache \<Rightarrow> bool" where
  "ts_cache_ok compile build s cache \<longleftrightarrow> (\<forall>key item. cache key = Some item \<longrightarrow>
     (\<exists>store ident model. key = typesystem_key store ident \<and> ident \<noteq> [] \<and> model_at s store ident = Some model \<and>
        am_typeDefinitions model \<noteq> [] \<and> NewAndValidate compile build model = Inr item))"

lemma typesystem_key_inj: "typesystem_key st i = typesystem_key st' i' \<longleftrightarrow> st = st' \<and> i = i'"
proof -
  have "typesystem_key st i = key_parts [''TS'', st, i] None" for st i
    by (simp add: typesystem_key_def key_parts_def enc_strings del: WriteTo.simps)
  then show ?thesis using key_parts_inj [of None None] by simp
qed

lemma model_at_facts:
  assumes "server_ok compile c s"
  shows "ident \<noteq> [] \<Longrightarrow> am_typeDefinitions model \<noteq> [] \<Longrightarrow> model_at s store ident = Some model \<Longrightarrow>
      mem_ReadAuthorizationModel s store ident = Inr model"
    and "ident \<noteq> [] \<Longrightarrow> mem_ReadAuthorizationModel s store ident = Inr model \<Longrightarrow> model_at s store ident = Some model"
    and "mem_FindLatestAuthorizationModel s store = Inr model \<Longrightarrow> model_at s store (am_id model) = Some model"
proof -
  show "ident \<noteq> [] \<Longrightarrow> am_typeDefinitions model \<noteq> [] \<Longrightarrow> model_at s store ident = Some model \<Longrightarrow>
      mem_ReadAuthorizationModel s store ident = Inr model"
    by (auto simp: model_at_def mem_ReadAuthorizationModel_def findAuthorizationModelByID_def bind_eq_Some_conv)
  show "ident \<noteq> [] \<Longrightarrow> mem_ReadAuthorizationModel s store ident = Inr model \<Longrightarrow> model_at s store ident = Some model"
    by (auto simp: model_at_def mem_ReadAuthorizationModel_def findAuthorizationModelByID_def split: option.splits if_splits)
  assume "mem_FindLatestAuthorizationModel s store = Inr model"
  then obtain tm where tm: "mb_models s store = Some tm" "find_latest tm = Some model"
    by (auto simp: mem_FindLatestAuthorizationModel_def findAuthorizationModelByID_def split: option.splits)
  have "find_latest es = Some model \<Longrightarrow> \<exists>i e. (i, e) \<in> set es \<and> me_model e = model" for es
    by (induction es rule: find_latest.induct) (auto split: if_splits)
  then obtain i e where e: "(i, e) \<in> set tm" "me_model e = model" using tm(2) by blast
  have "distinct (map fst tm)" "i = am_id model"
    using assms tm(1) e unfolding server_ok_def backend_ok_def models_ok_def by fastforce+
  with e tm(1) show "model_at s store (am_id model) = Some model"
    by (simp add: model_at_def)
qed

lemma model_at_stored: "model_at s store ident = Some model \<Longrightarrow> model \<in> stored_models s store"
  by (force simp: model_at_def stored_models_def bind_eq_Some_conv dest: map_of_SomeD)

text \<open>What a lookup would answer had it no cache, in terms of what the datastore holds.\<close>

lemma lookup_cases:
  assumes ok: "server_ok compile c s"
  obtains err where "\<And>cache. ts_cache_ok compile (wc_build c) s cache \<Longrightarrow>
      MemoizedTypesystemResolverFunc compile (wc_build c) is_ulid s store modelID cache = (Inl err, cache)"
  | ident model item where "model_at s store ident = Some model" "ident \<noteq> []" "am_typeDefinitions model \<noteq> []"
      "NewAndValidate compile (wc_build c) model = Inr item" "modelID \<noteq> [] \<longrightarrow> ident = modelID"
      "\<And>cache. ts_cache_ok compile (wc_build c) s cache \<Longrightarrow>
        MemoizedTypesystemResolverFunc compile (wc_build c) is_ulid s store modelID cache =
          (Inr item, case cache (typesystem_key store ident) of None \<Rightarrow> cache(typesystem_key store ident \<mapsto> item) | Some _ \<Rightarrow> cache)"
proof -
  note missing = that(1) and hits = that(2)
  have valid: "is_ok (NewAndValidate compile (wc_build c) model)" "am_id model \<noteq> []" "am_typeDefinitions model \<noteq> []"
    if "model_at s store ident = Some model" for ident model
    using ok model_at_stored [OF that] unfolding server_ok_def by blast+
  have hit: "item' = item" if held: "ts_cache_ok compile (wc_build c) s cache" "cache (typesystem_key store ident) = Some item'"
    and "model_at s store ident = Some model" "NewAndValidate compile (wc_build c) model = Inr item" for cache ident item item' model
  proof -
    obtain st i m where "typesystem_key store ident = typesystem_key st i" "model_at s st i = Some m"
        "NewAndValidate compile (wc_build c) m = Inr item'"
      using held unfolding ts_cache_ok_def by blast
    with that(3,4) show ?thesis by (simp add: typesystem_key_inj)
  qed
  let ?f = "MemoizedTypesystemResolverFunc compile (wc_build c) is_ulid s store modelID"
  have found: thesis if m: "model_at s store ident = Some model" "modelID \<noteq> [] \<longrightarrow> ident = modelID"
    and run: "\<And>cache. ?f cache = (case cache (typesystem_key store ident) of Some item \<Rightarrow> (Inr item, cache)
      | None \<Rightarrow> (case NewAndValidate compile (wc_build c) model of Inl err \<Rightarrow> (Inl (ErrInvalidModel err), cache)
          | Inr typesys \<Rightarrow> (Inr typesys, cache(typesystem_key store ident \<mapsto> typesys))))" for ident model
  proof -
    obtain item where item: "NewAndValidate compile (wc_build c) model = Inr item"
      using valid(1) [OF m(1)] by (auto simp: is_ok_iff)
    have "ident = am_id model"
      using ok m(1) unfolding server_ok_def backend_ok_def models_ok_def
      by (fastforce simp: model_at_def bind_eq_Some_conv dest: map_of_SomeD)
    with valid [OF m(1)] have "ident \<noteq> []" "am_typeDefinitions model \<noteq> []" by simp_all
    from hits [OF m(1) this item m(2)] hit [OF _ _ m(1) item] show thesis
      by (simp add: run item split: option.split)
  qed
  show thesis
  proof (cases "modelID = []")
    case True
    show thesis
    proof (cases "mem_FindLatestAuthorizationModel s store")
      case (Inl err)
      show thesis by (rule missing) (simp add: MemoizedTypesystemResolverFunc_def True Inl)
    next
      case (Inr model)
      from found [OF model_at_facts(3) [OF ok Inr]] show thesis
        by (simp add: MemoizedTypesystemResolverFunc_def True Inr Let_def cong: option.case_cong)
    qed
  next
    case False
    show thesis
    proof (cases "is_ulid modelID \<and> is_ok (mem_ReadAuthorizationModel s store modelID)")
      case True
      then obtain model where read: "mem_ReadAuthorizationModel s store modelID = Inr model" by (auto simp: is_ok_iff)
      from found [OF model_at_facts(2) [OF ok False read]] True show thesis
        by (simp add: MemoizedTypesystemResolverFunc_def False read Let_def cong: option.case_cong)
    next
      case none: False
      have miss: "\<not> is_ulid modelID \<or> cache' (typesystem_key store modelID) = None"
        if ok': "ts_cache_ok compile (wc_build c) s cache'" for cache'
      proof (rule ccontr)
        assume "\<not> ?thesis"
        then obtain item where "is_ulid modelID" "cache' (typesystem_key store modelID) = Some item" by auto
        moreover from this(2) ok' obtain m where "model_at s store modelID = Some m" "am_typeDefinitions m \<noteq> []"
          unfolding ts_cache_ok_def by (metis typesystem_key_inj)
        ultimately show False using model_at_facts(1) [OF ok False] none by (auto simp: is_ok_iff)
      qed
      let ?err = "if \<not> is_ulid modelID then ErrModelNotFound else (case mem_ReadAuthorizationModel s store modelID of
        Inl err \<Rightarrow> if err = ErrNotFound then ErrModelNotFound else FailedToRead err | Inr _ \<Rightarrow> ErrModelNotFound)"
      show thesis
      proof (rule missing [of ?err])
        fix cache' assume "ts_cache_ok compile (wc_build c) s cache'"
        with miss [OF this] none show "?f cache' = (Inl ?err, cache')"
          by (auto simp: MemoizedTypesystemResolverFunc_def False Let_def is_ok_iff split: sum.split)
      qed
    qed
  qed
qed

lemma lookup_keeps_cache:
  assumes ok: "server_ok compile c s" and cache: "ts_cache_ok compile (wc_build c) s cache"
  shows "ts_cache_ok compile (wc_build c) s (snd (MemoizedTypesystemResolverFunc compile (wc_build c) is_ulid s store modelID cache))"
proof (cases rule: lookup_cases [OF ok, of is_ulid store modelID])
  case (1 err)
  with cache show ?thesis by simp
next
  case (2 ident model item)
  have "ts_cache_ok compile (wc_build c) s (cache(typesystem_key store ident \<mapsto> item))"
    unfolding ts_cache_ok_def
  proof (intro allI impI)
    fix key item' assume held: "(cache(typesystem_key store ident \<mapsto> item)) key = Some item'"
    show "\<exists>store ident model. key = typesystem_key store ident \<and> ident \<noteq> [] \<and>
        model_at s store ident = Some model \<and> am_typeDefinitions model \<noteq> [] \<and>
        NewAndValidate compile (wc_build c) model = Inr item'"
    proof (cases "key = typesystem_key store ident")
      case True
      with held 2(1-4) show ?thesis by auto
    next
      case False
      with held have "cache key = Some item'" by simp
      with cache show ?thesis unfolding ts_cache_ok_def by blast
    qed
  qed
  with cache show ?thesis by (simp add: 2(6) [OF cache] split: option.split)
qed

lemma served_cache_ok: "served compile c ctx_string is_ulid s cache \<Longrightarrow> ts_cache_ok compile (wc_build c) s cache"
proof (induction rule: served.induct)
  case (served_command s cache s')
  then show ?case unfolding ts_cache_ok_def using model_at_step [OF served_command.hyps(2)] by blast
next
  case (served_lookup s cache storeID modelID)
  show ?case using lookup_keeps_cache [OF reachable_ok [OF served_reachable]] served_lookup by blast
next
  case (served_evict s cache kept)
  then show ?case unfolding ts_cache_ok_def by (auto simp: restrict_map_def split: if_splits)
qed (simp add: ts_cache_ok_def)

lemma resolved:
  assumes "served compile c ctx_string is_ulid s cache"
    and "fst (resolveTypesystem compile (wc_build c) is_ulid s store modelID cache) = Inr item"
  obtains ident model where "model_at s store ident = Some model" "am_typeDefinitions model \<noteq> []"
    "NewAndValidate compile (wc_build c) model = Inr item" "modelID \<noteq> [] \<longrightarrow> ident = modelID"
proof (cases rule: lookup_cases [OF reachable_ok [OF served_reachable [OF assms(1)]], of is_ulid store modelID])
  case (1 err)
  from 1 [OF served_cache_ok [OF assms(1)]] assms(2) show thesis
    by (auto simp: resolveTypesystem_def split: resolve_error.splits)
next
  case (2 ident model item')
  from 2(6) [OF served_cache_ok [OF assms(1)]] assms(2) have "item' = item" by (simp add: resolveTypesystem_def)
  with that 2(1,3,4,5) show thesis by blast
qed

text \<open>
  C8: whatever the server has done before, and whatever its cache of models has kept or dropped, a
  lookup gives what it would give without the cache; and what it gives is the validated type system
  of a model that the store holds, under the requested identifier when there is one.
\<close>

theorem resolver_transparent:
  assumes "served compile c ctx_string is_ulid s cache"
  shows "fst (resolveTypesystem compile (wc_build c) is_ulid s store modelID cache) =
      fst (resolveTypesystem compile (wc_build c) is_ulid s store modelID Map.empty) \<and>
    (\<forall>item. fst (resolveTypesystem compile (wc_build c) is_ulid s store modelID cache) = Inr item \<longrightarrow>
      (\<exists>ident model. model_at s store ident = Some model \<and> (modelID \<noteq> [] \<longrightarrow> ident = modelID) \<and>
         NewAndValidate compile (wc_build c) model = Inr item))"
proof
  note ok = served_cache_ok [OF assms]
  have none: "ts_cache_ok compile (wc_build c) s Map.empty" by (simp add: ts_cache_ok_def)
  show "fst (resolveTypesystem compile (wc_build c) is_ulid s store modelID cache) =
      fst (resolveTypesystem compile (wc_build c) is_ulid s store modelID Map.empty)"
  proof (cases rule: lookup_cases [OF reachable_ok [OF served_reachable [OF assms]], of is_ulid store modelID])
    case (1 err)
    from 1 [OF ok] 1 [OF none] show ?thesis by (cases err) (simp_all add: resolveTypesystem_def)
  next
    case (2 ident model item)
    from 2(6) [OF ok] 2(6) [OF none] show ?thesis by (simp add: resolveTypesystem_def)
  qed
qed (use resolved [OF assms] in blast)

lemma sample_opened_served: "served (\<lambda>_. Inr ()) sample_server (\<lambda>_. []) (\<lambda>_. True) (sample_opened can) Map.empty"
  unfolding sample_opened_def
  by (rule served_command [OF served_new server_model])
  (simp_all add: New_def WithMaxTuplesPerWrite_def WithMaxTypesPerAuthorizationModel_def sample_check_model_def)

theorem resolver_transparent_witness:
  "\<exists>cache. cache (typesystem_key ''s'' ''01'') \<noteq> None \<and>
    fst (resolveTypesystem (\<lambda>_. Inr ()) (wc_build sample_server) (\<lambda>_. True) (sample_served sample_either) ''s'' [] cache) =
    fst (resolveTypesystem (\<lambda>_. Inr ()) (wc_build sample_server) (\<lambda>_. True) (sample_served sample_either) ''s'' [] Map.empty)"
proof -
  let ?cache = "snd (MemoizedTypesystemResolverFunc (\<lambda>_. Inr ()) (wc_build sample_server) (\<lambda>_. True) (sample_opened sample_either) ''s'' ''01'' Map.empty)"
  have "served (\<lambda>_. Inr ()) sample_server (\<lambda>_. []) (\<lambda>_. True) (sample_served sample_either) ?cache"
    unfolding sample_served_def by (rule served_command [OF served_lookup [OF sample_opened_served] server_write])
  note resolver_transparent [OF this, of "''s''" "[]"]
  moreover have "?cache (typesystem_key ''s'' ''01'') \<noteq> None" by code_simp
  ultimately show ?thesis by blast
qed

end
