(* ===== verification/Check_Command.thy ===== *)
theory Check_Command
  imports Typesystem_Resolver
begin

text \<open>
  A check as a client sees it: the handler (\<open>pkg/server/check.go\<close>) finds the model, the command
  (\<open>pkg/server/commands/check_command.go\<close>) validates the request and sets up the reader, and the errors
  become those of the API (\<open>pkg/server/commands/errors.go\<close>). The theorems are about every state that a
  server can be in.
\<close>

section \<open>The command\<close>

datatype command_error =
    InvalidRelation val_error
  | InvalidContext val_error
  | InvalidTuple val_error
  | InvalidRequest string
  | ThrottledError check_err
  | CheckError check_err

record check_command_params =
  cp_StoreID :: string
  cp_TupleKey :: tuple_key
  cp_ContextualTuples :: "tuple_key list"
  cp_Context :: "pb_struct option"
  cp_Consistency :: consistency

text \<open>The counts and durations of a result are statistics.\<close>

record check_result =
  res_Allowed :: bool
  res_CycleDetected :: bool

text \<open>
  The reader of a request is the datastore with the contextual tuples over it; the wrappers for limits
  on reads only wait, and the caches of iterators are off. Whether reads or dispatches were throttled is
  told by \<open>cq_wasThrottled\<close>. The other parts are what the command calls: CEL, the digest of a request's
  invariant parts, \<open>slices.SortFunc\<close> and the cache controller.
\<close>

record ('i, 'k) check_query =
  cq_checkResolver :: "type_system \<Rightarrow> ('i, 'k) combined_reader \<Rightarrow> resolver"
  cq_typesys :: type_system
  cq_datastore :: "('i, 'k) reader"
  cq_DetermineInvalidationTime :: "string \<Rightarrow> nat"
  cq_wasThrottled :: bool
  cq_inline :: "tuple_key \<Rightarrow> (string, unit) result"
  cq_cast :: "condition \<Rightarrow> pb_struct \<Rightarrow> (string, string list) result"
  cq_invariantKey :: "string \<Rightarrow> string \<Rightarrow> pb_struct option \<Rightarrow> tuple_key list \<Rightarrow> nat"
  cq_sort :: "tuple_key list \<Rightarrow> tuple_key list"

definition ConvertCheckRequestTupleKeyToTupleKey :: "tuple_key \<Rightarrow> tuple_key" where
  "ConvertCheckRequestTupleKeyToTupleKey tk = NewTupleKey (tk_object tk) (tk_relation tk) (tk_user tk)"

fun validate_contextual :: "('i, 'k) check_query \<Rightarrow> tuple_key list \<Rightarrow> (command_error, unit) result" where
  "validate_contextual c [] = Inr ()"
| "validate_contextual c (ctxTuple # rest) =
     (case ValidateTupleForWrite (cq_inline c) (cq_cast c) (cq_typesys c) ctxTuple of
        Inl err \<Rightarrow> Inl (InvalidTuple err) | Inr _ \<Rightarrow> validate_contextual c rest)"

definition validateCheckRequest :: "('i, 'k) check_query \<Rightarrow> tuple_key \<Rightarrow> tuple_key list \<Rightarrow> pb_struct option \<Rightarrow>
    (command_error, unit) result" where
  "validateCheckRequest c tupleKey contextualTuples requestCtx =
     (case ValidateUserObjectRelation (cq_typesys c) (ConvertCheckRequestTupleKeyToTupleKey tupleKey) of
        Inl err \<Rightarrow> Inl (InvalidRelation err)
      | Inr _ \<Rightarrow> (case ValidateStruct requestCtx of
          Inl err \<Rightarrow> Inl (InvalidContext err)
        | Inr _ \<Rightarrow> validate_contextual c contextualTuples))"

definition deadline_exceeded :: "check_err \<Rightarrow> bool" where
  "deadline_exceeded err \<longleftrightarrow> err \<in> {CE_Context ErrDeadlineExceeded, CE_Iterator ErrDeadlineExceeded,
     CE_Store (ErrIter ErrDeadlineExceeded)}"

definition command_params :: "('i, 'k) check_query \<Rightarrow> check_command_params \<Rightarrow> check_params" where
  "command_params c params =
     \<lparr>rp_StoreID = cp_StoreID params, rp_TupleKey = ConvertCheckRequestTupleKeyToTupleKey (cp_TupleKey params),
      rp_ContextualTuples = cp_ContextualTuples params, rp_Context = cp_Context params,
      rp_Consistency = cp_Consistency params,
      rp_LastCacheInvalidationTime = (if cp_Consistency params \<noteq> HIGHER_CONSISTENCY
        then cq_DetermineInvalidationTime c (cp_StoreID params) else 0),
      rp_AuthorizationModelID = ts_modelID (cq_typesys c)\<rparr>"

definition command_result :: "('i, 'k) check_query \<Rightarrow> outcome \<Rightarrow> (command_error, check_result) result" where
  "command_result c out = (case out of
     Inl err \<Rightarrow> Inl (if deadline_exceeded err \<and> cq_wasThrottled c then ThrottledError err else CheckError err)
   | Inr resp \<Rightarrow> Inr \<lparr>res_Allowed = rsp_Allowed resp, res_CycleDetected = rsp_CycleDetected resp\<rparr>)"

definition CheckQuery_Execute :: "('i, 'k) check_query \<Rightarrow> check_command_params \<Rightarrow>
    (command_error, check_result) result ran option" where
  "CheckQuery_Execute c params =
     (case validateCheckRequest c (cp_TupleKey params) (cp_ContextualTuples params) (cp_Context params) of
        Inl err \<Rightarrow> Some (Returned (Inl err))
      | Inr _ \<Rightarrow>
         (case NewResolveCheckRequest (cq_invariantKey c) (command_params c params) of
            Inl err \<Rightarrow> Some (Returned (Inl (InvalidRequest err)))
          | Inr resolveCheckRequest \<Rightarrow>
             (let datastore = NewCombinedTupleReader (cq_sort c) (cq_datastore c) (cp_ContextualTuples params)
              in map_option (map_ran (command_result c))
                   (cq_checkResolver c (cq_typesys c) datastore [] resolveCheckRequest))))"

section \<open>Errors\<close>

text \<open>The errors of iterators that are not a context's are those of conditions, which wrap \<open>ErrEvaluationFailed\<close>.\<close>

definition CheckCommandErrorToServerError :: "command_error \<Rightarrow> server_error" where
  "CheckCommandErrorToServerError err = (case err of
     InvalidRelation cause \<Rightarrow> SE_ValidationError (CauseRelation cause)
   | InvalidContext cause \<Rightarrow> SE_ValidationError (CauseContext cause)
   | InvalidTuple cause \<Rightarrow> SE_InvalidTuple cause
   | CheckError CE_ResolutionDepthExceeded \<Rightarrow> SE_ErrAuthorizationModelResolutionTooComplex
   | CheckError (CE_Iterator (ErrFatal msg)) \<Rightarrow> SE_ValidationError (CauseCondition msg)
   | CheckError (CE_Iterator (ErrOther msg)) \<Rightarrow> SE_ValidationError (CauseCondition msg)
   | CheckError (CE_Store (ErrIter (ErrFatal msg))) \<Rightarrow> SE_ValidationError (CauseCondition msg)
   | CheckError (CE_Store (ErrIter (ErrOther msg))) \<Rightarrow> SE_ValidationError (CauseCondition msg)
   | ThrottledError _ \<Rightarrow> SE_ErrThrottledTimeout
   | CheckError cause \<Rightarrow> (if deadline_exceeded cause then SE_ErrRequestDeadlineExceeded else HandleError [] (InternalCheck cause))
   | InvalidRequest msg \<Rightarrow> HandleError [] (InternalRequest msg))"

section \<open>The handler\<close>

text \<open>\<open>Server.Check\<close> without the experimental engine; \<open>query\<close> is how it sets up the command.\<close>

definition Server_Check :: "(condition \<Rightarrow> (string, unit) result) \<Rightarrow> (authorization_model \<Rightarrow> (ts_error, 'g) result) \<Rightarrow>
    (string \<Rightarrow> bool) \<Rightarrow> 'a memory_backend \<Rightarrow> (type_system \<Rightarrow> 'g \<Rightarrow> ('i, 'k) check_query) \<Rightarrow> string \<Rightarrow>
    check_command_params \<Rightarrow> 'g ts_cache \<Rightarrow> (server_error, bool) result ran option \<times> 'g ts_cache" where
  "Server_Check compile build is_ulid datastore query modelID params cache =
     (case resolveTypesystem compile build is_ulid datastore (cp_StoreID params) modelID cache of
        (Inl err, cache) \<Rightarrow> (Some (Returned (Inl err)), cache)
      | (Inr (typesys, g), cache) \<Rightarrow>
          (map_option (map_ran (map_sum CheckCommandErrorToServerError res_Allowed))
             (CheckQuery_Execute (query typesys g) params), cache))"

text \<open>How the handler sets up the command over the memory backend, with the local checker on its own.\<close>

definition local_query :: "('e, 'a, 'p, 'x) cel \<Rightarrow> cond_config \<Rightarrow> ((string \<times> string) list \<Rightarrow> string \<Rightarrow> string \<Rightarrow> bool) \<Rightarrow>
    (mem_iter \<Rightarrow> bool) \<Rightarrow> nat \<Rightarrow> schedule \<Rightarrow> nat \<Rightarrow> (tuple_record list \<Rightarrow> tuple_record list) \<Rightarrow>
    (mem_iter, mem_iter) check_query \<Rightarrow> 'm memory_backend \<Rightarrow> type_system \<Rightarrow> model_graph \<Rightarrow> (mem_iter, mem_iter) check_query" where
  "local_query cel cfg pathExistsIn ordered maxDepth \<sigma> n srt c s t g =
     c\<lparr>cq_checkResolver := (\<lambda>t rd. ResolveCheck n
         (new_env cel cfg (graph_PathExists pathExistsIn) g t (as_reader ordered rd) maxDepth \<sigma>)),
       cq_typesys := t, cq_datastore := memory_reader srt s\<rparr>"

section \<open>A check of a served request\<close>

lemma validate_contextual_Inr:
  "validate_contextual c ts = Inr () \<longleftrightarrow>
    (\<forall>tk \<in> set ts. ValidateTupleForWrite (cq_inline c) (cq_cast c) (cq_typesys c) tk = Inr ())"
  by (induction ts) (auto split: sum.split)

lemma validated_request:
  assumes "validateCheckRequest c tk ts ctx = Inr ()" and "IsSchemaVersionSupported (ts_schemaVersion (cq_typesys c))"
  shows "full_form (tk_user tk)" and "IsValidObject (tk_object tk)" and "tk' \<in> set ts \<Longrightarrow> full_key tk' \<and> full_form (tk_user tk')"
proof -
  have key: "ValidateUserObjectRelation (cq_typesys c) (ConvertCheckRequestTupleKeyToTupleKey tk) = Inr ()"
    and ts: "validate_contextual c ts = Inr ()"
    using assms(1) by (auto simp: validateCheckRequest_def split: sum.splits)
  show "full_form (tk_user tk)" "IsValidObject (tk_object tk)"
    using validated_parts(1,2) [OF key assms(2)] by (simp_all add: ConvertCheckRequestTupleKeyToTupleKey_def NewTupleKey_def)
  show "tk' \<in> set ts \<Longrightarrow> full_key tk' \<and> full_form (tk_user tk')"
    using ts write_validated_key [OF _ assms(2)] unfolding validate_contextual_Inr by blast
qed

text \<open>Contextual tuples of a request, which name no tuple twice and none that is stored.\<close>

definition new_tuples :: "tuple_key list \<Rightarrow> tuple_key set \<Rightarrow> bool" where
  "new_tuples ts contents \<longleftrightarrow> distinct (map key_id ts) \<and> (\<forall>tk \<in> set ts. \<forall>tk' \<in> contents. \<not> same_key tk tk')"

lemma key_id_normal [simp]: "key_id (normal_key tk) = key_id tk"
  by (simp add: key_id_def)

lemma full_key_normal [simp]: "full_key (normal_key tk) = full_key tk"
  by (simp add: full_key_def)

lemma request_data_ok:
  assumes "server_reachable compile c ctx_string s" and perm: "\<And>ts. mset (srt ts) = mset ts"
    and "\<And>tk. tk \<in> set ts \<Longrightarrow> full_key tk \<and> full_form (tk_user tk)" and "new_tuples ts (set (stored s store))"
  shows "data_ok (NewCombinedTupleReader srt rd ts) s store"
proof (rule reachable_data_ok [OF assms(1)])
  have tuples: "cr_tuples (NewCombinedTupleReader srt rd ts) = srt (map normal_key ts)"
    by (simp add: NewCombinedTupleReader_def normal_key_def [abs_def])
  have set: "set (srt (map normal_key ts)) = normal_key ` set ts" using mset_eq_setD [OF perm] by simp
  have "mset (map key_id (srt (map normal_key ts))) = mset (map key_id ts)"
    using perm by (simp add: image_mset.compositionality comp_def)
  then have "distinct (map key_id (srt (map normal_key ts)))"
    using assms(4) mset_eq_imp_distinct_iff unfolding new_tuples_def by blast
  then show "contextual_ok (cr_tuples (NewCombinedTupleReader srt rd ts)) (set (stored s store))"
    using assms(3,4) unfolding contextual_ok_def tuples set new_tuples_def by (auto simp: same_key_iff)
  show "\<forall>tk \<in> set (cr_tuples (NewCombinedTupleReader srt rd ts)). full_form (tk_user tk)"
    using assms(3) unfolding tuples set by auto
qed

lemma local_query_simps [simp]:
  "cq_typesys (local_query cel cfg pe ordered d \<sigma> n srt c s t g) = t"
  "cq_datastore (local_query cel cfg pe ordered d \<sigma> n srt c s t g) = memory_reader srt s"
  "cq_sort (local_query cel cfg pe ordered d \<sigma> n srt c s t g) = cq_sort c"
  "cq_invariantKey (local_query cel cfg pe ordered d \<sigma> n srt c s t g) = cq_invariantKey c"
  "cq_checkResolver (local_query cel cfg pe ordered d \<sigma> n srt c s t g) t' rd =
     ResolveCheck n (new_env cel cfg (graph_PathExists pe) g t' (as_reader ordered rd) d \<sigma>)"
  by (simp_all add: local_query_def)

lemma command_params_simps [simp]:
  "rp_StoreID (command_params c params) = cp_StoreID params" "rp_Context (command_params c params) = cp_Context params"
  "tk_user (rp_TupleKey (command_params c params)) = tk_user (cp_TupleKey params)"
  "tk_object (rp_TupleKey (command_params c params)) = tk_object (cp_TupleKey params)"
  "tk_relation (rp_TupleKey (command_params c params)) = tk_relation (cp_TupleKey params)"
  by (simp_all add: command_params_def ConvertCheckRequestTupleKeyToTupleKey_def NewTupleKey_def)

text \<open>What a command that gets to the resolver brings to it.\<close>

lemma command_setting:
  fixes cel :: "('e, 'a, 'p, 'x) cel" and q :: "(mem_iter, mem_iter) check_query"
  assumes served: "served compile c ctx_string is_ulid s cache" and c: "wc_build c = build_graph mk"
    and item: "fst (resolveTypesystem compile (wc_build c) is_ulid s (cp_StoreID params) modelID cache) = Inr (t, g)"
    and shaped: "\<forall>model \<in> stored_models s (cp_StoreID params). well_shaped model"
    and perm: "\<forall>ts. mset (cq_sort q0 ts) = mset ts"
    and new: "new_tuples (cp_ContextualTuples params) (set (stored s (cp_StoreID params)))"
    and q: "q = local_query cel cfg pathExistsIn ordered maxDepth \<sigma> n srt q0 s t g"
  shows "(\<exists>err. CheckQuery_Execute q params = Some (Returned (Inl err))) \<or>
    (\<exists>model req. NewAndValidate compile (build_graph mk) model = Inr (t, g) \<and> well_shaped model \<and>
       NewResolveCheckRequest (cq_invariantKey q) (command_params q params) = Inr req \<and>
       full_form (tk_user (cp_TupleKey params)) \<and> IsValidObject (tk_object (cp_TupleKey params)) \<and>
       data_ok (NewCombinedTupleReader (cq_sort q0) (memory_reader srt s) (cp_ContextualTuples params)) s (cp_StoreID params) \<and>
       CheckQuery_Execute q params = map_option (map_ran (command_result q))
        (ResolveCheck n (new_env cel cfg (graph_PathExists pathExistsIn) g t (as_reader ordered
           (NewCombinedTupleReader (cq_sort q0) (memory_reader srt s) (cp_ContextualTuples params))) maxDepth \<sigma>) [] req))"
proof -
  from resolved [OF served item] obtain ident model where model: "model_at s (cp_StoreID params) ident = Some model"
    and valid: "NewAndValidate compile (build_graph mk) model = Inr (t, g)" unfolding c by blast
  show ?thesis
  proof (cases "\<exists>req. validateCheckRequest q (cp_TupleKey params) (cp_ContextualTuples params) (cp_Context params) = Inr () \<and>
      NewResolveCheckRequest (cq_invariantKey q) (command_params q params) = Inr req")
    case True
    then obtain req where req: "NewResolveCheckRequest (cq_invariantKey q) (command_params q params) = Inr req"
      and v: "validateCheckRequest q (cp_TupleKey params) (cp_ContextualTuples params) (cp_Context params) = Inr ()" by blast
    have schema: "IsSchemaVersionSupported (ts_schemaVersion (cq_typesys q))"
      using NewAndValidate_facts(2) [OF valid] by (simp add: q)
    note parts = validated_request [OF v schema]
    have "data_ok (NewCombinedTupleReader (cq_sort q0) (memory_reader srt s) (cp_ContextualTuples params)) s (cp_StoreID params)"
      by (rule request_data_ok [OF served_reachable [OF served] _ parts(3) new]) (use perm in simp)
    moreover have "well_shaped model" using shaped model_at_stored [OF model] by blast
    moreover have "CheckQuery_Execute q params = map_option (map_ran (command_result q))
        (ResolveCheck n (new_env cel cfg (graph_PathExists pathExistsIn) g t (as_reader ordered
           (NewCombinedTupleReader (cq_sort q0) (memory_reader srt s) (cp_ContextualTuples params))) maxDepth \<sigma>) [] req)"
      using v req by (simp add: CheckQuery_Execute_def q)
    ultimately show ?thesis using valid req parts(1,2) by blast
  next
    case False
    then show ?thesis by (auto simp: CheckQuery_Execute_def split: sum.split)
  qed
qed



text \<open>The served example: the document's viewers are the members of a group, the member is contextual.\<close>

definition sample_query :: "(mem_iter, mem_iter) check_query" where
  "sample_query = \<lparr>cq_checkResolver = (\<lambda>_ _ _ _. None), cq_typesys = newWithoutGraphs (sample_check_model sample_either),
     cq_datastore = memory_reader (\<lambda>rs. rs) (sample_served sample_either), cq_DetermineInvalidationTime = (\<lambda>_. 0), cq_wasThrottled = False,
     cq_inline = (\<lambda>_. Inr ()), cq_cast = (\<lambda>_ _. Inr []), cq_invariantKey = (\<lambda>_ _ _ _. 0), cq_sort = (\<lambda>ts. ts)\<rparr>"

definition sample_command_params :: check_command_params where
  "sample_command_params = \<lparr>cp_StoreID = ''s'', cp_TupleKey = NewTupleKey ''d:1'' ''c'' ''u:a'',
     cp_ContextualTuples = [NewTupleKey ''g:x'' ''m'' ''u:a''], cp_Context = None, cp_Consistency = UNSPECIFIED\<rparr>"

abbreviation sample_combined :: "userset \<Rightarrow> (mem_iter, mem_iter) combined_reader" where
  "sample_combined can \<equiv> NewCombinedTupleReader (cq_sort sample_query) (memory_reader (\<lambda>rs. rs) (sample_served can))
     (cp_ContextualTuples sample_command_params)"

abbreviation sample_command_env :: "userset \<Rightarrow>
    ((pb_tuple static_iter + mem_iter) combined_iter, mem_iter starting_iter) check_env" where
  "sample_command_env can \<equiv> new_env sample_cel \<lparr>cc_maxCost = 100, cc_checkFrequency = 100\<rparr>
     (graph_PathExists search_path) (NewAuthorizationModelGraph (\<lambda>_. ''00'') (sample_check_model can))
     (newWithoutGraphs (sample_check_model can)) (as_reader (\<lambda>_. False) (sample_combined can)) 25 in_order"

lemma sample_served_setting:
  assumes "can = sample_either \<or> can = sample_unbanned"
  shows "served (\<lambda>_. Inr ()) sample_server (\<lambda>_. []) (\<lambda>_. True) (sample_served can) Map.empty"
    and "stored (sample_served can) ''s'' = [NewTupleKey ''d:1'' ''v'' ''g:x#m'']"
    and "fst (resolveTypesystem (\<lambda>_. Inr ()) (wc_build sample_server) (\<lambda>_. True) (sample_served can)
          (cp_StoreID sample_command_params) [] Map.empty) =
        Inr (newWithoutGraphs (sample_check_model can), NewAuthorizationModelGraph (\<lambda>_. ''00'') (sample_check_model can))"
    and "\<forall>model \<in> stored_models (sample_served can) (cp_StoreID sample_command_params). well_shaped model"
    and "new_tuples (cp_ContextualTuples sample_command_params) (set (stored (sample_served can) (cp_StoreID sample_command_params)))"
    and "usable (sample_command_env can) (cp_Context sample_command_params)
          (known_tuples (sample_combined can) (sample_served can) (cp_StoreID sample_command_params)) =
        {NewTupleKey ''g:x'' ''m'' ''u:a'', NewTupleKey ''d:1'' ''v'' ''g:x#m''}"
proof -
  show "served (\<lambda>_. Inr ()) sample_server (\<lambda>_. []) (\<lambda>_. True) (sample_served can) Map.empty"
    unfolding sample_served_def by (rule served_command [OF sample_opened_served server_write])
  show held: "stored (sample_served can) ''s'' = [NewTupleKey ''d:1'' ''v'' ''g:x#m'']"
    using assms by (elim disjE; hypsubst) code_simp+
  show "fst (resolveTypesystem (\<lambda>_. Inr ()) (wc_build sample_server) (\<lambda>_. True) (sample_served can)
      (cp_StoreID sample_command_params) [] Map.empty) =
    Inr (newWithoutGraphs (sample_check_model can), NewAuthorizationModelGraph (\<lambda>_. ''00'') (sample_check_model can))"
    using assms by (elim disjE; hypsubst) code_simp+
  have "stored_models (sample_served can) ''s'' = {sample_check_model can}"
    using assms by (elim disjE; hypsubst) code_simp+
  with sample_valid assms show "\<forall>model \<in> stored_models (sample_served can) (cp_StoreID sample_command_params). well_shaped model"
    by (auto simp: sample_command_params_def)
  show "new_tuples (cp_ContextualTuples sample_command_params) (set (stored (sample_served can) (cp_StoreID sample_command_params)))"
    by (simp add: sample_command_params_def held new_tuples_def same_key_def NewTupleKey_def)
  have tuples: "cr_tuples (sample_combined can) = [NewTupleKey ''g:x'' ''m'' ''u:a'']"
    by (simp add: NewCombinedTupleReader_def sample_query_def sample_command_params_def) code_simp
  have "known_tuples (sample_combined can) (sample_served can) ''s'' = known_tuples sample_reader sample_shared ''s''"
    unfolding sample_known unfolding known_tuples_def tuples held by auto
  moreover have "usable (sample_command_env can) ctx T = usable (sample_env can) ctx T" for ctx T
    by (simp add: usable_def new_env_def sample_env_def)
  ultimately show "usable (sample_command_env can) (cp_Context sample_command_params)
      (known_tuples (sample_combined can) (sample_served can) (cp_StoreID sample_command_params)) =
    {NewTupleKey ''g:x'' ''m'' ''u:a'', NewTupleKey ''d:1'' ''v'' ''g:x#m''}"
    using sample_usable [OF assms] by (simp add: sample_command_params_def)
qed



end
