(* ===== verification/Expand.thy ===== *)
theory Expand
  imports Check_Command
begin

text \<open>
  \<open>Expand\<close> (\<open>pkg/server/commands/expand.go\<close>, \<open>pkg/server/expand.go\<close>): the tree of users and usersets
  that a relation of an object is made of, one level deep.
\<close>

section \<open>Trees\<close>

datatype tree_leaf =
    Leaf_Users "string list"
  | Leaf_Computed string
  | Leaf_TupleToUserset string "string list"

datatype tree_node =
    Node_Leaf string tree_leaf
  | Node_Union string "tree_node list"
  | Node_Intersection string "tree_node list"
  | Node_Difference string tree_node tree_node

definition toObjectRelation :: "tuple_key \<Rightarrow> string" where
  "toObjectRelation tk = ToObjectRelationString (tk_object tk) (tk_relation tk)"

section \<open>The command\<close>

text \<open>
  What the command has beside its reader: the type system, CEL's part in the validation of tuples, the
  sorting of the contextual tuples, and which error of a group of goroutines is the first.
\<close>

record expand_query =
  xq_typesys :: type_system
  xq_inline :: "tuple_key \<Rightarrow> (string, unit) result"
  xq_cast :: "condition \<Rightarrow> pb_struct \<Rightarrow> (string, string list) result"
  xq_sort :: "tuple_key list \<Rightarrow> tuple_key list"
  xq_first :: "server_error list \<Rightarrow> server_error"

definition xq_validTuple :: "expand_query \<Rightarrow> tuple_key \<Rightarrow> bool" where
  "xq_validTuple q = FilterInvalidTuples (xq_cast q) (xq_typesys q)"

text \<open>A read of the tuples of a key, those that are not valid under the model left out.\<close>

definition expand_read :: "expand_query \<Rightarrow> ('i, 'k) reader \<Rightarrow> string \<Rightarrow> tuple_key \<Rightarrow> (server_error, tuple_key list) result option" where
  "expand_read q rd store tk =
     (case rd_Read rd store
         \<lparr>rf_Object = tk_object tk, rf_Relation = tk_relation tk, rf_User = tk_user tk, rf_Conditions = []\<rparr> of
        None \<Rightarrow> None
      | Some (Inl err) \<Rightarrow> Some (Inl (HandleError [] (InternalStore err)))
      | Some (Inr tupleIter) \<Rightarrow>
         (case drain (filteredTupleKeyIterator_Next (tupleKeyIterator_Next (rd_next rd)) (xq_validTuple q))
             None (wrap_iter (wrap_iter tupleIter)) of
            None \<Rightarrow> None
          | Some (keys, err) \<Rightarrow>
              Some (if err = ErrIteratorDone then Inr keys else Inl (HandleError [] (InternalStore (ErrIter err))))))"

definition resolveThis :: "expand_query \<Rightarrow> ('i, 'k) reader \<Rightarrow> string \<Rightarrow> tuple_key \<Rightarrow> (server_error, tree_node) result option" where
  "resolveThis q rd store tk =
     map_option (map_sum id (\<lambda>keys. Node_Leaf (toObjectRelation tk) (Leaf_Users (sort (remdups (map tk_user keys))))))
       (expand_read q rd store tk)"

definition resolveComputedUserset :: "string \<Rightarrow> tuple_key \<Rightarrow> (server_error, tree_node) result option" where
  "resolveComputedUserset relation tk =
     (let computed = NewTupleKey (tk_object tk) (if relation = [] then tk_relation tk else relation) []
      in Some (Inr (Node_Leaf (toObjectRelation tk) (Leaf_Computed (toObjectRelation computed)))))"

definition computed_userset :: "string \<Rightarrow> tuple_key \<Rightarrow> string" where
  "computed_userset relation tk =
     (let (tObject, tRelation) = SplitObjectRelation (tk_user tk);
          tRelation = (if tRelation = [] then relation else tRelation)
      in toObjectRelation (NewTupleKey tObject tRelation []))"

fun computed_usersets :: "string \<Rightarrow> string set \<Rightarrow> tuple_key list \<Rightarrow> string list" where
  "computed_usersets relation seen [] = []"
| "computed_usersets relation seen (tk # tks) =
     (let computedRelation = computed_userset relation tk
      in if computedRelation \<in> seen then computed_usersets relation seen tks
         else computedRelation # computed_usersets relation (insert computedRelation seen) tks)"

definition resolveTupleToUserset :: "expand_query \<Rightarrow> ('i, 'k) reader \<Rightarrow> string \<Rightarrow> tuple_to_userset option \<Rightarrow> tuple_key \<Rightarrow>
    (server_error, tree_node) result option" where
  "resolveTupleToUserset q rd store userset tk =
     (let targetObject = tk_object tk; tupleset = ttu_GetTupleset userset; objectType = GetType targetObject
      in case TypeSystem_GetRelation (xq_typesys q) objectType tupleset of
           Inl (ObjectTypeUndefinedError _) \<Rightarrow> Some (Inl (SE_TypeNotFound objectType))
         | Inl (RelationUndefinedError _ _) \<Rightarrow>
             Some (Inl (SE_RelationNotFound tupleset objectType (NewTupleKey targetObject tupleset (tk_user tk))))
         | _ \<Rightarrow>
            (let tsKey = NewTupleKey targetObject (if tupleset = [] then tk_relation tk else tupleset) []
             in map_option (map_sum id (\<lambda>keys. Node_Leaf (toObjectRelation tk)
                    (Leaf_TupleToUserset (toObjectRelation tsKey) (computed_usersets (ttu_GetComputed userset) {} keys))))
                  (expand_read q rd store tsKey)))"

text \<open>\<open>errgroup\<close>: all the nodes, or the first of the errors.\<close>

definition expand_group :: "(server_error list \<Rightarrow> server_error) \<Rightarrow> (server_error, tree_node) result list \<Rightarrow>
    (server_error, tree_node list) result" where
  "expand_group first outs =
     (case [e. Inl e \<leftarrow> outs] of [] \<Rightarrow> Inr [n. Inr n \<leftarrow> outs] | errs \<Rightarrow> Inl (first errs))"

text \<open>The inner nodes, from the outcomes of their children.\<close>

definition resolveUnionUserset :: "expand_query \<Rightarrow> tuple_key \<Rightarrow> (server_error, tree_node) result list \<Rightarrow> (server_error, tree_node) result" where
  "resolveUnionUserset q tk outs = map_sum id (Node_Union (toObjectRelation tk)) (expand_group (xq_first q) outs)"

definition resolveIntersectionUserset :: "expand_query \<Rightarrow> tuple_key \<Rightarrow> (server_error, tree_node) result list \<Rightarrow> (server_error, tree_node) result" where
  "resolveIntersectionUserset q tk outs = map_sum id (Node_Intersection (toObjectRelation tk)) (expand_group (xq_first q) outs)"

definition resolveDifferenceUserset :: "expand_query \<Rightarrow> tuple_key \<Rightarrow> (server_error, tree_node) result list \<Rightarrow> (server_error, tree_node) result" where
  "resolveDifferenceUserset q tk outs =
     map_sum id (\<lambda>nodes. Node_Difference (toObjectRelation tk) (nodes ! 0) (nodes ! 1)) (expand_group (xq_first q) outs)"

fun resolveUserset :: "expand_query \<Rightarrow> ('i, 'k) reader \<Rightarrow> string \<Rightarrow> tuple_key \<Rightarrow> userset \<Rightarrow> (server_error, tree_node) result option"
and resolveUsersets :: "expand_query \<Rightarrow> ('i, 'k) reader \<Rightarrow> string \<Rightarrow> tuple_key \<Rightarrow> userset list \<Rightarrow>
    (server_error, tree_node) result list option" where
  "resolveUserset q rd store tk Userset_Unset = resolveThis q rd store tk"
| "resolveUserset q rd store tk Userset_This = resolveThis q rd store tk"
| "resolveUserset q rd store tk (Userset_ComputedUserset us) = resolveComputedUserset us tk"
| "resolveUserset q rd store tk (Userset_TupleToUserset us) = resolveTupleToUserset q rd store us tk"
| "resolveUserset q rd store tk (Userset_Union us) =
     map_option (resolveUnionUserset q tk) (resolveUsersets q rd store tk us)"
| "resolveUserset q rd store tk (Userset_Difference base sub) =
     (case (resolveUserset q rd store tk base, resolveUserset q rd store tk sub) of
        (Some b, Some s) \<Rightarrow> Some (resolveDifferenceUserset q tk [b, s])
      | _ \<Rightarrow> None)"
| "resolveUserset q rd store tk (Userset_Intersection us) =
     map_option (resolveIntersectionUserset q tk) (resolveUsersets q rd store tk us)"
| "resolveUsersets q rd store tk [] = Some []"
| "resolveUsersets q rd store tk (us # uss) =
     (case resolveUserset q rd store tk us of None \<Rightarrow> None
      | Some out \<Rightarrow> map_option (\<lambda>outs. out # outs) (resolveUsersets q rd store tk uss))"

record expand_request =
  xr_StoreId :: string
  xr_TupleKey :: tuple_key
  xr_ContextualTuples :: "tuple_key list"

fun expand_contextual :: "expand_query \<Rightarrow> tuple_key list \<Rightarrow> (server_error, unit) result" where
  "expand_contextual q [] = Inr ()"
| "expand_contextual q (ctxTuple # rest) =
     (case ValidateTupleForWrite (xq_inline q) (xq_cast q) (xq_typesys q) ctxTuple of
        Inl err \<Rightarrow> Inl (HandleTupleValidateError ctxTuple err) | Inr _ \<Rightarrow> expand_contextual q rest)"

definition expand_validate :: "expand_query \<Rightarrow> expand_request \<Rightarrow> (server_error, relation) result" where
  "expand_validate q req =
     (let object = tk_object (xr_TupleKey req); relation = tk_relation (xr_TupleKey req);
          tk = NewTupleKey object relation []; objectType = GetType object; typesys = xq_typesys q
      in if object = [] \<or> relation = [] then Inl SE_ErrInvalidExpandInput
         else rbind (expand_contextual q (xr_ContextualTuples req)) (\<lambda>_.
           case ValidateObject typesys tk of Inl err \<Rightarrow> Inl (SE_ValidationError (CauseTuple err))
           | Inr _ \<Rightarrow> (case ValidateRelation typesys tk of Inl err \<Rightarrow> Inl (SE_ValidationError (CauseTuple err))
             | Inr _ \<Rightarrow> (case TypeSystem_GetRelation typesys objectType relation of
                 Inl (ObjectTypeUndefinedError _) \<Rightarrow> Inl (SE_TypeNotFound objectType)
               | Inl (RelationUndefinedError _ _) \<Rightarrow> Inl (SE_RelationNotFound relation objectType tk)
               | Inl err \<Rightarrow> Inl (HandleError [] (InternalModel err))
               | Inr rel \<Rightarrow> Inr rel))))"

text \<open>
  The reader with the contextual tuples over the datastore is made once they have been validated.
\<close>

definition ExpandQuery_Execute :: "('k \<Rightarrow> bool) \<Rightarrow> expand_query \<Rightarrow> ('i, 'k) reader \<Rightarrow> expand_request \<Rightarrow>
    (server_error, tree_node) result option" where
  "ExpandQuery_Execute ordered q datastore req =
     (case expand_validate q req of Inl err \<Rightarrow> Some (Inl err)
      | Inr rel \<Rightarrow>
          resolveUserset q (as_reader ordered (NewCombinedTupleReader (xq_sort q) datastore (xr_ContextualTuples req)))
            (xr_StoreId req) (NewTupleKey (tk_object (xr_TupleKey req)) (tk_relation (xr_TupleKey req)) []) (rel_rewrite rel))"

text \<open>\<open>Server.Expand\<close>.\<close>

definition Server_Expand :: "(condition \<Rightarrow> (string, unit) result) \<Rightarrow> (authorization_model \<Rightarrow> (ts_error, 'g) result) \<Rightarrow>
    (string \<Rightarrow> bool) \<Rightarrow> 'a memory_backend \<Rightarrow> ('k \<Rightarrow> bool) \<Rightarrow> (type_system \<Rightarrow> expand_query) \<Rightarrow> ('i, 'k) reader \<Rightarrow> string \<Rightarrow>
    expand_request \<Rightarrow> 'g ts_cache \<Rightarrow> (server_error, tree_node) result option \<times> 'g ts_cache" where
  "Server_Expand compile build is_ulid s ordered query datastore modelID req cache =
     (case resolveTypesystem compile build is_ulid s (xr_StoreId req) modelID cache of
        (Inl err, cache) \<Rightarrow> (Some (Inl err), cache)
      | (Inr (typesys, _), cache) \<Rightarrow> (ExpandQuery_Execute ordered (query typesys) datastore req, cache))"

section \<open>What a tree means\<close>

text \<open>\<open>H ob r\<close> says that the user \<open>u\<close> has the relation \<open>r\<close> to \<open>ob\<close>; a userset in a tree stands for those that have it.\<close>

definition userset_grants :: "(string \<Rightarrow> string \<Rightarrow> bool) \<Rightarrow> string \<Rightarrow> bool" where
  "userset_grants H us \<longleftrightarrow> H (fst (SplitObjectRelation us)) (snd (SplitObjectRelation us))"

fun leaf_grants :: "(string \<Rightarrow> string \<Rightarrow> bool) \<Rightarrow> string \<Rightarrow> tree_leaf \<Rightarrow> bool" where
  "leaf_grants H u (Leaf_Users us) \<longleftrightarrow> (\<exists>x \<in> set us. grants_user H u x)"
| "leaf_grants H u (Leaf_Computed us) \<longleftrightarrow> userset_grants H us"
| "leaf_grants H u (Leaf_TupleToUserset _ uss) \<longleftrightarrow> (\<exists>us \<in> set uss. userset_grants H us)"

fun tree_grants :: "(string \<Rightarrow> string \<Rightarrow> bool) \<Rightarrow> string \<Rightarrow> tree_node \<Rightarrow> bool" where
  "tree_grants H u (Node_Leaf _ l) \<longleftrightarrow> leaf_grants H u l"
| "tree_grants H u (Node_Union _ ns) \<longleftrightarrow> (\<exists>n \<in> set ns. tree_grants H u n)"
| "tree_grants H u (Node_Intersection _ ns) \<longleftrightarrow> (\<forall>n \<in> set ns. tree_grants H u n)"
| "tree_grants H u (Node_Difference _ base sub) \<longleftrightarrow> tree_grants H u base \<and> \<not> tree_grants H u sub"

lemma set_computed_usersets:
  "set (computed_usersets relation seen tks) \<union> seen = computed_userset relation ` set tks \<union> seen"
proof (induction tks arbitrary: seen)
  case (Cons tk tks)
  show ?case
  proof (cases "computed_userset relation tk \<in> seen")
    case True
    with Cons.IH [of seen] show ?thesis by auto
  next
    case False
    with Cons.IH [of "insert (computed_userset relation tk) seen"] show ?thesis by (simp add: Un_insert_right Let_def)
  qed
qed simp

lemma expand_group_Inr: "expand_group first outs = Inr ns \<Longrightarrow> list_all2 (\<lambda>out n. out = Inr n) outs ns"
proof -
  have "[e. Inl e \<leftarrow> outs] = [] \<Longrightarrow> list_all2 (\<lambda>out n. out = Inr n) outs [n. Inr n \<leftarrow> outs]"
    by (induction outs) (auto split: sum.splits)
  then show "expand_group first outs = Inr ns \<Longrightarrow> list_all2 (\<lambda>out n. out = Inr n) outs ns"
    by (auto simp: expand_group_def split: list.splits)
qed

text \<open>
  The rewrite of a relation of a type: the nodes of a valid one, and names that can be put after an
  object and told from it again.
\<close>

definition plain_relations :: "type_system \<Rightarrow> bool" where
  "plain_relations t \<longleftrightarrow> (\<forall>T R. is_ok (TypeSystem_GetRelation t T R) \<longrightarrow> R \<noteq> [] \<and> CHR ''#'' \<notin> set R)"

context tuple_reader
begin

lemma expand_read_keys:
  assumes "valid" and "full_object ob" and "r \<noteq> []"
  shows "\<exists>out. expand_read q rd store (NewTupleKey ob r []) = Some out \<and>
    (\<forall>keys. out = Inr keys \<longrightarrow> set keys = {tk \<in> contents. xq_validTuple q tk \<and> tk_object tk = ob \<and> tk_relation tk = r})"
proof -
  let ?flt = "\<lparr>rf_Object = ob, rf_Relation = r, rf_User = [], rf_Conditions = []\<rparr>"
  show ?thesis
  proof (cases "rd_Read rd store ?flt")
    case None
    with read_returns show ?thesis by blast
  next
    case (Some res)
    show ?thesis
    proof (cases res)
      case (Inl err)
      with Some show ?thesis by (simp add: expand_read_def NewTupleKey_def)
    next
      case (Inr it)
      have "drain (filteredTupleKeyIterator_Next (tupleKeyIterator_Next (rd_next rd)) (xq_validTuple q)) None (wrap_iter (wrap_iter it)) =
          Some (filter (xq_validTuple q) (map tup_key (items it)), ErrIteratorDone)"
        by (subst rd_valid.filtered.drain_items) (simp add: wrap_iter_def)
      with Some Inr read_law [OF assms, of it] show ?thesis by (auto simp: expand_read_def NewTupleKey_def)
    qed
  qed
qed

lemma resolveUsersets_means:
  assumes "\<And>c. c \<in> set cs \<Longrightarrow> \<exists>out. resolveUserset q rd store tk c = Some out \<and> (\<forall>node. out = Inr node \<longrightarrow> (G node \<longleftrightarrow> h c))"
  shows "\<exists>outs. resolveUsersets q rd store tk cs = Some outs \<and>
    (\<forall>nodes. expand_group first outs = Inr nodes \<longrightarrow> list_all2 (\<lambda>c n. G n \<longleftrightarrow> h c) cs nodes)"
proof -
  have "\<exists>outs. resolveUsersets q rd store tk cs = Some outs \<and>
      list_all2 (\<lambda>c out. \<forall>node. out = Inr node \<longrightarrow> (G node \<longleftrightarrow> h c)) cs outs"
    using assms
  proof (induction cs)
    case (Cons c cs)
    from Cons.prems [of c] Cons.IH [OF Cons.prems] show ?case by auto
  qed simp
  then obtain outs where outs: "resolveUsersets q rd store tk cs = Some outs"
    "list_all2 (\<lambda>c out. \<forall>node. out = Inr node \<longrightarrow> (G node \<longleftrightarrow> h c)) cs outs" by blast
  have "list_all2 (\<lambda>c n. G n \<longleftrightarrow> h c) cs nodes" if "expand_group first outs = Inr nodes" for nodes
    using list_all2_trans [OF _ outs(2) expand_group_Inr [OF that], of "\<lambda>c n. G n \<longleftrightarrow> h c"] by blast
  with outs(1) show ?thesis by blast
qed

end

lemma resolve_difference:
  "resolveUserset q rd store tk (Userset_Difference b s) =
    map_option (resolveDifferenceUserset q tk) (resolveUsersets q rd store tk [b, s])"
  by (simp split: option.split)

lemma list_all2_bex: "list_all2 (\<lambda>c n. G n \<longleftrightarrow> h c) cs ns \<Longrightarrow> (\<exists>n \<in> set ns. G n) \<longleftrightarrow> (\<exists>c \<in> set cs. h c)"
  by (induction rule: list_all2_induct) auto

lemma list_all2_ball: "list_all2 (\<lambda>c n. G n \<longleftrightarrow> h c) cs ns \<Longrightarrow> (\<forall>n \<in> set ns. G n) \<longleftrightarrow> (\<forall>c \<in> set cs. h c)"
  by (induction rule: list_all2_induct) auto

text \<open>A parent that counts for the user has the relation defined.\<close>

lemma counted_parent:
  assumes "is_model t T u H" and "user_defined t u" and "H x c" and "c \<noteq> []"
  shows "ttu_parent t x c"
proof -
  from assms(1,3) consider "IsSelfDefining (NewTupleKey x c u)" | rel where "TypeSystem_GetRelation t (GetType x) c = Inr rel"
    unfolding is_model_def holds_relation_def by blast
  then show ?thesis
  proof cases
    case 1
    then have u: "SplitObjectRelation u = (x, c)" by (auto simp: IsSelfDefining_def NewTupleKey_def split: prod.splits)
    from assms(2) have "full_form u" by (simp add: user_defined_def full_form_def)
    then have "IsValidUserset u \<and> GetType u = GetType x"
    proof (cases rule: full_form_cases)
      case (userset ty i r)
      then have "x = BuildObject ty i" using u by simp
      with userset \<open>full_form u\<close> show ?thesis by (simp add: full_form_def GetType_def)
    qed (use u assms(4) in simp)
    moreover have "GetRelation u = c" using u by (simp add: GetRelation_def)
    ultimately show ?thesis using assms(2) by (auto simp: user_defined_def ttu_parent_def is_ok_iff)
  next
    case (2 rel)
    then show ?thesis by (simp add: ttu_parent_def)
  qed
qed

context tuple_reader
begin

lemma resolveUserset_means:
  assumes T_def: "T = {tk \<in> contents. xq_validTuple q tk}" and t_def: "t = xq_typesys q"
    and "valid" and "full_object ob" and "r \<noteq> []" and "plain_relations t"
    and "is_model t T u H" and "user_defined t u"
    and tupleset: "\<And>x tk. Userset_TupleToUserset x \<in> set (rewrite_nodes rw) \<Longrightarrow> tk \<in> T \<Longrightarrow> tk_object tk = ob \<Longrightarrow>
      tk_relation tk = ttu_GetTupleset x \<Longrightarrow> IsValidObject (tk_user tk)"
    and "\<forall>n \<in> set (rewrite_nodes rw). node_valid t (GetType ob) r n"
  shows "\<exists>out. resolveUserset q rd store (NewTupleKey ob r []) rw = Some out \<and>
    (\<forall>node. out = Inr node \<longrightarrow> (tree_grants H u node \<longleftrightarrow> holds t T u H ob r rw))"
  using assms(9,10)
proof (induction rw)
  case Userset_Unset
  then show ?case by (simp add: node_valid_def)
next
  case Userset_This
  from expand_read_keys [OF assms(3-5), of q] obtain out where
    out: "expand_read q rd store (NewTupleKey ob r []) = Some out"
      "\<forall>keys. out = Inr keys \<longrightarrow> set keys = {tk \<in> T. tk_object tk = ob \<and> tk_relation tk = r}"
    unfolding T_def by auto
  then show ?case by (cases out) (auto simp: resolveThis_def)
next
  case (Userset_ComputedUserset c)
  then have "c \<noteq> []" "CHR ''#'' \<notin> set c" using assms(6) by (auto simp: node_valid_def plain_relations_def)
  then show ?case
    by (simp add: resolveComputedUserset_def toObjectRelation_def NewTupleKey_def userset_grants_def)
next
  case (Userset_TupleToUserset x)
  let ?ts = "ttu_GetTupleset x" and ?c = "ttu_GetComputed x"
  from Userset_TupleToUserset.prems(2) obtain rel T' where rel: "TypeSystem_GetRelation t (GetType ob) ?ts = Inr rel"
    and computed: "is_ok (TypeSystem_GetRelation t T' ?c)"
    by (auto simp: node_valid_def)
  have ts: "?ts \<noteq> []" and c: "?c \<noteq> []" "CHR ''#'' \<notin> set ?c"
    using assms(6) rel computed by (auto simp: plain_relations_def is_ok_iff)
  from expand_read_keys [OF assms(3,4) ts, of q] obtain out where
    out: "expand_read q rd store (NewTupleKey ob ?ts []) = Some out"
      "\<forall>keys. out = Inr keys \<longrightarrow> set keys = {tk \<in> T. tk_object tk = ob \<and> tk_relation tk = ?ts}"
    unfolding T_def by auto
  have "leaf_grants H u (Leaf_TupleToUserset us (computed_usersets ?c {} keys)) \<longleftrightarrow> holds t T u H ob r (Userset_TupleToUserset x)"
    if keys: "out = Inr keys" for keys us
  proof -
    have set: "set keys = {tk \<in> T. tk_object tk = ob \<and> tk_relation tk = ?ts}" using out(2) keys by blast
    have user: "SplitObjectRelation (tk_user tk) = (tk_user tk, [])" if "tk \<in> set keys" for tk
      using that Userset_TupleToUserset.prems(1) [of x tk] valid_object_no_hash SplitObjectRelation_no_hash unfolding set by auto
    have "userset_grants H (computed_userset ?c tk) \<longleftrightarrow> H (tk_user tk) ?c" if "tk \<in> set keys" for tk
      using user [OF that] c
      by (simp add: computed_userset_def userset_grants_def toObjectRelation_def NewTupleKey_def)
    then have "leaf_grants H u (Leaf_TupleToUserset us (computed_usersets ?c {} keys)) \<longleftrightarrow> (\<exists>tk \<in> set keys. H (tk_user tk) ?c)"
      using set_computed_usersets [of ?c "{}" keys] by simp
    also have "\<dots> \<longleftrightarrow> holds t T u H ob r (Userset_TupleToUserset x)"
      using user counted_parent [OF assms(7,8) _ c(1)] unfolding set by fastforce
    finally show ?thesis .
  qed
  then show ?case
    using out(1) ts rel unfolding t_def by (cases out) (auto simp: resolveTupleToUserset_def Let_def NewTupleKey_def)
next
  case (Userset_Union cs)
  have "\<exists>out. resolveUserset q rd store (NewTupleKey ob r []) c = Some out \<and>
      (\<forall>node. out = Inr node \<longrightarrow> (tree_grants H u node \<longleftrightarrow> holds t T u H ob r c))" if "c \<in> set cs" for c
    using Userset_Union.IH [OF that] Userset_Union.prems that by (auto simp: node_valid_def)
  from resolveUsersets_means [of cs, OF this] obtain outs where
    "resolveUsersets q rd store (NewTupleKey ob r []) cs = Some outs"
    "\<forall>nodes. expand_group (xq_first q) outs = Inr nodes \<longrightarrow> list_all2 (\<lambda>c n. tree_grants H u n \<longleftrightarrow> holds t T u H ob r c) cs nodes"
    by blast
  then show ?case by (cases "expand_group (xq_first q) outs") (auto simp: resolveUnionUserset_def dest!: list_all2_bex)
next
  case (Userset_Intersection cs)
  have "\<exists>out. resolveUserset q rd store (NewTupleKey ob r []) c = Some out \<and>
      (\<forall>node. out = Inr node \<longrightarrow> (tree_grants H u node \<longleftrightarrow> holds t T u H ob r c))" if "c \<in> set cs" for c
    using Userset_Intersection.IH [OF that] Userset_Intersection.prems that by (auto simp: node_valid_def)
  from resolveUsersets_means [of cs, OF this] obtain outs where
    "resolveUsersets q rd store (NewTupleKey ob r []) cs = Some outs"
    "\<forall>nodes. expand_group (xq_first q) outs = Inr nodes \<longrightarrow> list_all2 (\<lambda>c n. tree_grants H u n \<longleftrightarrow> holds t T u H ob r c) cs nodes"
    by blast
  then show ?case by (cases "expand_group (xq_first q) outs") (auto simp: resolveIntersectionUserset_def dest!: list_all2_ball)
next
  case (Userset_Difference b s)
  have "\<exists>out. resolveUserset q rd store (NewTupleKey ob r []) c = Some out \<and>
      (\<forall>node. out = Inr node \<longrightarrow> (tree_grants H u node \<longleftrightarrow> holds t T u H ob r c))" if "c \<in> set [b, s]" for c
    using Userset_Difference.IH Userset_Difference.prems that by (auto simp: node_valid_def)
  from resolveUsersets_means [of "[b, s]", OF this] obtain outs where
    "resolveUsersets q rd store (NewTupleKey ob r []) [b, s] = Some outs"
    "\<forall>nodes. expand_group (xq_first q) outs = Inr nodes \<longrightarrow> list_all2 (\<lambda>c n. tree_grants H u n \<longleftrightarrow> holds t T u H ob r c) [b, s] nodes"
    by blast
  then show ?case
    unfolding resolve_difference by (cases "expand_group (xq_first q) outs") (auto simp: resolveDifferenceUserset_def list_all2_Cons1)
qed

end

section \<open>Expanding a served request\<close>

lemma expand_contextual_Inr:
  "expand_contextual q ts = Inr () \<longleftrightarrow>
    (\<forall>tk \<in> set ts. ValidateTupleForWrite (xq_inline q) (xq_cast q) (xq_typesys q) tk = Inr ())"
  by (induction ts) (auto split: sum.split)

lemma expand_validated:
  assumes "expand_validate q req = Inr rel"
  shows "TypeSystem_GetRelation (xq_typesys q) (GetType (tk_object (xr_TupleKey req))) (tk_relation (xr_TupleKey req)) = Inr rel"
    and "tk_relation (xr_TupleKey req) \<noteq> []" and "IsValidObject (tk_object (xr_TupleKey req))"
    and "tk \<in> set (xr_ContextualTuples req) \<Longrightarrow> ValidateTupleForWrite (xq_inline q) (xq_cast q) (xq_typesys q) tk = Inr ()"
proof -
  let ?k = "xr_TupleKey req"
  have "ValidateObject (xq_typesys q) (NewTupleKey (tk_object ?k) (tk_relation ?k) []) = Inr ()"
    and rel: "TypeSystem_GetRelation (xq_typesys q) (GetType (tk_object ?k)) (tk_relation ?k) = Inr rel"
    and ne: "tk_relation ?k \<noteq> []" and ts: "expand_contextual q (xr_ContextualTuples req) = Inr ()"
    using assms by (auto simp: expand_validate_def Let_def split: if_splits sum.splits ts_error.splits)
  then show "IsValidObject (tk_object ?k)"
    by (auto simp: ValidateObject_def NewTupleKey_def Let_def split: if_splits)
  show "TypeSystem_GetRelation (xq_typesys q) (GetType (tk_object ?k)) (tk_relation ?k) = Inr rel" "tk_relation ?k \<noteq> []"
    by (rule rel, rule ne)
  show "tk \<in> set (xr_ContextualTuples req) \<Longrightarrow> ValidateTupleForWrite (xq_inline q) (xq_cast q) (xq_typesys q) tk = Inr ()"
    using ts expand_contextual_Inr by blast
qed

lemma split_userset_string: "SplitObjectRelation u = (ob, r) \<Longrightarrow> r \<noteq> [] \<Longrightarrow> u = ToObjectRelationString ob r"
  by (cases "CHR ''#'' \<in> set u") (simp_all add: SplitObjectRelation_hash SplitObjectRelation_no_hash)

text \<open>The user of a tuple that is valid under the tupleset of a rewrite is an object.\<close>

lemma tupleset_user:
  assumes "valid_model compile model" and t: "t = newWithoutGraphs model"
    and rel: "TypeSystem_GetRelation t (GetType ob) r = Inr rel" and node: "Userset_TupleToUserset x \<in> set (rewrite_nodes (rel_rewrite rel))"
    and "FilterInvalidTuples cast t tk" and "tk_object tk = ob" and "tk_relation tk = ttu_GetTupleset x"
  shows "IsValidObject (tk_user tk)"
proof -
  have "node_valid t (GetType ob) r (Userset_TupleToUserset x)"
    using valid_relation(1) [OF assms(1) rel [unfolded t]] node unfolding t relation_valid_def by blast
  then obtain ts where ts: "TypeSystem_GetRelation t (GetType ob) (ttu_GetTupleset x) = Inr ts" by (auto simp: node_valid_def)
  then have "ttu_GetTupleset x \<noteq> []" using valid_relation(2) [OF assms(1)] t by blast
  then obtain y where y: "x = Some y" "ttu_tupleset y = ttu_GetTupleset x" by (cases x) (auto simp: ttu_GetTupleset_def)
  obtain td where td: "model_type model (GetType ob) = Some td" "map_of (td_relations td) r = Some (rel_rewrite rel)"
    using new_relation [OF rel [unfolded t]] by blast
  have "model_rewrite model (GetType ob) (ttu_GetTupleset x) \<noteq> None"
    using ts unfolding t by (auto simp: GetRelation_new model_rewrite_def split: option.splits)
  with td y node have "IsTuplesetRelation t (GetType ob) (ttu_GetTupleset x) = Inr True"
    unfolding t tupleset_relation_iff by (auto dest: map_of_SomeD)
  moreover have "tupleset_ok t tk ts"
    using assms(5-7) ts validateTuplesetRestrictions_iff [of t tk ts]
    by (auto simp: FilterInvalidTuples_def ValidateTupleForRead_def is_ok_iff split: sum.splits)
  ultimately show ?thesis using assms(6,7) by (simp add: tupleset_ok_def)
qed

text \<open>
  C6: in every state that a server can be in, the tree that Expand returns means what the relation
  means: under any reading of the rewrites over the valid tuples (whatever their conditions say), a
  user gets the relation from the tree exactly if the reading gives it, the userset of the object and
  relation itself apart. Expand always returns.
\<close>

theorem expand_means:
  assumes served: "served compile c ctx_string is_ulid s cache"
    and item: "fst (resolveTypesystem compile (wc_build c) is_ulid s (xr_StoreId req) modelID cache) = Inr (t, g)"
    and t: "xq_typesys q = t" and "plain_relations t"
    and perm: "\<forall>ts. mset (xq_sort q ts) = mset ts" and new: "new_tuples (xr_ContextualTuples req) (set (stored s (xr_StoreId req)))"
    and rd: "rd = NewCombinedTupleReader (xq_sort q) (memory_reader srt s) (xr_ContextualTuples req)"
    and T: "T = {tk \<in> known_tuples rd s (xr_StoreId req). FilterInvalidTuples (xq_cast q) t tk}"
    and reading: "is_model t T u H" "user_defined t u" "u \<noteq> ToObjectRelationString ob r"
    and k: "tk_object (xr_TupleKey req) = ob" "tk_relation (xr_TupleKey req) = r"
  shows "\<exists>out. ExpandQuery_Execute ordered q (memory_reader srt s) req = Some out \<and>
    (\<forall>root. out = Inr root \<longrightarrow> (tree_grants H u root \<longleftrightarrow> H ob r))"
proof (cases "expand_validate q req")
  case (Inl err)
  then show ?thesis by (simp add: ExpandQuery_Execute_def)
next
  case (Inr rel)
  from resolved [OF served item] obtain model where valid: "NewAndValidate compile (wc_build c) model = Inr (t, g)" by blast
  note model = NewAndValidate_facts(1,2) [OF valid] conjunct2 [OF validateModel_sound [OF NewAndValidate_Inr(1) [OF valid]]]
  note v = expand_validated [OF Inr, unfolded k t]
  have "data_ok rd s (xr_StoreId req)"
    unfolding rd using write_validated_key [OF v(4) model(2)] perm
    by (intro request_data_ok [OF served_reachable [OF served] _ _ new]) auto
  then have ok: "tuples_ok s (xr_StoreId req) \<and> contextual_ok (cr_tuples rd) (set (stored s (xr_StoreId req)))"
    by (simp add: data_ok_def)
  have "cr_reader rd = memory_reader srt s" by (simp add: rd NewCombinedTupleReader_def)
  note R = memory_reader_laws [OF this, of ordered "xr_StoreId req"]
  have T': "T = {tk \<in> known_tuples rd s (xr_StoreId req). xq_validTuple q tk}" by (simp add: T xq_validTuple_def t)
  obtain out where out: "resolveUserset q (as_reader ordered rd) (xr_StoreId req) (NewTupleKey ob r []) (rel_rewrite rel) = Some out"
    "\<forall>node. out = Inr node \<longrightarrow> (tree_grants H u node \<longleftrightarrow> holds t T u H ob r (rel_rewrite rel))"
  proof -
    have nodes: "\<forall>n \<in> set (rewrite_nodes (rel_rewrite rel)). node_valid t (GetType ob) r n"
      using valid_relation(1) [OF model(3) v(1) [unfolded model(1)]] unfolding model(1) relation_valid_def by blast
    from tuple_reader.resolveUserset_means [OF R T' t [symmetric] ok valid_object_full [OF v(3)] v(2) assms(4) reading(1,2) _ nodes]
      tupleset_user [OF model(3,1) v(1)] that show thesis unfolding T by blast
  qed
  have "\<not> IsSelfDefining (NewTupleKey ob r u)"
    using split_userset_string [of u ob r] reading(3) v(2) by (auto simp: IsSelfDefining_def NewTupleKey_def split: prod.splits)
  then have "H ob r \<longleftrightarrow> holds t T u H ob r (rel_rewrite rel)"
    using reading(1) v(1) unfolding is_model_def holds_relation_def by auto
  with out Inr show ?thesis by (simp add: ExpandQuery_Execute_def k rd)
qed

text \<open>The served example.\<close>

definition sample_expand :: expand_query where
  "sample_expand = \<lparr>xq_typesys = newWithoutGraphs (sample_check_model sample_unbanned), xq_inline = (\<lambda>_. Inr ()),
     xq_cast = (\<lambda>_ _. Inr []), xq_sort = (\<lambda>ts. ts), xq_first = List.hd\<rparr>"

definition sample_expand_request :: expand_request where
  "sample_expand_request = \<lparr>xr_StoreId = ''s'', xr_TupleKey = NewTupleKey ''d:1'' ''c'' [],
     xr_ContextualTuples = [NewTupleKey ''g:x'' ''m'' ''u:a'']\<rparr>"

theorem expand_means_witness:
  "ExpandQuery_Execute (\<lambda>_. False) sample_expand (memory_reader (\<lambda>rs. rs) (sample_served sample_unbanned)) sample_expand_request =
     Some (Inr (Node_Difference ''d:1#c'' (Node_Leaf ''d:1#c'' (Leaf_Computed ''d:1#v'')) (Node_Leaf ''d:1#c'' (Leaf_Computed ''d:1#b'')))) \<and>
   tree_grants sample_meaning ''u:a''
     (Node_Difference ''d:1#c'' (Node_Leaf ''d:1#c'' (Leaf_Computed ''d:1#v'')) (Node_Leaf ''d:1#c'' (Leaf_Computed ''d:1#b'')))"
proof -
  let ?t = "newWithoutGraphs (sample_check_model sample_unbanned)"
    and ?rd = "NewCombinedTupleReader (xq_sort sample_expand) (memory_reader (\<lambda>rs. rs) (sample_served sample_unbanned))
      (xr_ContextualTuples sample_expand_request)"
  note setting = sample_served_setting [OF disjI2, OF refl]
  have tree: "ExpandQuery_Execute (\<lambda>_. False) sample_expand (memory_reader (\<lambda>rs. rs) (sample_served sample_unbanned)) sample_expand_request =
     Some (Inr (Node_Difference ''d:1#c'' (Node_Leaf ''d:1#c'' (Leaf_Computed ''d:1#v'')) (Node_Leaf ''d:1#c'' (Leaf_Computed ''d:1#b''))))"
    by code_simp
  have plain: "plain_relations ?t" by (auto simp: plain_relations_def is_ok_iff sample_relations)
  have "cr_tuples ?rd = [NewTupleKey ''g:x'' ''m'' ''u:a'']"
    by (simp add: NewCombinedTupleReader_def sample_expand_def sample_expand_request_def) code_simp
  then have "known_tuples ?rd (sample_served sample_unbanned) ''s'' = {NewTupleKey ''g:x'' ''m'' ''u:a'', NewTupleKey ''d:1'' ''v'' ''g:x#m''}"
    unfolding known_tuples_def setting(2) by auto
  moreover have "list_all (FilterInvalidTuples (xq_cast sample_expand) ?t) [NewTupleKey ''g:x'' ''m'' ''u:a'', NewTupleKey ''d:1'' ''v'' ''g:x#m'']"
    by code_simp
  ultimately have T: "{NewTupleKey ''g:x'' ''m'' ''u:a'', NewTupleKey ''d:1'' ''v'' ''g:x#m''} =
      {tk \<in> known_tuples ?rd (sample_served sample_unbanned) (xr_StoreId sample_expand_request). FilterInvalidTuples (xq_cast sample_expand) ?t tk}"
    by (auto simp: sample_expand_request_def)
  have "is_model ?t {NewTupleKey ''g:x'' ''m'' ''u:a'', NewTupleKey ''d:1'' ''v'' ''g:x#m''} ''u:a'' sample_meaning"
    using sample_meaning_stable unfolding stable_reading_def by blast
  moreover have "user_defined ?t ''u:a''" "''u:a'' \<noteq> ToObjectRelationString ''d:1'' ''c''" by code_simp+
  moreover have "sample_meaning ''d:1'' ''c''" by (simp add: sample_meaning_def)
  moreover have "new_tuples (xr_ContextualTuples sample_expand_request) (set (stored (sample_served sample_unbanned) (xr_StoreId sample_expand_request)))"
    using setting(5) by (simp add: sample_expand_request_def sample_command_params_def)
  moreover have "fst (resolveTypesystem (\<lambda>_. Inr ()) (wc_build sample_server) (\<lambda>_. True) (sample_served sample_unbanned)
      (xr_StoreId sample_expand_request) [] Map.empty) = Inr (?t, NewAuthorizationModelGraph (\<lambda>_. ''00'') (sample_check_model sample_unbanned))"
    using setting(3) by (simp add: sample_expand_request_def sample_command_params_def)
  ultimately show ?thesis
    using expand_means [OF setting(1) _ _ plain _ _ refl T, of _ _ "''u:a''" sample_meaning "''d:1''" "''c''" "\<lambda>_. False"] tree
    by (simp add: sample_expand_def) (simp add: sample_expand_request_def NewTupleKey_def)
qed

end
