(* ===== verification/Batch_Check.thy ===== *)
theory Batch_Check
  imports Check_Command
begin

text \<open>
  Checks in a batch (\<open>pkg/server/commands/batch_check_command.go\<close>, \<open>pkg/server/batch_check.go\<close>): the
  checks that are the same are run once, and every one gets the outcome under its own identifier.
\<close>

section \<open>The command\<close>

record batch_item =
  bi_TupleKey :: tuple_key
  bi_ContextualTuples :: "tuple_key list"
  bi_Context :: "pb_struct option"
  bi_CorrelationId :: string

record batch_params =
  bp_AuthorizationModelID :: string
  bp_Checks :: "batch_item list"
  bp_Consistency :: consistency
  bp_StoreID :: string

record batch_outcome =
  bo_Allowed :: bool
  bo_Err :: "command_error option"

text \<open>
  The digest and the sort are those of \<open>storage.InvariantCacheKey\<close>; \<open>bq_done key\<close> is the error of the
  context, if it is over when the check with that key is to be run, \<open>bq_show\<close> the text that protobuf
  makes of a tuple key.
\<close>

record batch_query =
  bq_maxChecksAllowed :: nat
  bq_checker :: "check_command_params \<Rightarrow> (command_error, check_result) result ran option"
  bq_sum64 :: "string \<Rightarrow> nat"
  bq_sort :: "tuple_key list \<Rightarrow> tuple_key list"
  bq_done :: "string \<Rightarrow> string iter_err option"
  bq_show :: "tuple_key \<Rightarrow> string"

datatype batch_error =
    TooManyChecks nat nat
  | NoChecks
  | EmptyCorrelationID tuple_key
  | DuplicateCorrelationID string

fun validate_ids :: "string set \<Rightarrow> batch_item list \<Rightarrow> (batch_error, unit) result" where
  "validate_ids seen [] = Inr ()"
| "validate_ids seen (check # checks) =
     (if bi_CorrelationId check = [] then Inl (EmptyCorrelationID (bi_TupleKey check))
      else if bi_CorrelationId check \<in> seen then Inl (DuplicateCorrelationID (bi_CorrelationId check))
      else validate_ids (insert (bi_CorrelationId check) seen) checks)"

definition validateCorrelationIDs :: "batch_item list \<Rightarrow> (batch_error, unit) result" where
  "validateCorrelationIDs checks = validate_ids {} checks"

definition generateCacheKeyFromCheck :: "batch_query \<Rightarrow> batch_item \<Rightarrow> string \<Rightarrow> string \<Rightarrow> string" where
  "generateCacheKeyFromCheck q check storeID authModelID =
     (let k = bi_TupleKey check in
      CheckCacheKey storeID (tk_object k) (tk_relation k) (tk_user k)
        (InvariantCacheKey (bq_sum64 q) (bq_sort q) storeID authModelID (bi_Context check) (bi_ContextualTuples check)))"

text \<open>\<open>cacheKeyMap\<close>, in the order in which its keys came.\<close>

type_synonym check_groups = "(string \<times> batch_item \<times> string list) list"

fun add_check :: "string \<Rightarrow> batch_item \<Rightarrow> check_groups \<Rightarrow> check_groups" where
  "add_check key check [] = [(key, check, [bi_CorrelationId check])]"
| "add_check key check ((k, item, ids) # m) =
     (if k = key then (k, item, ids @ [bi_CorrelationId check]) # m else (k, item, ids) # add_check key check m)"

definition group_checks :: "batch_query \<Rightarrow> batch_params \<Rightarrow> check_groups" where
  "group_checks q params =
     fold (\<lambda>check. add_check (generateCacheKeyFromCheck q check (bp_StoreID params) (bp_AuthorizationModelID params)) check)
       (bp_Checks params) []"

definition item_params :: "batch_params \<Rightarrow> batch_item \<Rightarrow> check_command_params" where
  "item_params params check =
     \<lparr>cp_StoreID = bp_StoreID params, cp_TupleKey = bi_TupleKey check, cp_ContextualTuples = bi_ContextualTuples check,
      cp_Context = bi_Context check, cp_Consistency = bp_Consistency params\<rparr>"

definition batch_outcome_of :: "(command_error, check_result) result \<Rightarrow> batch_outcome" where
  "batch_outcome_of out = (case out of
     Inl err \<Rightarrow> \<lparr>bo_Allowed = False, bo_Err = Some err\<rparr>
   | Inr res \<Rightarrow> \<lparr>bo_Allowed = res_Allowed res, bo_Err = None\<rparr>)"

definition batch_run :: "batch_query \<Rightarrow> batch_params \<Rightarrow> string \<Rightarrow> batch_item \<Rightarrow> batch_outcome ran option" where
  "batch_run q params key check =
     (case bq_done q key of
        Some e \<Rightarrow> Some (Returned \<lparr>bo_Allowed = False, bo_Err = Some (CheckError (CE_Context e))\<rparr>)
      | None \<Rightarrow> map_option (map_ran batch_outcome_of) (bq_checker q (item_params params check)))"

text \<open>\<open>pool.Wait\<close>: all tasks have returned, or a panic goes on.\<close>

fun wait_all :: "'a ran option list \<Rightarrow> 'a list ran option" where
  "wait_all [] = Some (Returned [])"
| "wait_all (h # hs) =
     (case (h, wait_all hs) of
        (Some (Returned x), Some (Returned xs)) \<Rightarrow> Some (Returned (x # xs))
      | (Some (Panicked msg), Some _) \<Rightarrow> Some (Panicked msg)
      | (Some (Returned _), Some (Panicked msg)) \<Rightarrow> Some (Panicked msg)
      | _ \<Rightarrow> None)"

fun spread_results :: "(string list \<times> batch_outcome) list \<Rightarrow> (string \<Rightarrow> batch_outcome option) \<Rightarrow>
    string \<Rightarrow> batch_outcome option" where
  "spread_results [] results = results"
| "spread_results ((ids, outcome) # rest) results =
     spread_results rest (fold (\<lambda>i results. results(i \<mapsto> outcome)) ids results)"

text \<open>The outcomes come with the number of checks that were not run because another was the same.\<close>

definition BatchCheckQuery_Execute :: "batch_query \<Rightarrow> batch_params \<Rightarrow>
    (batch_error, (string \<Rightarrow> batch_outcome option) \<times> nat) result ran option" where
  "BatchCheckQuery_Execute q params =
     (if length (bp_Checks params) > bq_maxChecksAllowed q then
        Some (Returned (Inl (TooManyChecks (length (bp_Checks params)) (bq_maxChecksAllowed q))))
      else if bp_Checks params = [] then Some (Returned (Inl NoChecks))
      else (case validateCorrelationIDs (bp_Checks params) of Inl err \<Rightarrow> Some (Returned (Inl err))
        | Inr _ \<Rightarrow>
           (let cacheKeyMap = group_checks q params
            in map_option (map_ran (\<lambda>outcomes.
                  Inr (spread_results (zip (map (snd \<circ> snd) cacheKeyMap) outcomes) Map.empty,
                       length (bp_Checks params) - length cacheKeyMap)))
                (wait_all (map (\<lambda>(key, check, _). batch_run q params key check) cacheKeyMap)))))"

section \<open>The response\<close>

datatype check_code =
    Code_validation_error
  | Code_invalid_tuple
  | Code_authorization_model_resolution_too_complex
  | Code_deadline_exceeded
  | Code_internal_error

datatype single_result = Single_Allowed bool | Single_Error check_code

definition transformCheckCommandErrorToBatchCheckError :: "command_error \<Rightarrow> check_code" where
  "transformCheckCommandErrorToBatchCheckError err = (case err of
     InvalidRelation _ \<Rightarrow> Code_validation_error
   | InvalidTuple _ \<Rightarrow> Code_invalid_tuple
   | CheckError CE_ResolutionDepthExceeded \<Rightarrow> Code_authorization_model_resolution_too_complex
   | CheckError (CE_Iterator (ErrFatal _)) \<Rightarrow> Code_validation_error
   | CheckError (CE_Iterator (ErrOther _)) \<Rightarrow> Code_validation_error
   | CheckError (CE_Store (ErrIter (ErrFatal _))) \<Rightarrow> Code_validation_error
   | CheckError (CE_Store (ErrIter (ErrOther _))) \<Rightarrow> Code_validation_error
   | InvalidContext _ \<Rightarrow> Code_validation_error
   | ThrottledError _ \<Rightarrow> Code_validation_error
   | CheckError cause \<Rightarrow> (if deadline_exceeded cause then Code_deadline_exceeded else Code_internal_error)
   | InvalidRequest _ \<Rightarrow> Code_internal_error)"

definition transformCheckResultToProto :: "batch_outcome \<Rightarrow> single_result" where
  "transformCheckResultToProto outcome = (case bo_Err outcome of
     Some err \<Rightarrow> Single_Error (transformCheckCommandErrorToBatchCheckError err)
   | None \<Rightarrow> Single_Allowed (bo_Allowed outcome))"

definition batch_error_text :: "(tuple_key \<Rightarrow> string) \<Rightarrow> batch_error \<Rightarrow> string" where
  "batch_error_text show_tuple err = (case err of
     TooManyChecks n limit \<Rightarrow> ''batchCheck received '' @ Itoa (int n) @ '' checks, the maximum allowed is '' @ Itoa (int limit)
   | NoChecks \<Rightarrow> ''batch check requires at least one check to evaluate, no checks were received''
   | EmptyCorrelationID tk \<Rightarrow> ''received empty correlation id for tuple: '' @ show_tuple tk
   | DuplicateCorrelationID i \<Rightarrow> ''received duplicate correlation id: '' @ i)"

text \<open>\<open>Server.BatchCheck\<close>, whose checker is the command over the model that was found.\<close>

definition Server_BatchCheck :: "(condition \<Rightarrow> (string, unit) result) \<Rightarrow> (authorization_model \<Rightarrow> (ts_error, 'g) result) \<Rightarrow>
    (string \<Rightarrow> bool) \<Rightarrow> 'a memory_backend \<Rightarrow> (type_system \<Rightarrow> 'g \<Rightarrow> ('i, 'k) check_query) \<Rightarrow> batch_query \<Rightarrow> string \<Rightarrow>
    batch_params \<Rightarrow> 'g ts_cache \<Rightarrow> (server_error, string \<Rightarrow> single_result option) result ran option \<times> 'g ts_cache" where
  "Server_BatchCheck compile build is_ulid s query batch modelID params cache =
     (case resolveTypesystem compile build is_ulid s (bp_StoreID params) modelID cache of
        (Inl err, cache) \<Rightarrow> (Some (Returned (Inl err)), cache)
      | (Inr (typesys, g), cache) \<Rightarrow>
          (map_option (map_ran (map_sum (\<lambda>err. SE_ValidationError (CauseBatch (batch_error_text (bq_show batch) err)))
              (\<lambda>(results, _) i. map_option transformCheckResultToProto (results i))))
             (BatchCheckQuery_Execute (batch\<lparr>bq_checker := CheckQuery_Execute (query typesys g)\<rparr>)
                (params\<lparr>bp_AuthorizationModelID := ts_modelID typesys\<rparr>)), cache))"

section \<open>Which batches are refused\<close>

lemma validate_ids_Inr:
  "validate_ids seen checks = Inr () \<longleftrightarrow> [] \<notin> bi_CorrelationId ` set checks \<and> distinct (map bi_CorrelationId checks) \<and>
     seen \<inter> bi_CorrelationId ` set checks = {}"
  by (induction checks arbitrary: seen) auto

section \<open>The groups\<close>

lemma map_of_add_check:
  "map_of (add_check key check m) = (map_of m)(key \<mapsto> (case map_of m key of None \<Rightarrow> (check, [bi_CorrelationId check])
    | Some (item, ids) \<Rightarrow> (item, ids @ [bi_CorrelationId check])))"
  by (induction key check m rule: add_check.induct) (auto split: option.split)

lemma keys_add_check: "fst ` set (add_check key check m) = insert key (fst ` set m)"
  by (induction key check m rule: add_check.induct) auto

lemma distinct_add_check: "distinct (map fst m) \<Longrightarrow> distinct (map fst (add_check key check m))"
  by (induction key check m rule: add_check.induct) (auto simp: keys_add_check [unfolded image_set] keys_add_check)

definition groups_ok :: "(batch_item \<Rightarrow> string) \<Rightarrow> batch_item list \<Rightarrow> check_groups \<Rightarrow> bool" where
  "groups_ok key checks m \<longleftrightarrow> distinct (map fst m) \<and> (\<forall>check \<in> set checks. map_of m (key check) \<noteq> None) \<and>
     (\<forall>k item ids. map_of m k = Some (item, ids) \<longrightarrow> item \<in> set checks \<and> key item = k \<and>
        set ids = bi_CorrelationId ` {check \<in> set checks. key check = k})"

lemma groups_ok_add:
  assumes "groups_ok key checks m"
  shows "groups_ok key (checks @ [check]) (add_check (key check) check m)"
proof -
  let ?m = "add_check (key check) check m"
  have "item \<in> set (checks @ [check]) \<and> key item = k \<and>
      set ids = bi_CorrelationId ` {c \<in> set (checks @ [check]). key c = k}" if held: "map_of ?m k = Some (item, ids)" for k item ids
  proof (cases "k = key check")
    case False
    then have "{c \<in> set (checks @ [check]). key c = k} = {c \<in> set checks. key c = k}" by auto
    with held False assms show ?thesis by (auto simp: map_of_add_check groups_ok_def)
  next
    case True
    then have same: "{c \<in> set (checks @ [check]). key c = k} = insert check {c \<in> set checks. key c = k}" by auto
    show ?thesis
    proof (cases "map_of m k")
      case None
      with assms True have "{c \<in> set checks. key c = k} = {}" by (auto simp: groups_ok_def)
      with held None True show ?thesis unfolding same by (auto simp: map_of_add_check)
    next
      case (Some p)
      then obtain ids' where "map_of m k = Some (item, ids')" "ids = ids' @ [bi_CorrelationId check]"
        using held True by (cases p) (auto simp: map_of_add_check)
      with assms show ?thesis unfolding same by (auto simp: groups_ok_def)
    qed
  qed
  moreover have "distinct (map fst ?m)" using assms distinct_add_check unfolding groups_ok_def by blast
  moreover have "map_of ?m (key c) \<noteq> None" if "c \<in> set (checks @ [check])" for c
    using assms that unfolding groups_ok_def map_of_add_check by (cases "key c = key check") (auto split: option.split)
  ultimately show ?thesis unfolding groups_ok_def by blast
qed

lemma group_checks_ok:
  "groups_ok (\<lambda>check. generateCacheKeyFromCheck q check (bp_StoreID params) (bp_AuthorizationModelID params))
     (bp_Checks params) (group_checks q params)"
proof -
  have "groups_ok key checks (fold (\<lambda>check. add_check (key check) check) checks [])" for key checks
  proof (induction checks rule: rev_induct)
    case (snoc check checks)
    with groups_ok_add [OF snoc] show ?case by simp
  qed (simp add: groups_ok_def)
  then show ?thesis unfolding group_checks_def .
qed

section \<open>The results\<close>

lemma fold_outcome: "fold (\<lambda>i results. results(i \<mapsto> outcome)) ids results i = (if i \<in> set ids then Some outcome else results i)"
  by (induction ids arbitrary: results) auto

lemma spread_results_other: "i \<notin> (\<Union>e \<in> set es. set (fst e)) \<Longrightarrow> spread_results es results i = results i"
  by (induction es results rule: spread_results.induct) (auto simp: fold_outcome)

lemma spread_results_same:
  assumes "\<And>ids outcome. (ids, outcome) \<in> set es \<Longrightarrow> i \<in> set ids \<Longrightarrow> outcome = out"
    and "results i = Some out \<or> (\<exists>e \<in> set es. i \<in> set (fst e))"
  shows "spread_results es results i = Some out"
  using assms by (induction es results rule: spread_results.induct) (fastforce simp: fold_outcome)+

lemma wait_all_returned: "wait_all (map (\<lambda>x. Some (Returned (f x))) xs) = Some (Returned (map f xs))"
  by (induction xs) simp_all

lemma zip_maps: "zip (map f xs) (map g xs) = map (\<lambda>x. (f x, g x)) xs"
  by (induction xs) simp_all

section \<open>Every check gets its own answer\<close>

text \<open>Two checks that are the same, up to the order of contextual tuples and of fields in contexts.\<close>

definition same_check :: "batch_item \<Rightarrow> batch_item \<Rightarrow> bool" where
  "same_check a b \<longleftrightarrow> same_key (bi_TupleKey a) (bi_TupleKey b) \<and>
     mset (map tuple_content (bi_ContextualTuples a)) = mset (map tuple_content (bi_ContextualTuples b)) \<and>
     context_tree (bi_Context a) = context_tree (bi_Context b)"

definition check_bytes :: "batch_query \<Rightarrow> batch_params \<Rightarrow> batch_item \<Rightarrow> string" where
  "check_bytes q params check = invariant_bytes (bq_sort q) (bp_StoreID params) (bp_AuthorizationModelID params)
     (bi_Context check) (bi_ContextualTuples check)"

lemma same_cache_key:
  assumes "\<And>ts. mset (bq_sort q ts) = mset ts" and "\<And>b. bq_sum64 q b < 2 ^ 64"
    and "bq_sum64 q (check_bytes q params a) = bq_sum64 q (check_bytes q params b) \<Longrightarrow> check_bytes q params a = check_bytes q params b"
    and "tuples_64 (bi_ContextualTuples a)" and "tuples_64 (bi_ContextualTuples b)" and "context_64 (bi_Context a)" and "context_64 (bi_Context b)"
    and key: "generateCacheKeyFromCheck q a st m = generateCacheKeyFromCheck q b st m" and st: "st = bp_StoreID params" "m = bp_AuthorizationModelID params"
  shows "same_check a b"
proof -
  have "same_key (bi_TupleKey a) (bi_TupleKey b) \<and> bq_sum64 q (check_bytes q params a) = bq_sum64 q (check_bytes q params b)"
    using key assms(2) unfolding generateCacheKeyFromCheck_def Let_def InvariantCacheKey_def st key_forms same_key_def check_bytes_def
    by (subst (asm) key_parts_inj) auto
  with invariant_key_determines [OF assms(1,4-7) assms(3) [unfolded check_bytes_def]] show ?thesis
    by (simp add: same_check_def check_bytes_def)
qed

text \<open>
  C7: a batch of checks, not too many and with identifiers that are not empty and distinct, is answered
  for exactly these identifiers, and under each of them with the outcome of its own check; that equal
  checks are run once, by digests that do not collide, makes no difference.
\<close>

theorem batch_answers:
  assumes "length (bp_Checks params) \<le> bq_maxChecksAllowed q" and "bp_Checks params \<noteq> []"
    and ids: "distinct (map bi_CorrelationId (bp_Checks params))" "[] \<notin> bi_CorrelationId ` set (bp_Checks params)"
    and "\<forall>key. bq_done q key = None" and srt: "\<And>ts. mset (bq_sort q ts) = mset ts" and sum: "\<And>b. bq_sum64 q b < 2 ^ 64"
    and digest: "inj_on (bq_sum64 q) (check_bytes q params ` set (bp_Checks params))"
    and "\<forall>check \<in> set (bp_Checks params). tuples_64 (bi_ContextualTuples check) \<and> context_64 (bi_Context check)"
    and run: "\<forall>check \<in> set (bp_Checks params). bq_checker q (item_params params check) = Some (Returned (answer check))"
    and same: "\<forall>a \<in> set (bp_Checks params). \<forall>b \<in> set (bp_Checks params). same_check a b \<longrightarrow> answer a = answer b"
  shows "\<exists>results duplicates. BatchCheckQuery_Execute q params = Some (Returned (Inr (results, duplicates))) \<and>
    dom results = bi_CorrelationId ` set (bp_Checks params) \<and>
    (\<forall>check \<in> set (bp_Checks params). results (bi_CorrelationId check) = Some (batch_outcome_of (answer check)))"
proof -
  let ?key = "\<lambda>check. generateCacheKeyFromCheck q check (bp_StoreID params) (bp_AuthorizationModelID params)"
    and ?m = "group_checks q params"
  let ?es = "zip (map (snd \<circ> snd) ?m) (map (\<lambda>(key, check, _). batch_outcome_of (answer check)) ?m)"
  note groups = group_checks_ok [of q params, unfolded groups_ok_def]
  have entry: "check \<in> set (bp_Checks params)" "?key check = k"
    "set is = bi_CorrelationId ` {c \<in> set (bp_Checks params). ?key c = k}" if "(k, check, is) \<in> set ?m" for k check "is"
    using groups map_of_is_SomeI [of ?m k "(check, is)"] that by auto
  have "map (\<lambda>(key, check, _). batch_run q params key check) ?m =
      map (\<lambda>e. Some (Returned (case e of (key, check, _) \<Rightarrow> batch_outcome_of (answer check)))) ?m"
    using entry(1) run assms(5) by (auto simp: batch_run_def)
  then have waited: "wait_all (map (\<lambda>(key, check, _). batch_run q params key check) ?m) =
      Some (Returned (map (\<lambda>(key, check, _). batch_outcome_of (answer check)) ?m))"
    by (simp only: wait_all_returned)
  have "validateCorrelationIDs (bp_Checks params) = Inr ()"
    using ids by (simp add: validateCorrelationIDs_def validate_ids_Inr)
  then have execute: "BatchCheckQuery_Execute q params =
      Some (Returned (Inr (spread_results ?es Map.empty, length (bp_Checks params) - length ?m)))"
    using assms(1,2) waited by (simp add: BatchCheckQuery_Execute_def Let_def)
  have es: "(is, out) \<in> set ?es \<longleftrightarrow> (\<exists>k check. (k, check, is) \<in> set ?m \<and> out = batch_outcome_of (answer check))" for "is" out
    unfolding zip_maps by force
  have result: "spread_results ?es Map.empty (bi_CorrelationId check) = Some (batch_outcome_of (answer check))"
    if check: "check \<in> set (bp_Checks params)" for check
  proof (rule spread_results_same)
    fix "is" out assume "(is, out) \<in> set ?es" and i: "bi_CorrelationId check \<in> set is"
    then obtain k c where c: "(k, c, is) \<in> set ?m" "out = batch_outcome_of (answer c)" by (auto simp: es)
    with entry(3) i obtain c' where "c' \<in> set (bp_Checks params)" "?key c' = k" "bi_CorrelationId c' = bi_CorrelationId check" by auto
    with ids(1) check have "?key check = k" by (auto simp: distinct_map inj_on_def)
    with entry(2) [OF c(1)] have "?key check = ?key c" by simp
    from same_cache_key [OF srt sum _ _ _ _ _ this, of params] digest assms(9) check entry(1) [OF c(1)]
    have "same_check check c" by (auto simp: inj_on_def)
    with same check entry(1) [OF c(1)] c(2) show "out = batch_outcome_of (answer check)" by simp
  next
    have "map_of ?m (?key check) \<noteq> None" using groups check by blast
    then obtain c "is" where c: "(?key check, c, is) \<in> set ?m" by (auto dest: map_of_SomeD)
    with entry(3) check have "bi_CorrelationId check \<in> set is" by auto
    with c es [of "is" "batch_outcome_of (answer c)"] show "Map.empty (bi_CorrelationId check) = Some (batch_outcome_of (answer check)) \<or>
        (\<exists>e \<in> set ?es. bi_CorrelationId check \<in> set (fst e))" by force
  qed
  have "i \<in> bi_CorrelationId ` set (bp_Checks params)" if "spread_results ?es Map.empty i \<noteq> None" for i
    using spread_results_other [of i ?es Map.empty] that entry(3) es by fastforce
  with result have "dom (spread_results ?es Map.empty) = bi_CorrelationId ` set (bp_Checks params)" by (auto simp: dom_def)
  with execute result show ?thesis by blast
qed

text \<open>A batch over the served example, in which one check comes twice.\<close>

definition sample_batch :: batch_query where
  "sample_batch = \<lparr>bq_maxChecksAllowed = 3,
     bq_checker = (\<lambda>p. Some (Returned (Inr \<lparr>res_Allowed = (tk_user (cp_TupleKey p) = ''u:a''), res_CycleDetected = False\<rparr>))),
     bq_sum64 = (\<lambda>b. if CHR ''x'' \<in> set b then 1 else 0), bq_sort = (\<lambda>ts. ts), bq_done = (\<lambda>_. None), bq_show = (\<lambda>_. [])\<rparr>"

definition sample_item :: "string \<Rightarrow> string \<Rightarrow> pb_struct option \<Rightarrow> batch_item" where
  "sample_item i u ctx = \<lparr>bi_TupleKey = NewTupleKey ''d:1'' ''c'' u, bi_ContextualTuples = [], bi_Context = ctx, bi_CorrelationId = i\<rparr>"

definition sample_batch_params :: batch_params where
  "sample_batch_params = \<lparr>bp_AuthorizationModelID = ''01'',
     bp_Checks = [sample_item ''1'' ''u:a'' None, sample_item ''2'' ''u:a'' None, sample_item ''3'' ''u:b'' (Some [(''x'', NullValue)])],
     bp_Consistency = UNSPECIFIED, bp_StoreID = ''s''\<rparr>"

theorem batch_answers_witness:
  "\<exists>results duplicates. BatchCheckQuery_Execute sample_batch sample_batch_params = Some (Returned (Inr (results, duplicates))) \<and>
    results ''2'' = Some \<lparr>bo_Allowed = True, bo_Err = None\<rparr> \<and> results ''3'' = Some \<lparr>bo_Allowed = False, bo_Err = None\<rparr>"
proof -
  let ?answer = "\<lambda>check. Inr \<lparr>res_Allowed = (tk_user (bi_TupleKey check) = ''u:a''), res_CycleDetected = False\<rparr> ::
    (command_error, check_result) result"
  note defs = sample_batch_def sample_batch_params_def sample_item_def NewTupleKey_def
  have inj: "inj_on (bq_sum64 sample_batch) (check_bytes sample_batch sample_batch_params ` set (bp_Checks sample_batch_params))"
  proof -
    have "list_all (\<lambda>a. list_all (\<lambda>b. bq_sum64 sample_batch a = bq_sum64 sample_batch b \<longrightarrow> a = b)
        (map (check_bytes sample_batch sample_batch_params) (bp_Checks sample_batch_params)))
        (map (check_bytes sample_batch sample_batch_params) (bp_Checks sample_batch_params))" by code_simp
    then show ?thesis by (auto simp: inj_on_def list_all_iff)
  qed
  have size: "length (bp_Checks sample_batch_params) \<le> bq_maxChecksAllowed sample_batch" "bp_Checks sample_batch_params \<noteq> []"
    and ids: "distinct (map bi_CorrelationId (bp_Checks sample_batch_params))"
      "[] \<notin> bi_CorrelationId ` set (bp_Checks sample_batch_params)" by code_simp+
  have libs: "\<forall>key. bq_done sample_batch key = None" "mset (bq_sort sample_batch ts) = mset ts" "bq_sum64 sample_batch b < 2 ^ 64" for ts b
    by (simp_all add: sample_batch_def)
  have small: "\<forall>check \<in> set (bp_Checks sample_batch_params). tuples_64 (bi_ContextualTuples check) \<and> context_64 (bi_Context check)"
    by (simp add: defs tuples_64_def context_64_def)
  have run: "\<forall>check \<in> set (bp_Checks sample_batch_params).
      bq_checker sample_batch (item_params sample_batch_params check) = Some (Returned (?answer check))"
    by (simp add: item_params_def sample_batch_def)
  have same: "\<forall>a \<in> set (bp_Checks sample_batch_params). \<forall>b \<in> set (bp_Checks sample_batch_params). same_check a b \<longrightarrow> ?answer a = ?answer b"
    by (simp add: same_check_def same_key_def)
  from batch_answers [OF size ids libs inj small run same]
  obtain results duplicates where "BatchCheckQuery_Execute sample_batch sample_batch_params = Some (Returned (Inr (results, duplicates)))"
    and "\<forall>check \<in> set (bp_Checks sample_batch_params). results (bi_CorrelationId check) = Some (batch_outcome_of (?answer check))"
    by blast
  then show ?thesis by (auto simp: defs batch_outcome_of_def)
qed

end
