(* ===== verification/Spec2Isabelle.thy ===== *)
theory Spec2Isabelle
  imports Go_Prelude Tuple_Key Tuple_Iterators Type_System Model_Validation Tuple_Validation Memory_Store
    Check_Reducers Combined_Reader Conditions Local_Checker Check_Semantics Check_Termination Model_Graph
    Check_Paths Check_Decides Cache_Keys Cached_Resolver Encoder Commands Server_State Typesystem_Resolver
    Check_Command Expand Batch_Check
begin

text \<open>
  A model of the core of OpenFGA, the authorization server that this repository deploys (its Go
  sources are under \<open>src/docs/repos/openfga\<close>, its language module under \<open>src/docs/repos/language\<close>).

  The program. A client writes an authorization model (types, relations and the rewrites that define
  them) and relationship tuples to a store, and asks whether a user has a relation to an object. A
  model is validated and turned into a type system with its graph; a tuple is validated against the
  type system before it is written; a check walks the rewrites, reads tuples through iterators, filters
  them by type restriction and condition, combines the outcomes of concurrent handlers, and prunes by
  the graph. Time and randomness (clocks, ULIDs), the schedule of goroutines, CEL, gonum's path search
  and the database behind an SQL datastore are parameters, with the laws they are relied on for as
  hypotheses.

  The theories, in the order of the code that they model:

  \<^item> \<open>Go_Prelude\<close>: results (\<open>error + value\<close>), byte strings and the UTF-8 decoding of \<open>range\<close>,
    \<open>internal/utils/sanitize.go\<close>.
  \<^item> \<open>Tuple_Key\<close>: \<open>pkg/tuple/tuple.go\<close>: objects, users, usersets and tuple keys, their validators and
    printers; round trips and the languages that the validators accept.
  \<^item> \<open>Tuple_Iterators\<close>: \<open>pkg/storage/tuple_iterators.go\<close> and \<open>tuple_mappers.go\<close>: iterators as state
    with \<open>Next\<close>, \<open>Head\<close> and \<open>Stop\<close>, a locale for what an iterator over a list of items promises, and an
    interpretation for each wrapper.
  \<^item> \<open>Type_System\<close>, \<open>Model_Validation\<close>: \<open>pkg/typesystem/typesystem.go\<close>: construction from a model, its
    queries, and \<open>NewAndValidate\<close> with the heap of shared maps that \<open>hasEntrypoints\<close> works on.
  \<^item> \<open>Tuple_Validation\<close>: \<open>internal/validation/validation.go\<close>: what may be written and read.
  \<^item> \<open>Memory_Store\<close>: \<open>pkg/storage/memory/memory.go\<close>: the memory backend, its operations as functions on
    its state, the reachable states and their invariant.
  \<^item> \<open>Conditions\<close>: \<open>internal/condition\<close>: parameter types, casts, inline expressions and evaluation.
  \<^item> \<open>Combined_Reader\<close>: \<open>pkg/storage/storagewrappers/combinedtuplereader.go\<close>: a locale for the reader
    that the checker needs, met by the combined reader over the memory backend.
  \<^item> \<open>Check_Reducers\<close>, \<open>Local_Checker\<close>: \<open>internal/graph/check.go\<close> and \<open>default_resolver.go\<close>: the set
    operators under any schedule of their handlers, the strategies, and \<open>ResolveCheck\<close>.
  \<^item> \<open>Model_Graph\<close>: \<open>language/pkg/go/graph\<close>: the graph of a model and its path query.
  \<^item> \<open>Check_Semantics\<close>, \<open>Check_Termination\<close>, \<open>Check_Paths\<close>, \<open>Check_Decides\<close>: what a model means
    (readings of the rewrites, the supported ones and the least one), that the checker agrees with it,
    that it returns, that the graph prunes only what is refused anyway, and all of it put together.
  \<^item> \<open>Cache_Keys\<close>, \<open>Cached_Resolver\<close>: \<open>pkg/storage/cache\<close>, \<open>pkg/storage/keys.go\<close>,
    \<open>internal/graph/cached_resolver.go\<close> and \<open>builder.go\<close>: the bytes of every cache key and what they
    determine, and the checker behind its cache.
  \<^item> \<open>Encoder\<close>: \<open>pkg/encoder\<close>, \<open>pkg/encrypter\<close>: continuation tokens, a locale for encoders that round-trip.
  \<^item> \<open>Commands\<close>, \<open>Server_State\<close>: \<open>pkg/server/commands\<close>, \<open>pkg/server/errors\<close>: the commands that keep
    the datastore as functions on its state, when they succeed, and the invariant of the states that
    sequences of commands reach.
  \<^item> \<open>Typesystem_Resolver\<close>: \<open>pkg/typesystem/resolver.go\<close>: the cached lookup of a model, over all histories.
  \<^item> \<open>Check_Command\<close>, \<open>Expand\<close>, \<open>Batch_Check\<close>: the requests that ask, from the handler to the answer, over
    every state that a server can be in.

  Bounds. The depth of a check is what \<open>maxResolutionDepth\<close> allows, and within one depth a walk of the
  rewrites visits each relation once, so \<open>check_fuel\<close>, \<open>(max depth + 1) * (number of relations + 2)\<close>,
  is enough for \<open>ResolveCheck\<close> (\<open>Check_Termination\<close>), and the theorems about checks say that they return. The
  searches of the type system are given the number of relations, which bounds their visited sets. A client
  that follows tokens makes at most one request more than there are tuples. Integers are unbounded where
  the code counts what fits into memory, and kept at 64 bits where it multiplies, shifts or converts.

  Compiling a condition is a parameter, and recompiling one gives what compiling it once gave; that is how
  the code behaves for conditions that compile (the others are the subject of a lemma of \<open>Conditions\<close>).

  Not modelled. The SQL datastores (queries that a database carries out); gRPC and HTTP transport, telemetry
  and configuration; generated code (protocol buffers, their validators, the parser of the language); the
  command line client; the strategies over weighted graphs and the second check engine built on them, which
  a planner chooses by timing; the listing of objects and users; the cache controller and the iterators that
  fill a cache; throttling, which only delays.
\<close>

end
